(* ===== verification/Prelude.thy ===== *)
theory Prelude
  imports Main "HOL-Library.Word"
begin

text \<open>
  Shared vocabulary of the development: the machine integers of \<^verbatim>\<open>types.h\<close>, the names of the
  kernel's spin locks and sleep channels, the monad in which kernel code is written, its weakest
  precondition, and the loop combinators with their rules.

  A kernel operation is a function from a state to either a reason why it did not return
  (\<open>Inl\<close>: it panicked, it went to sleep, it spins, its behaviour is undefined in C, or a loop ran
  past its bound) or a result paired with the new state (\<open>Inr\<close>). Every \<^verbatim>\<open>panic\<close> and \<^verbatim>\<open>sleep\<close> of
  the sources is therefore a branch of the model. \<open>wp m Q s\<close> says that \<open>m\<close> started in \<open>s\<close>
  returns, and that its result and final state satisfy \<open>Q\<close>: total correctness.
\<close>

unbundle bit_operations_syntax

section \<open>Machine integers and names\<close>

type_synonym uchar = "8 word"
type_synonym ushort = "16 word"
type_synonym uint = "32 word"

datatype lockid = PtableLock | BcacheLock | IcacheLock | LogLock | FtableLock | IdeLock
  | KmemLock | ConsLock | PipeLock nat

text \<open>
  The addresses the kernel sleeps on: a process slot, \<^verbatim>\<open>&ticks\<close>, a buffer, an in-core inode,
  \<^verbatim>\<open>&log\<close>, the two counters of a pipe and \<^verbatim>\<open>&input.r\<close>.
\<close>

datatype chan = ChProc nat | ChTicks | ChBuf nat | ChInode nat | ChLog | ChPipeR nat
  | ChPipeW nat | ChInput

datatype stop = Panic string | Sleep chan "lockid option" | Spin lockid | Undef string | Diverge

type_synonym ('s, 'a) kmon = "'s \<Rightarrow> stop + ('a \<times> 's)"

named_theorems wp_simps \<open>equations that compute weakest preconditions\<close>
named_theorems layout \<open>the constants of the headers\<close>

section \<open>The kernel monad\<close>

definition ret :: "'a \<Rightarrow> ('s, 'a) kmon" where
  "ret x s = Inr (x, s)"

definition stop :: "stop \<Rightarrow> ('s, 'a) kmon" where
  "stop e s = Inl e"

abbreviation panic :: "string \<Rightarrow> ('s, 'a) kmon" where
  "panic msg \<equiv> stop (Panic msg)"

definition kbind :: "('s, 'a) kmon \<Rightarrow> ('a \<Rightarrow> ('s, 'b) kmon) \<Rightarrow> ('s, 'b) kmon" where
  "kbind m f s = (case m s of Inl e \<Rightarrow> Inl e | Inr (x, s') \<Rightarrow> f x s')"

abbreviation kseq :: "('s, unit) kmon \<Rightarrow> ('s, 'b) kmon \<Rightarrow> ('s, 'b) kmon" where
  "kseq m k \<equiv> kbind m (\<lambda>_. k)"

definition gets :: "('s \<Rightarrow> 'a) \<Rightarrow> ('s, 'a) kmon" where
  "gets f s = Inr (f s, s)"

definition modify :: "('s \<Rightarrow> 's) \<Rightarrow> ('s, unit) kmon" where
  "modify f s = Inr ((), f s)"

definition kwhen :: "bool \<Rightarrow> ('s, unit) kmon \<Rightarrow> ('s, unit) kmon" where
  "kwhen c m = (if c then m else ret ())"

lemma kbind_cong [fundef_cong]:
  "m s = m' s' \<Longrightarrow> (\<And>x t. m' s' = Inr (x, t) \<Longrightarrow> f x t = f' x t) \<Longrightarrow>
    kbind m f s = kbind m' f' s'"
  by (auto simp: kbind_def split: sum.splits)

lemma kbind_assoc: "kbind (kbind m f) g = kbind m (\<lambda>x. kbind (f x) g)"
  by (rule ext) (auto simp: kbind_def split: sum.splits)

lemma ret_bind [simp]: "kbind (ret x) f = f x"
  by (rule ext) (simp add: kbind_def ret_def)

lemma bind_ret [simp]: "kbind m ret = m"
  by (rule ext) (auto simp: kbind_def ret_def split: sum.splits)

lemma kbind_run: "kbind (gets g) f s = f (g s) s" "kbind (modify h) k s = k () (h s)"
  by (simp_all add: kbind_def gets_def modify_def)

lemma kbind_Inl: "m s = Inl e \<Longrightarrow> kbind m f s = Inl e"
  by (simp add: kbind_def)

lemma kbind_Inr: "m s = Inr (x, t) \<Longrightarrow> kbind m f s = f x t"
  by (simp add: kbind_def)

lemma kbind_Inr_iff:
  "kbind m f s = Inr r \<longleftrightarrow> (\<exists>x t. m s = Inr (x, t) \<and> f x t = Inr r)"
  by (auto simp: kbind_def split: sum.splits)

lemmas kmon_defs = ret_def stop_def kbind_def gets_def modify_def kwhen_def

section \<open>Weakest preconditions\<close>

definition wp :: "('s, 'a) kmon \<Rightarrow> ('a \<Rightarrow> 's \<Rightarrow> bool) \<Rightarrow> 's \<Rightarrow> bool" where
  "wp m Q s \<longleftrightarrow> (\<exists>x t. m s = Inr (x, t) \<and> Q x t)"

lemma wpI: "m s = Inr (x, t) \<Longrightarrow> Q x t \<Longrightarrow> wp m Q s"
  by (auto simp: wp_def)

lemma wpE: "wp m Q s \<Longrightarrow> (\<And>x t. m s = Inr (x, t) \<Longrightarrow> Q x t \<Longrightarrow> R) \<Longrightarrow> R"
  by (auto simp: wp_def)

lemma wp_eq: "m s = Inr (x, t) \<Longrightarrow> wp m Q s = Q x t"
  by (simp add: wp_def)

lemma wp_ret [wp_simps]: "wp (ret x) Q s \<longleftrightarrow> Q x s"
  by (simp add: wp_def ret_def)

lemma wp_stop [wp_simps]: "wp (stop e) Q s \<longleftrightarrow> False"
  by (simp add: wp_def stop_def)

lemma wp_gets [wp_simps]: "wp (gets f) Q s \<longleftrightarrow> Q (f s) s"
  by (simp add: wp_def gets_def)

lemma wp_modify [wp_simps]: "wp (modify f) Q s \<longleftrightarrow> Q () (f s)"
  by (simp add: wp_def modify_def)

lemma wp_kbind [wp_simps]: "wp (kbind m f) Q s \<longleftrightarrow> wp m (\<lambda>x. wp (f x) Q) s"
  by (auto simp: wp_def kbind_Inr_iff)

lemma wp_if [wp_simps]: "wp (if c then m else n) Q s \<longleftrightarrow> (if c then wp m Q s else wp n Q s)"
  by simp

lemma wp_kwhen [wp_simps]: "wp (kwhen c m) Q s \<longleftrightarrow> (if c then wp m Q s else Q () s)"
  by (simp add: kwhen_def wp_ret)

lemma wp_option [wp_simps]:
  "wp (case x of None \<Rightarrow> m | Some y \<Rightarrow> f y) Q s \<longleftrightarrow>
    (case x of None \<Rightarrow> wp m Q s | Some y \<Rightarrow> wp (f y) Q s)"
  by (cases x) simp_all

lemma wp_prod [wp_simps]: "wp (case x of (a, b) \<Rightarrow> f a b) Q s \<longleftrightarrow> (case x of (a, b) \<Rightarrow> wp (f a b) Q s)"
  by (cases x) simp

lemma wp_let [wp_simps]: "wp (let x = e in f x) Q s \<longleftrightarrow> wp (f e) Q s"
  by simp

lemma wp_mono: "wp m Q s \<Longrightarrow> (\<And>x t. Q x t \<Longrightarrow> R x t) \<Longrightarrow> wp m R s"
  by (auto simp: wp_def)

lemma wp_conj: "wp m Q s \<Longrightarrow> wp m R s \<Longrightarrow> wp m (\<lambda>x t. Q x t \<and> R x t) s"
  by (auto simp: wp_def)

section \<open>Loops\<close>

text \<open>
  \<open>kfor\<close> runs a body for every index of a list, as \<^verbatim>\<open>for(i = 0; i < n; i++)\<close> does; \<open>kfind\<close>
  stops at the first index for which the body yields a value, as a loop with an early return does.
\<close>

fun kfor :: "('b \<Rightarrow> ('s, unit) kmon) \<Rightarrow> 'b list \<Rightarrow> ('s, unit) kmon" where
  "kfor body [] = ret ()"
| "kfor body (i # is) = kbind (body i) (\<lambda>_. kfor body is)"

fun kfind :: "('b \<Rightarrow> ('s, 'r option) kmon) \<Rightarrow> 'b list \<Rightarrow> ('s, 'r option) kmon" where
  "kfind body [] = ret None"
| "kfind body (i # is) =
    kbind (body i) (\<lambda>r. case r of None \<Rightarrow> kfind body is | Some v \<Rightarrow> ret (Some v))"

text \<open>The same equations with the state left off, for postconditions.\<close>

lemma wp_fun:
  "wp (ret x) Q = Q x" "wp (modify f) Q' = (\<lambda>s. Q' () (f s))" "wp (gets g) Q'' = (\<lambda>s. Q'' (g s) s)"
  "wp (kbind m h) R = wp m (\<lambda>x. wp (h x) R)" "wp (kwhen c n) R' = (if c then wp n R' else R' ())"
  by (simp_all add: fun_eq_iff wp_simps)

lemma wp_kfor:
  assumes "I [] s"
    and "\<And>xs x t. xs @ [x] = take (length xs + 1) is \<Longrightarrow> I xs t \<Longrightarrow>
          wp (body x) (\<lambda>_. I (xs @ [x])) t"
    and "\<And>t. I is t \<Longrightarrow> Q () t"
  shows "wp (kfor body is) Q s"
proof -
  have "wp (kfor body rest) Q t" if "is = done @ rest" "I done t" for "done" rest t
    using that
  proof (induction rest arbitrary: "done" t)
    case Nil
    then show ?case using assms(3) by (simp add: wp_simps)
  next
    case (Cons x rest)
    then have "wp (body x) (\<lambda>_. I (done @ [x])) t"
      using assms(2)[of "done" x t] by simp
    then show ?case
      using Cons.IH[of "done @ [x]"] Cons.prems(1)
      by (auto simp: wp_kbind elim!: wp_mono)
  qed
  from this[of "[]" "is" s] assms(1) show ?thesis by simp
qed

lemma kfor_append: "kfor body (xs @ ys) = kbind (kfor body xs) (\<lambda>_. kfor body ys)"
  by (induction xs) (simp_all add: kbind_assoc)

section \<open>Words\<close>

lemma uint_of_nat_iff: "n < 2 ^ 32 \<Longrightarrow> (x :: uint) = of_nat n \<longleftrightarrow> unat x = n"
  by (auto simp: word_unat_eq_iff unat_of_nat)

lemma unat_of_nat32: "n < 2 ^ 32 \<Longrightarrow> unat (of_nat n :: uint) = n"
  by (simp add: unat_of_nat)

text \<open>A word is put together from its four bytes, the lowest first.\<close>

definition join32 :: "uchar \<Rightarrow> uchar \<Rightarrow> uchar \<Rightarrow> uchar \<Rightarrow> uint" where
  "join32 a b c d = ucast a OR push_bit 8 (ucast b) OR push_bit 16 (ucast c) OR push_bit 24 (ucast d)"

lemma join32_split:
  "join32 (ucast w) (ucast (drop_bit 8 w)) (ucast (drop_bit 16 w)) (ucast (drop_bit 24 w)) = w"
proof (rule bit_word_eqI)
  fix n assume n: "n < LENGTH(32)"
  then have "n < 8 \<or> 8 \<le> n \<and> n < 16 \<or> 16 \<le> n \<and> n < 24 \<or> 24 \<le> n \<and> n < 32" by auto
  then have "n < 8 \<or> 8 \<le> n \<and> n - 8 < 8 \<or> 16 \<le> n \<and> n - 16 < 8 \<or> 24 \<le> n \<and> n - 24 < 8"
    by linarith
  then show "bit (join32 (ucast w) (ucast (drop_bit 8 w)) (ucast (drop_bit 16 w)) (ucast (drop_bit 24 w))) n = bit w n"
    using n by (auto simp: join32_def bit_or_iff bit_push_bit_iff bit_ucast_iff bit_drop_bit_eq)
qed

section \<open>Lists\<close>

lemma nth_list_update_if:
  "i < length xs \<Longrightarrow> xs[i := v] ! j = (if i = j then v else xs ! j)"
  by simp

lemma filter_remove1_notin: "p \<notin> set xs \<Longrightarrow> remove1 p xs = xs"
  by (rule remove1_idem)

end
