(* ===== verification/Shell.thy ===== *)
theory Shell
  imports Prelude
begin

text \<open>
  \<^verbatim>\<open>sh.c\<close>: the shell's scanner, recursive-descent parser and command runner, and its builtins. The
  input line is a list of characters; a pointer into it is an index, and reading at the end yields
  the terminating NUL. A parser function is a computation on the current index (the \<^verbatim>\<open>ps\<close> argument)
  whose failures are the \<^verbatim>\<open>panic\<close> calls. The mutually recursive parsers run on a bound of nested
  calls, the loops on the length of the line; the lemmas show that neither is ever reached.

  The commands of the tree keep index ranges into the line, as the C structures keep pointer pairs;
  \<^verbatim>\<open>nulterminate\<close> turns these into C strings by writing NUL characters into the line.
\<close>

section \<open>Characters and strings\<close>

abbreviation NUL :: char where "NUL \<equiv> CHR 0x00"

definition at :: "string \<Rightarrow> nat \<Rightarrow> char" where
  "at buf i = (if i < length buf then buf ! i else NUL)"

abbreviation NL :: char where "NL \<equiv> CHR 0x0A"

definition whitespace :: string where
  "whitespace = [CHR 0x20, CHR 0x09, CHR 0x0D, CHR 0x0A, CHR 0x0B]"

definition symbols :: string where
  "symbols = ''<|>&;()''"

text \<open>\<^verbatim>\<open>strchr(s, c)\<close> used as a truth value; it never finds the terminating NUL.\<close>

definition strchr :: "string \<Rightarrow> char \<Rightarrow> bool" where
  "strchr s c \<longleftrightarrow> c \<in> set s"

text \<open>\<^verbatim>\<open>while(s < es && P(*s)) s++\<close>\<close>

function skip_while :: "(char \<Rightarrow> bool) \<Rightarrow> string \<Rightarrow> nat \<Rightarrow> nat" where
  "skip_while P buf s = (if s < length buf \<and> P (buf ! s) then skip_while P buf (Suc s) else s)"
  by auto
termination by (relation "measure (\<lambda>(P, buf, s). length buf - s)") auto

declare skip_while.simps [simp del]

section \<open>Commands\<close>

definition O_RDONLY :: nat where [layout]: "O_RDONLY = 0x000"
definition O_WRONLY :: nat where [layout]: "O_WRONLY = 0x001"
definition O_RDWR :: nat where [layout]: "O_RDWR = 0x002"
definition O_CREATE :: nat where [layout]: "O_CREATE = 0x200"

definition MAXARGS :: nat where [layout]: "MAXARGS = 10"

text \<open>
  A word is a pair of indices, the start and the end of a counted string (\<^verbatim>\<open>argv[i]\<close>/\<^verbatim>\<open>eargv[i]\<close>,
  \<^verbatim>\<open>file\<close>/\<^verbatim>\<open>efile\<close>). The command tree is generic in its words: a parsed command has index pairs,
  a command to be printed or run has strings.
\<close>

type_synonym word_ref = "nat \<times> nat"

datatype 'w gcmd =
    EXEC "'w list"
  | REDIR "'w gcmd" 'w nat nat
  | PIPE "'w gcmd" "'w gcmd"
  | LIST "'w gcmd" "'w gcmd"
  | BACK "'w gcmd"

type_synonym cmd = "word_ref gcmd"

section \<open>The scanner\<close>

datatype token = TEnd | TChar char | TWord

text \<open>
  \<^verbatim>\<open>gettoken\<close> returns the kind of token (0, the symbol with '+' for \<^verbatim>\<open>>>\<close>, or 'a' for a word) and the
  token's range, and moves the index past it and the white space after it.
\<close>

definition scan :: "string \<Rightarrow> nat \<Rightarrow> token \<times> nat" where
  "scan buf s =
    (let c = at buf s in
     if c = NUL then (TEnd, s)
     else if c \<in> set ''|();&<'' then (TChar c, s + 1)
     else if c = CHR ''>'' then
       if at buf (s + 1) = CHR ''>'' then (TChar CHR ''+'', s + 2) else (TChar c, s + 1)
     else (TWord, skip_while (\<lambda>c. \<not> strchr whitespace c \<and> \<not> strchr symbols c) buf s))"

definition gettoken :: "string \<Rightarrow> (nat, token \<times> word_ref) kmon" where
  "gettoken buf ps =
    (let q = skip_while (strchr whitespace) buf ps;
         (ret, eq) = scan buf q
     in Inr ((ret, q, eq), skip_while (strchr whitespace) buf eq))"

definition peek :: "string \<Rightarrow> string \<Rightarrow> (nat, bool) kmon" where
  "peek buf toks ps =
    (let s = skip_while (strchr whitespace) buf ps
     in Inr (at buf s \<noteq> NUL \<and> strchr toks (at buf s), s))"

section \<open>The parser\<close>

text \<open>
  \<^verbatim>\<open>parseexec\<close> fills in the arguments of an \<^verbatim>\<open>execcmd\<close> that the redirections parsed in between
  already point to; the model collects arguments and redirections separately and builds the command
  at the end, the first redirection innermost.
\<close>

type_synonym redir = "word_ref \<times> nat \<times> nat"

definition redircmds :: "cmd \<Rightarrow> redir list \<Rightarrow> cmd" where
  "redircmds = foldl (\<lambda>c (f, mode, fd). REDIR c f mode fd)"

fun parseredirs :: "nat \<Rightarrow> string \<Rightarrow> redir list \<Rightarrow> (nat, redir list) kmon" where
  "parseredirs 0 buf rs = stop Diverge"
| "parseredirs (Suc n) buf rs =
    kbind (peek buf ''<>'') (\<lambda>b.
    if \<not> b then ret rs
    else
      kbind (gettoken buf) (\<lambda>(tok, _).
      kbind (gettoken buf) (\<lambda>(tok', w).
      if tok' \<noteq> TWord then panic ''missing file for redirection''
      else if tok = TChar CHR ''<'' then parseredirs n buf (rs @ [(w, O_RDONLY, 0)])
      else if tok = TChar CHR ''>'' then parseredirs n buf (rs @ [(w, O_WRONLY + O_CREATE, 1)])
      else if tok = TChar CHR ''+'' then parseredirs n buf (rs @ [(w, O_WRONLY + O_CREATE, 1)])
      else parseredirs n buf rs)))"

fun parseargs :: "nat \<Rightarrow> string \<Rightarrow> word_ref list \<Rightarrow> redir list \<Rightarrow>
    (nat, word_ref list \<times> redir list) kmon" where
  "parseargs 0 buf argv rs = stop Diverge"
| "parseargs (Suc n) buf argv rs =
    kbind (peek buf ''|)&;'') (\<lambda>b.
    if b then ret (argv, rs)
    else
      kbind (gettoken buf) (\<lambda>(tok, w).
      if tok = TEnd then ret (argv, rs)
      else if tok \<noteq> TWord then panic ''syntax''
      else if length argv + 1 \<ge> MAXARGS then panic ''too many args''
      else
        kbind (parseredirs (length buf + 1) buf rs) (\<lambda>rs'.
        parseargs n buf (argv @ [w]) rs')))"

fun parseback :: "nat \<Rightarrow> string \<Rightarrow> cmd \<Rightarrow> (nat, cmd) kmon" where
  "parseback 0 buf c = stop Diverge"
| "parseback (Suc n) buf c =
    kbind (peek buf ''&'') (\<lambda>b.
    if b then kbind (gettoken buf) (\<lambda>_. parseback n buf (BACK c)) else ret c)"

fun parseline :: "nat \<Rightarrow> string \<Rightarrow> (nat, cmd) kmon"
  and parsepipe :: "nat \<Rightarrow> string \<Rightarrow> (nat, cmd) kmon"
  and parseexec :: "nat \<Rightarrow> string \<Rightarrow> (nat, cmd) kmon"
  and parseblock :: "nat \<Rightarrow> string \<Rightarrow> (nat, cmd) kmon" where
  "parseline 0 buf = stop Diverge"
| "parseline (Suc n) buf =
    kbind (parsepipe n buf) (\<lambda>c.
    kbind (parseback (length buf + 1) buf c) (\<lambda>c.
    kbind (peek buf '';'') (\<lambda>b.
    if b then
      kbind (gettoken buf) (\<lambda>_.
      kbind (parseline n buf) (\<lambda>c'. ret (LIST c c')))
    else ret c)))"
| "parsepipe 0 buf = stop Diverge"
| "parsepipe (Suc n) buf =
    kbind (parseexec n buf) (\<lambda>c.
    kbind (peek buf ''|'') (\<lambda>b.
    if b then
      kbind (gettoken buf) (\<lambda>_.
      kbind (parsepipe n buf) (\<lambda>c'. ret (PIPE c c')))
    else ret c))"
| "parseexec 0 buf = stop Diverge"
| "parseexec (Suc n) buf =
    kbind (peek buf ''('') (\<lambda>b.
    if b then parseblock n buf
    else
      kbind (parseredirs (length buf + 1) buf []) (\<lambda>rs.
      kbind (parseargs (length buf + 1) buf [] rs) (\<lambda>(argv, rs).
      ret (redircmds (EXEC argv) rs))))"
| "parseblock 0 buf = stop Diverge"
| "parseblock (Suc n) buf =
    kbind (peek buf ''('') (\<lambda>b.
    if \<not> b then panic ''parseblock''
    else
      kbind (gettoken buf) (\<lambda>_.
      kbind (parseline n buf) (\<lambda>c.
      kbind (peek buf '')'') (\<lambda>b.
      if \<not> b then panic ''syntax - missing )''
      else
        kbind (gettoken buf) (\<lambda>_.
        kbind (parseredirs (length buf + 1) buf []) (\<lambda>rs.
        ret (redircmds c rs)))))))"

declare parseredirs.simps(2) [simp del] parseargs.simps(2) [simp del] parseback.simps(2) [simp del]
declare parseline.simps(2) [simp del] parsepipe.simps(2) [simp del] parseexec.simps(2) [simp del]
  parseblock.simps(2) [simp del]

text \<open>
  \<^verbatim>\<open>nulterminate\<close> writes a NUL at the end of every counted string of the command.
\<close>

fun nulterminate :: "cmd \<Rightarrow> string \<Rightarrow> string" where
  "nulterminate (EXEC argv) buf = fold (\<lambda>(q, eq) b. b[eq := NUL]) argv buf"
| "nulterminate (REDIR c (q, eq) mode fd) buf = (nulterminate c buf)[eq := NUL]"
| "nulterminate (PIPE l r) buf = nulterminate r (nulterminate l buf)"
| "nulterminate (LIST l r) buf = nulterminate r (nulterminate l buf)"
| "nulterminate (BACK c) buf = nulterminate c buf"

definition parsecmd :: "string \<Rightarrow> stop + (cmd \<times> string)" where
  "parsecmd line =
    (let buf = takeWhile (\<lambda>c. c \<noteq> NUL) line in
     case kbind (parseline (4 * length buf + 4) buf) (\<lambda>c. kbind (peek buf '''') (\<lambda>_. ret c)) 0 of
       Inl e \<Rightarrow> Inl e
     | Inr (c, s) \<Rightarrow>
         if s \<noteq> length buf then Inl (Panic (''leftovers: '' @ drop s buf @ [NL] @ ''syntax''))
         else Inr (c, nulterminate c (buf @ [NUL])))"


section \<open>Running commands\<close>

text \<open>
  A user program is a script: it makes a system call and continues with its result, replaces itself
  by another program, or exits. \<^verbatim>\<open>pipe\<close> returns two descriptors, the other calls one number; a negative
  number is a failure. \<^verbatim>\<open>printf\<close> to descriptor 2 is a call without a result that matters.
\<close>

datatype sysc = Close nat | Open string nat | Dup nat | Pipe | Fork | Wait | Print string
  | Chdir string | Setuid uint | Setgid uint | Getuid | Getgid

datatype script = Exit | Exec string "string list" script | Call sysc "int list \<Rightarrow> script"

definition sh_panic :: "string \<Rightarrow> script" where
  "sh_panic msg = Call (Print (msg @ [NL])) (\<lambda>_. Exit)"

definition fork1 :: "script \<Rightarrow> script \<Rightarrow> script" where
  "fork1 child parent =
    Call Fork (\<lambda>r. if hd r = - 1 then sh_panic ''fork'' else if hd r = 0 then child else parent)"

fun runcmd :: "string gcmd \<Rightarrow> script" where
  "runcmd (EXEC argv) = (case argv of
      [] \<Rightarrow> Exit
    | path # _ \<Rightarrow> Exec path argv (Call (Print (''exec '' @ path @ '' failed'' @ [NL])) (\<lambda>_. Exit)))"
| "runcmd (REDIR c file mode fd) =
    Call (Close fd) (\<lambda>_.
    Call (Open file mode) (\<lambda>r.
    if hd r < 0 then Call (Print (''open '' @ file @ '' failed'' @ [NL])) (\<lambda>_. Exit) else runcmd c))"
| "runcmd (LIST l r) = fork1 (runcmd l) (Call Wait (\<lambda>_. runcmd r))"
| "runcmd (PIPE l r) =
    Call Pipe (\<lambda>p.
    if hd p < 0 then sh_panic ''pipe''
    else
      let p0 = nat (p ! 0); p1 = nat (p ! 1) in
      fork1
        (Call (Close 1) (\<lambda>_. Call (Dup p1) (\<lambda>_. Call (Close p0) (\<lambda>_. Call (Close p1) (\<lambda>_. runcmd l)))))
        (fork1
          (Call (Close 0) (\<lambda>_. Call (Dup p0) (\<lambda>_. Call (Close p0) (\<lambda>_. Call (Close p1) (\<lambda>_. runcmd r)))))
          (Call (Close p0) (\<lambda>_. Call (Close p1) (\<lambda>_. Call Wait (\<lambda>_. Call Wait (\<lambda>_. Exit)))))))"
| "runcmd (BACK c) = fork1 (runcmd c) Exit"

section \<open>Builtins and the main loop\<close>

fun strncmp_s :: "nat \<Rightarrow> string \<Rightarrow> string \<Rightarrow> int" where
  "strncmp_s 0 p q = 0"
| "strncmp_s (Suc n) p q =
    (let a = at p 0; b = at q 0 in
     if a \<noteq> NUL \<and> a = b then strncmp_s n (tl p) (tl q)
     else int (of_char a) - int (of_char b))"

definition chomp :: "string \<Rightarrow> string" where
  "chomp p = dropWhile (\<lambda>c. c = CHR '' '') p"

fun makeint_loop :: "uint \<Rightarrow> string \<Rightarrow> uint" where
  "makeint_loop val [] = val"
| "makeint_loop val (c # p) =
    (if of_char c \<ge> (48 :: nat) \<and> of_char c \<le> (57 :: nat)
     then makeint_loop (10 * val + (of_nat (of_char c) - 48)) p else val)"

definition makeint :: "string \<Rightarrow> uint" where
  "makeint p = makeint_loop 0 p"

definition setbuiltin :: "string \<Rightarrow> script \<Rightarrow> script" where
  "setbuiltin cmd k =
    (let p = chomp (drop 4 cmd) in
     if strncmp_s 3 ''uid'' p = 0 then Call (Setuid (makeint (chomp (drop 3 p)))) (\<lambda>_. k)
     else if strncmp_s 3 ''gid'' p = 0 then Call (Setgid (makeint (chomp (drop 3 p)))) (\<lambda>_. k)
     else Call (Print (''Invalid _set parameter'' @ [NL])) (\<lambda>_. k))"

definition getbuiltin :: "(int \<Rightarrow> string) \<Rightarrow> string \<Rightarrow> script \<Rightarrow> script" where
  "getbuiltin itoa cmd k =
    (let p = chomp (drop 4 cmd) in
     if strncmp_s 3 ''uid'' p = 0 then Call Getuid (\<lambda>r. Call (Print (itoa (hd r) @ [NL])) (\<lambda>_. k))
     else if strncmp_s 3 ''gid'' p = 0 then Call Getgid (\<lambda>r. Call (Print (itoa (hd r) @ [NL])) (\<lambda>_. k))
     else Call (Print (''Invalid _get parameter'' @ [NL])) (\<lambda>_. k))"

definition dobuiltin :: "(int \<Rightarrow> string) \<Rightarrow> string \<Rightarrow> script \<Rightarrow> script" where
  "dobuiltin itoa cmd k =
    (let k2 = (if strncmp_s 4 cmd ''_get'' = 0 then getbuiltin itoa cmd k else k)
     in if strncmp_s 4 cmd ''_set'' = 0 then setbuiltin cmd k2 else k2)"

text \<open>A C string in the line, and the command tree with its words read from the line.\<close>

definition cstring :: "string \<Rightarrow> nat \<Rightarrow> string" where
  "cstring buf q = takeWhile (\<lambda>c. c \<noteq> NUL) (drop q buf)"

definition resolve :: "string \<Rightarrow> cmd \<Rightarrow> string gcmd" where
  "resolve buf = map_gcmd (\<lambda>w. cstring buf (fst w))"

text \<open>One line of input: change directory, run a builtin, or fork and run the parsed command.\<close>

definition sh_line :: "(int \<Rightarrow> string) \<Rightarrow> string \<Rightarrow> script \<Rightarrow> script" where
  "sh_line itoa buf k =
    (if at buf 0 = CHR ''c'' \<and> at buf 1 = CHR ''d'' \<and> at buf 2 = CHR '' '' then
       let dir = drop 3 (butlast buf) in
       Call (Chdir dir) (\<lambda>r. if hd r < 0 then Call (Print (''cannot cd '' @ dir @ [NL])) (\<lambda>_. k) else k)
     else if at buf 0 = CHR ''_'' then dobuiltin itoa buf k
     else fork1
       (case parsecmd buf of Inl (Panic msg) \<Rightarrow> sh_panic msg | Inl _ \<Rightarrow> Exit
          | Inr (c, buf') \<Rightarrow> runcmd (resolve buf' c))
       (Call Wait (\<lambda>_. k)))"

text \<open>
  \<^verbatim>\<open>gets\<close> of \<^verbatim>\<open>ulib.c\<close> reads up to and including an end of line, at most \<^verbatim>\<open>max - 1\<close> characters.
\<close>

fun gets_loop :: "nat \<Rightarrow> string \<Rightarrow> string \<times> string" where
  "gets_loop 0 inp = ([], inp)"
| "gets_loop (Suc n) [] = ([], [])"
| "gets_loop (Suc n) (c # inp) =
    (if c = CHR 0x0A \<or> c = CHR 0x0D then ([c], inp)
     else let (s, r) = gets_loop n inp in (c # s, r))"

definition gets_s :: "nat \<Rightarrow> string \<Rightarrow> string \<times> string" where
  "gets_s mx inp = gets_loop (mx - 1) inp"

lemma gets_loop_append: "gets_loop n inp = (s, r) \<Longrightarrow> inp = s @ r"
  by (induction n inp arbitrary: s rule: gets_loop.induct) (auto split: if_splits prod.splits)

text \<open>
  \<^verbatim>\<open>main\<close> first opens the console until descriptors 0, 1 and 2 are taken. Every successful round takes
  another of the \<open>NOFILE = 16\<close> descriptors, so seventeen rounds are never exceeded.
\<close>

fun open_console :: "nat \<Rightarrow> script \<Rightarrow> script" where
  "open_console 0 k = k"
| "open_console (Suc n) k =
    Call (Open ''console'' O_RDWR) (\<lambda>r.
    if hd r < 0 then k
    else if hd r \<ge> 3 then Call (Close (nat (hd r))) (\<lambda>_. k)
    else open_console n k)"

function sh_loop :: "(int \<Rightarrow> string) \<Rightarrow> string \<Rightarrow> script" where
  "sh_loop itoa inp =
    (let (b, rest) = gets_s 100 inp; buf = takeWhile (\<lambda>c. c \<noteq> NUL) b in
     Call (Print ''$ '') (\<lambda>_.
     if buf = [] then Exit else sh_line itoa buf (sh_loop itoa rest)))"
  by auto
termination
proof (relation "measure (\<lambda>(itoa, inp). length inp)")
  fix itoa :: "int \<Rightarrow> string" and inp x b rest buf
  assume "x = gets_s 100 inp" "(b, rest) = x" "buf = takeWhile (\<lambda>c. c \<noteq> NUL) b" "buf \<noteq> []"
  then show "((itoa, rest), (itoa, inp)) \<in> measure (\<lambda>(itoa, inp). length inp)"
    using gets_loop_append[of 99 inp b rest] by (cases b) (auto simp: gets_s_def)
qed simp

definition sh_main :: "(int \<Rightarrow> string) \<Rightarrow> string \<Rightarrow> script" where
  "sh_main itoa inp = open_console 17 (sh_loop itoa inp)"

section \<open>The scanner always advances\<close>

lemma skip_while_bounds: "p \<le> length buf \<Longrightarrow> p \<le> skip_while P buf p \<and> skip_while P buf p \<le> length buf"
proof (induction P buf p rule: skip_while.induct)
  case (1 P buf s)
  then show ?case
    by (cases "s < length buf \<and> P (buf ! s)") (auto simp: skip_while.simps[of P buf s])
qed

lemma skip_while_stop: "skip_while P buf p < length buf \<Longrightarrow> \<not> P (buf ! skip_while P buf p)"
proof (induction P buf p rule: skip_while.induct)
  case (1 P buf s)
  then show ?case
    by (cases "s < length buf \<and> P (buf ! s)") (auto simp: skip_while.simps[of P buf s])
qed

lemma skip_while_all: "p \<le> i \<Longrightarrow> i < skip_while P buf p \<Longrightarrow> P (buf ! i)"
proof (induction P buf p rule: skip_while.induct)
  case (1 P buf s)
  then show ?case by (cases "i = s") (auto simp: skip_while.simps[of P buf s] split: if_splits)
qed


definition word_char :: "char \<Rightarrow> bool" where
  "word_char c \<longleftrightarrow> c \<noteq> NUL \<and> \<not> strchr whitespace c \<and> \<not> strchr symbols c"

text \<open>A counted string of the line: not empty, made of word characters and maximal to the right.\<close>

definition good_word :: "string \<Rightarrow> word_ref \<Rightarrow> bool" where
  "good_word buf w \<longleftrightarrow> fst w < snd w \<and> snd w \<le> length buf \<and>
    (\<forall>i. fst w \<le> i \<longrightarrow> i < snd w \<longrightarrow> word_char (buf ! i)) \<and> \<not> word_char (at buf (snd w))"

text \<open>
  \<open>pspec buf m p d P\<close>: run at index \<open>p\<close>, \<open>m\<close> does not run out of its bound; it panics or returns a
  value with \<open>P\<close> at an index at least \<open>d\<close> further on and inside the line.
\<close>

definition pspec :: "string \<Rightarrow> (nat, 'a) kmon \<Rightarrow> nat \<Rightarrow> nat \<Rightarrow> ('a \<Rightarrow> bool) \<Rightarrow> bool" where
  "pspec buf m p d P \<longleftrightarrow> (case m p of Inl e \<Rightarrow> e \<noteq> Diverge
    | Inr (x, p') \<Rightarrow> p + d \<le> p' \<and> p' \<le> length buf \<and> P x)"

lemma pspec_bind:
  assumes "pspec buf m p d P"
    and "\<And>x p'. P x \<Longrightarrow> p + d \<le> p' \<Longrightarrow> p' \<le> length buf \<Longrightarrow> pspec buf (f x) p' 0 Q"
  shows "pspec buf (kbind m f) p d Q"
proof (cases "m p")
  case (Inl e)
  then show ?thesis using assms(1) by (simp add: pspec_def kbind_def)
next
  case (Inr r)
  then obtain x p' where r: "m p = Inr (x, p')" by (cases r) auto
  then have "P x" "p + d \<le> p'" "p' \<le> length buf" using assms(1) by (auto simp: pspec_def)
  then have "pspec buf (f x) p' 0 Q" "p + d \<le> p'" using assms(2) by blast+
  then show ?thesis using r by (auto simp: pspec_def kbind_def split: sum.splits)
qed

lemma pspec_ret: "p \<le> length buf \<Longrightarrow> P x \<Longrightarrow> pspec buf (ret x) p 0 P"
  by (simp add: pspec_def ret_def)

lemma pspec_panic: "pspec buf (panic msg) p d P"
  by (simp add: pspec_def stop_def)

lemma pspec_mono: "pspec buf m p d P \<Longrightarrow> d' \<le> d \<Longrightarrow> (\<And>x. P x \<Longrightarrow> Q x) \<Longrightarrow> pspec buf m p d' Q"
  by (fastforce simp: pspec_def split: sum.splits)

lemma pspec_peek: "p \<le> length buf \<Longrightarrow> pspec buf (peek buf toks) p 0 (\<lambda>_. True)"
  using skip_while_bounds[of p buf "strchr whitespace"] by (simp add: pspec_def peek_def Let_def)

lemma scan_bounds:
  assumes "s \<le> length buf" "NUL \<notin> set buf" "s < length buf \<Longrightarrow> \<not> strchr whitespace (buf ! s)"
    "scan buf s = (t, e)"
  shows "s \<le> e" "e \<le> length buf" "t = TEnd \<longleftrightarrow> s = length buf" "t \<noteq> TEnd \<Longrightarrow> s < e"
    "t = TWord \<Longrightarrow> good_word buf (s, e)"
proof -
  let ?P = "\<lambda>c. \<not> strchr whitespace c \<and> \<not> strchr symbols c"
  have nul: "i < length buf \<Longrightarrow> buf ! i \<noteq> NUL" for i using assms(2) nth_mem by metis
  have at: "at buf s = NUL \<longleftrightarrow> s = length buf" using nul[of s] assms(1) by (auto simp: at_def)
  have "s \<le> e \<and> e \<le> length buf \<and> (t = TEnd \<longleftrightarrow> s = length buf) \<and> (t \<noteq> TEnd \<longrightarrow> s < e) \<and>
    (t = TWord \<longrightarrow> good_word buf (s, e))"
  proof (cases "t = TWord")
    case False
    then show ?thesis using assms(1,4) at
      by (auto simp: scan_def Let_def at_def split: if_splits)
  next
    case True
    have e: "e = skip_while ?P buf s" and s: "s < length buf" and sy: "\<not> strchr symbols (buf ! s)"
      using assms(1,4) at True by (auto simp: scan_def Let_def at_def strchr_def symbols_def split: if_splits)
    have "e = skip_while ?P buf (Suc s)" using e s sy assms(3) by (simp add: skip_while.simps[of _ buf s])
    then have lt: "s < e" "e \<le> length buf" using skip_while_bounds[of "Suc s" buf ?P] s by auto
    have "word_char (buf ! i)" if "s \<le> i" "i < e" for i
      using skip_while_all[of s i ?P buf] that e nul[of i] lt(2) by (simp add: word_char_def)
    moreover have "\<not> word_char (at buf e)"
      using skip_while_stop[of ?P buf s] e lt(2) by (auto simp: word_char_def at_def)
    ultimately show ?thesis using lt s True by (auto simp: good_word_def)
  qed
  then show "s \<le> e" "e \<le> length buf" "t = TEnd \<longleftrightarrow> s = length buf" "t \<noteq> TEnd \<Longrightarrow> s < e"
    "t = TWord \<Longrightarrow> good_word buf (s, e)" by blast+
qed

lemma pspec_gettoken:
  assumes "p \<le> length buf" "NUL \<notin> set buf"
  shows "pspec buf (gettoken buf) p 0 (\<lambda>(t, w). t = TWord \<longrightarrow> good_word buf w)"
    and "skip_while (strchr whitespace) buf p < length buf \<Longrightarrow>
      pspec buf (gettoken buf) p 1 (\<lambda>(t, w). t \<noteq> TEnd \<and> (t = TWord \<longrightarrow> good_word buf w))"
    and "skip_while (strchr whitespace) buf p = length buf \<Longrightarrow>
      pspec buf (gettoken buf) p 0 (\<lambda>(t, w). t = TEnd)"
proof -
  let ?q = "skip_while (strchr whitespace) buf p"
  have q: "p \<le> ?q" "?q \<le> length buf" using skip_while_bounds[OF assms(1)] by auto
  obtain t e where sc: "scan buf ?q = (t, e)" by fastforce
  note b = scan_bounds[OF q(2) assms(2) skip_while_stop[of "strchr whitespace" buf p] sc]
  have e: "e \<le> skip_while (strchr whitespace) buf e" "skip_while (strchr whitespace) buf e \<le> length buf"
    using skip_while_bounds[OF b(2)] by auto
  show "pspec buf (gettoken buf) p 0 (\<lambda>(t, w). t = TWord \<longrightarrow> good_word buf w)"
    using q b e by (auto simp: pspec_def gettoken_def sc Let_def)
  show "pspec buf (gettoken buf) p 1 (\<lambda>(t, w). t \<noteq> TEnd \<and> (t = TWord \<longrightarrow> good_word buf w))"
    if "?q < length buf" using that q b e by (auto simp: pspec_def gettoken_def sc Let_def)
  show "pspec buf (gettoken buf) p 0 (\<lambda>(t, w). t = TEnd)" if "?q = length buf"
    using that q b e sc by (auto simp: pspec_def gettoken_def Let_def)
qed


lemma peek_cases:
  assumes "p \<le> length buf"
  obtains p' where "peek buf toks p = Inr (False, p')" "p \<le> p'" "p' \<le> length buf"
    "skip_while (strchr whitespace) buf p' = p'"
  | p' where "peek buf toks p = Inr (True, p')" "p \<le> p'" "p' < length buf"
    "skip_while (strchr whitespace) buf p' = p'" "strchr toks (buf ! p')"
proof -
  let ?q = "skip_while (strchr whitespace) buf p"
  have q: "p \<le> ?q" "?q \<le> length buf" using skip_while_bounds[OF assms] by auto
  have "skip_while (strchr whitespace) buf ?q = ?q"
    using skip_while_stop[of "strchr whitespace" buf p] by (subst skip_while.simps) auto
  moreover have "?q < length buf \<and> at buf ?q = buf ! ?q" if "at buf ?q \<noteq> NUL"
    using that by (auto simp: at_def split: if_splits)
  ultimately show thesis using that q
    by (cases "at buf ?q \<noteq> NUL \<and> strchr toks (at buf ?q)") (auto simp: peek_def Let_def)
qed

lemma pspec_if_peek:
  assumes "p \<le> length buf"
    and "\<And>p'. p \<le> p' \<Longrightarrow> p' \<le> length buf \<Longrightarrow> pspec buf (f False) p' 0 P"
    and "\<And>p'. p \<le> p' \<Longrightarrow> p' < length buf \<Longrightarrow> skip_while (strchr whitespace) buf p' = p' \<Longrightarrow>
      pspec buf (f True) p' 0 P"
  shows "pspec buf (kbind (peek buf toks) f) p 0 P"
proof (rule peek_cases[OF assms(1), of toks])
  fix p' assume a: "peek buf toks p = Inr (False, p')" "p \<le> p'" "p' \<le> length buf"
  show ?thesis using assms(2)[OF a(2,3)] a by (auto simp: pspec_def kbind_def split: sum.splits)
next
  fix p' assume a: "peek buf toks p = Inr (True, p')" "p \<le> p'" "p' < length buf"
    "skip_while (strchr whitespace) buf p' = p'"
  show ?thesis using assms(3)[OF a(2,3,4)] a by (auto simp: pspec_def kbind_def split: sum.splits)
qed

lemma pspec_token:
  assumes "NUL \<notin> set buf" "p < length buf" "skip_while (strchr whitespace) buf p = p"
    and "\<And>t w p'. t \<noteq> TEnd \<Longrightarrow> (t = TWord \<Longrightarrow> good_word buf w) \<Longrightarrow> p < p' \<Longrightarrow> p' \<le> length buf \<Longrightarrow>
      pspec buf (f (t, w)) p' 0 P"
  shows "pspec buf (kbind (gettoken buf) f) p 0 P"
proof (rule pspec_mono[where d = 1, OF pspec_bind])
  show "pspec buf (gettoken buf) p 1 (\<lambda>(t, w). t \<noteq> TEnd \<and> (t = TWord \<longrightarrow> good_word buf w))"
    using assms(1-3) by (intro pspec_gettoken(2)) auto
  show "pspec buf (f x) p' 0 P"
    if "case x of (t, w) \<Rightarrow> t \<noteq> TEnd \<and> (t = TWord \<longrightarrow> good_word buf w)" "p + 1 \<le> p'" "p' \<le> length buf"
    for x p' using that assms(4)[of "fst x" "snd x" p'] by (cases x) auto
qed auto

lemma pspec_token_any:
  assumes "NUL \<notin> set buf" "p \<le> length buf"
    and "\<And>t w p'. (t = TWord \<Longrightarrow> good_word buf w) \<Longrightarrow> (t \<noteq> TEnd \<Longrightarrow> p < p') \<Longrightarrow> p \<le> p' \<Longrightarrow> p' \<le> length buf \<Longrightarrow>
      pspec buf (f (t, w)) p' 0 P"
  shows "pspec buf (kbind (gettoken buf) f) p 0 P"
proof (cases "skip_while (strchr whitespace) buf p < length buf")
  case True
  show ?thesis
  proof (rule pspec_mono[where d = 1, OF pspec_bind[OF pspec_gettoken(2)[OF assms(2,1) True]]])
    show "pspec buf (f x) p' 0 P"
      if "case x of (t, w) \<Rightarrow> t \<noteq> TEnd \<and> (t = TWord \<longrightarrow> good_word buf w)" "p + 1 \<le> p'" "p' \<le> length buf"
      for x p' using that assms(3)[of "fst x" "snd x" p'] by (cases x) auto
  qed auto
next
  case False
  then have "skip_while (strchr whitespace) buf p = length buf" using skip_while_bounds[OF assms(2)]
    by (simp add: order.antisym)
  from pspec_gettoken(3)[OF assms(2,1) this] show ?thesis
  proof (rule pspec_bind)
    show "pspec buf (f x) p' 0 P"
      if "case x of (t, w) \<Rightarrow> t = TEnd" "p + 0 \<le> p'" "p' \<le> length buf"
      for x p' using that assms(3)[of "fst x" "snd x" p'] by (cases x) auto
  qed
qed

abbreviation good_redirs :: "string \<Rightarrow> redir list \<Rightarrow> bool" where
  "good_redirs buf rs \<equiv> \<forall>r \<in> set rs. good_word buf (fst r)"

lemma pspec_parseredirs:
  assumes "NUL \<notin> set buf" "p \<le> length buf" "length buf - p < n" "good_redirs buf rs"
  shows "pspec buf (parseredirs n buf rs) p 0 (good_redirs buf)"
  using assms(2-)
proof (induction n arbitrary: p rs)
  case (Suc n)
  show ?case unfolding parseredirs.simps
  proof (rule pspec_if_peek[OF Suc.prems(1)], goal_cases)
    case (1 p')
    then show ?case using Suc.prems by (simp add: pspec_ret)
  next
    case (2 p')
    show ?case
      apply (simp only: not_True_eq_False if_False)
      apply (rule pspec_token[OF assms(1) 2(2,3)], simp only: prod.case)
      apply (rule pspec_token_any[OF assms(1)], assumption, simp only: prod.case)
      apply (use 2 Suc.prems in \<open>auto simp: pspec_panic intro!: Suc.IH\<close>)
      done
  qed
qed simp

lemma pspec_parseargs:
  assumes "NUL \<notin> set buf" "p \<le> length buf" "length buf - p < n"
    "\<forall>w \<in> set argv. good_word buf w" "length argv < MAXARGS" "good_redirs buf rs"
  shows "pspec buf (parseargs n buf argv rs) p 0
    (\<lambda>(av, rs'). (\<forall>w \<in> set av. good_word buf w) \<and> length av < MAXARGS \<and> good_redirs buf rs')"
  using assms(2-)
proof (induction n arbitrary: p argv rs)
  case (Suc n)
  show ?case unfolding parseargs.simps
  proof (rule pspec_if_peek[OF Suc.prems(1)], goal_cases)
    case (1 p')
    show ?case
      apply (simp only: if_False)
      apply (rule pspec_token_any[OF assms(1) 1(2)], simp only: prod.case)
      subgoal for t w p''
        apply (cases "t = TWord \<and> length argv + 1 < MAXARGS")
         apply simp
         apply (rule pspec_bind[OF pspec_parseredirs[OF assms(1)]])
            apply (use 1 Suc.prems in \<open>auto simp: pspec_panic pspec_ret intro!: Suc.IH\<close>)
        done
      done
  next
    case (2 p')
    then show ?case using Suc.prems by (simp add: pspec_ret)
  qed
qed simp

lemma pspec_parseback:
  assumes "NUL \<notin> set buf" "p \<le> length buf" "length buf - p < n" "P c" "\<And>c. P c \<Longrightarrow> P (BACK c)"
  shows "pspec buf (parseback n buf c) p 0 P"
  using assms(2-4)
proof (induction n arbitrary: p c)
  case (Suc n)
  show ?case unfolding parseback.simps
  proof (rule pspec_if_peek[OF Suc.prems(1)], goal_cases)
    case (1 p')
    then show ?case using Suc.prems by (simp add: pspec_ret)
  next
    case (2 p')
    show ?case
      apply (simp only: if_True)
      apply (rule pspec_token[OF assms(1) 2(2,3)])
      apply (use 2 Suc.prems assms(5) in \<open>auto intro!: Suc.IH\<close>)
      done
  qed
qed simp


fun words :: "'w gcmd \<Rightarrow> 'w list" where
  "words (EXEC argv) = argv"
| "words (REDIR c w mode fd) = words c @ [w]"
| "words (PIPE l r) = words l @ words r"
| "words (LIST l r) = words l @ words r"
| "words (BACK c) = words c"

fun args_ok :: "'w gcmd \<Rightarrow> bool" where
  "args_ok (EXEC argv) = (length argv < MAXARGS)"
| "args_ok (REDIR c w mode fd) = args_ok c"
| "args_ok (PIPE l r) = (args_ok l \<and> args_ok r)"
| "args_ok (LIST l r) = (args_ok l \<and> args_ok r)"
| "args_ok (BACK c) = args_ok c"

definition good_cmd :: "string \<Rightarrow> cmd \<Rightarrow> bool" where
  "good_cmd buf c \<longleftrightarrow> (\<forall>w \<in> set (words c). good_word buf w) \<and> args_ok c"

lemma good_redircmds: "good_cmd buf c \<Longrightarrow> good_redirs buf rs \<Longrightarrow> good_cmd buf (redircmds c rs)"
proof (induction rs arbitrary: c)
  case (Cons r rs)
  obtain w m fd where r: "r = (w, m, fd)" by (cases r) auto
  then have "good_cmd buf (REDIR c w m fd)" using Cons.prems by (auto simp: good_cmd_def)
  then show ?case using Cons r by (simp add: redircmds_def)
qed (simp add: redircmds_def)

lemma pspec_parsers:
  assumes nul: "NUL \<notin> set buf" and "p \<le> length buf"
  shows "4 * (length buf - p) + 4 \<le> n \<Longrightarrow> pspec buf (parseline n buf) p 0 (good_cmd buf)"
    and "4 * (length buf - p) + 3 \<le> n \<Longrightarrow> pspec buf (parsepipe n buf) p 0 (good_cmd buf)"
    and "4 * (length buf - p) + 2 \<le> n \<Longrightarrow> pspec buf (parseexec n buf) p 0 (good_cmd buf)"
    and "4 * (length buf - p) + 1 \<le> n \<Longrightarrow> pspec buf (parseblock n buf) p 0 (good_cmd buf)"
  using assms(2)
proof (induction n arbitrary: p)
  case (Suc n)
  note IH = Suc.IH
  {
    case 1
    show ?case unfolding parseline.simps
      apply (rule pspec_bind[OF IH(2)])
        apply (use 1 in \<open>simp_all\<close>)
      apply (rule pspec_bind[OF pspec_parseback[OF nul, where P = "good_cmd buf"]])
           apply (simp_all add: good_cmd_def)
      apply (fold good_cmd_def)
      apply (rule pspec_if_peek)
        apply (simp_all add: pspec_ret)
      apply (rule pspec_token[OF nul])
         apply simp_all
      apply (rule pspec_bind[OF IH(1)])
        apply (auto intro!: pspec_ret simp: good_cmd_def)
      done
  next
    case 2
    show ?case unfolding parsepipe.simps
      apply (rule pspec_bind[OF IH(3)])
        apply (use 2 in \<open>simp_all\<close>)
      apply (rule pspec_if_peek)
        apply (simp_all add: pspec_ret)
      apply (rule pspec_token[OF nul])
         apply simp_all
      apply (rule pspec_bind[OF IH(2)])
        apply (auto intro!: pspec_ret simp: good_cmd_def)
      done
  next
    case 3
    show ?case unfolding parseexec.simps
      apply (rule pspec_if_peek)
        apply (use 3 in \<open>simp_all\<close>)
       apply (rule pspec_bind[OF pspec_parseredirs[OF nul]])
          apply simp_all
       apply (rule pspec_bind[OF pspec_parseargs[OF nul]])
            apply (auto simp: layout intro!: pspec_ret good_redircmds simp: good_cmd_def)[6]
      apply (rule IH(4))
       apply simp_all
      done
  next
    case 4
    show ?case unfolding parseblock.simps
      apply (rule pspec_if_peek)
        apply (use 4 in \<open>simp_all add: pspec_panic\<close>)
      apply (rule pspec_token[OF nul])
         apply simp_all
      apply (rule pspec_bind[OF IH(1)])
        apply simp_all
      apply (rule pspec_if_peek)
        apply (simp_all add: pspec_panic)
      apply (rule pspec_token[OF nul])
         apply simp_all
      apply (rule pspec_bind[OF pspec_parseredirs[OF nul]])
         apply (auto intro!: pspec_ret good_redircmds)
      done
  }
qed simp_all

section \<open>What a parsed line means\<close>

lemma fold_nul_nth:
  "i < length b \<Longrightarrow> fold (\<lambda>(q, eq) b. b[eq := NUL]) ws b ! i = (if i \<in> snd ` set ws then NUL else b ! i)"
proof (induction ws arbitrary: b)
  case (Cons w ws)
  then show ?case by (cases w) (simp add: nth_list_update)
qed simp

lemma fold_nul_length [simp]: "length (fold (\<lambda>(q, eq) b. b[eq := NUL]) ws b) = length b"
  by (induction ws arbitrary: b) auto

lemma nulterminate_fold: "nulterminate c b = fold (\<lambda>(q, eq) b. b[eq := NUL]) (words c) b"
  by (induction c b rule: nulterminate.induct) auto

lemma takeWhile_slice:
  assumes "q \<le> e" "e < length b" "b ! e = NUL" "\<And>i. q \<le> i \<Longrightarrow> i < e \<Longrightarrow> b ! i \<noteq> NUL"
  shows "takeWhile (\<lambda>c. c \<noteq> NUL) (drop q b) = take (e - q) (drop q b)"
  by (rule takeWhile_eq_take_P_nth) (use assms in \<open>auto simp: less_diff_conv add.commute\<close>)

lemma cstring_nulterminate:
  assumes good: "\<forall>w \<in> set ws. good_word buf w" and w: "(q, e) \<in> set ws"
  shows "cstring (fold (\<lambda>(q, eq) b. b[eq := NUL]) ws (buf @ [NUL])) q = take (e - q) (drop q buf)"
proof -
  let ?b = "fold (\<lambda>(q, eq) b. b[eq := NUL]) ws (buf @ [NUL])"
  have g: "q < e" "e \<le> length buf" "\<And>i. q \<le> i \<Longrightarrow> i < e \<Longrightarrow> word_char (buf ! i)"
    using good w by (auto simp: good_word_def)
  have keep: "?b ! i = buf ! i" if "q \<le> i" "i < e" for i
  proof -
    have "i \<notin> snd ` set ws"
    proof
      assume "i \<in> snd ` set ws"
      then have "\<not> word_char (at buf i)" using good by (auto simp: good_word_def)
      then show False using g(2,3) that by (simp add: at_def)
    qed
    then show ?thesis using that g by (simp add: fold_nul_nth nth_append)
  qed
  have "cstring ?b q = take (e - q) (drop q ?b)" unfolding cstring_def
  proof (rule takeWhile_slice)
    show "?b ! e = NUL" using w g by (force simp: fold_nul_nth)
    show "?b ! i \<noteq> NUL" if "q \<le> i" "i < e" for i using keep[OF that] g(3)[OF that] by (auto simp: word_char_def)
  qed (use g in auto)
  also have "\<dots> = take (e - q) (drop q buf)"
    by (rule nth_equalityI) (use g keep in auto)
  finally show ?thesis .
qed

abbreviation line_of :: "string \<Rightarrow> string" where
  "line_of line \<equiv> takeWhile (\<lambda>c. c \<noteq> NUL) line"

lemma line_of_no_nul: "NUL \<notin> set (line_of line)"
  using set_takeWhileD by fastforce

lemma pspec_parsecmd:
  "pspec (line_of line) (kbind (parseline (4 * length (line_of line) + 4) (line_of line))
    (\<lambda>c. kbind (peek (line_of line) '''') (\<lambda>_. ret c))) 0 0 (good_cmd (line_of line))"
  by (intro pspec_bind[OF pspec_parsers(1)[OF line_of_no_nul]] pspec_bind[OF pspec_peek] pspec_ret) auto

text \<open>
  C34. Parsing a line always ends: the fuel of the recursive descent, four levels per character and
  four more, is enough for every input line, so \<^verbatim>\<open>parsecmd\<close> returns a command or panics with a
  syntax error.
\<close>

theorem parsecmd_terminates: "parsecmd line \<noteq> Inl Diverge"
  using pspec_parsecmd[of line] by (auto simp: parsecmd_def pspec_def Let_def split: sum.splits)

text \<open>
  C33. Every word of a parsed command is intact after \<^verbatim>\<open>nulterminate\<close> has written NULs into the
  line: the C string at the word's start is exactly the slice of the line the scanner delimited, it
  is not empty and has neither white space nor symbols; no \<^verbatim>\<open>execcmd\<close> has more arguments than its
  array holds with the terminating 0.
\<close>

theorem parsecmd_words:
  assumes "parsecmd line = Inr (c, buf')"
  shows "args_ok c \<and> (\<forall>(q, eq) \<in> set (words c). q < eq \<and> eq \<le> length (line_of line) \<and>
    cstring buf' q = take (eq - q) (drop q (line_of line)) \<and>
    (\<forall>i. q \<le> i \<and> i < eq \<longrightarrow> word_char (line ! i)))"
proof -
  have g: "good_cmd (line_of line) c" and b: "buf' = nulterminate c (line_of line @ [NUL])"
    using assms pspec_parsecmd[of line] by (auto simp: parsecmd_def pspec_def Let_def split: sum.splits if_splits)
  have "q < eq \<and> eq \<le> length (line_of line) \<and> cstring buf' q = take (eq - q) (drop q (line_of line)) \<and>
      (\<forall>i. q \<le> i \<and> i < eq \<longrightarrow> word_char (line ! i))" if w: "(q, eq) \<in> set (words c)" for q eq
  proof -
    have gw: "good_word (line_of line) (q, eq)" using g w by (auto simp: good_cmd_def)
    have "line_of line ! i = line ! i" if "i < length (line_of line)" for i
      using that by (rule takeWhile_nth)
    then show ?thesis using gw cstring_nulterminate[of "words c" "line_of line" q eq] g w
      by (auto simp: good_word_def good_cmd_def b nulterminate_fold)
  qed
  then show ?thesis using g by (auto simp: good_cmd_def)
qed

theorem parsecmd_words_witness:
  "parsecmd ''ls -l>f'' =
      Inr (REDIR (EXEC [(0, 2), (3, 5)]) (6, 7) 513 1, ''ls'' @ [NUL] @ ''-l'' @ [NUL] @ ''f'' @ [NUL]) \<and>
    args_ok (REDIR (EXEC [(0, 2), (3, 5)]) (6 :: nat, 7 :: nat) 513 1)"
proof -
  have *: "parsecmd ''ls -l>f'' =
    Inr (REDIR (EXEC [(0, 2), (3, 5)]) (6, 7) 513 1, ''ls'' @ [NUL] @ ''-l'' @ [NUL] @ ''f'' @ [NUL])"
    by code_simp
  show ?thesis using parsecmd_words[OF *] * by blast
qed

end
