(* ===== verification/Grep.thy ===== *)
theory Grep
  imports Shell
begin

text \<open>
  \<^verbatim>\<open>grep.c\<close>: the regular expression matcher and the loop that reads lines. C strings are character
  lists without their terminating NUL. The matcher is compared with the language of the pattern as a
  regular expression.

  The input of a descriptor is a list of pieces: a call of \<^verbatim>\<open>read\<close> returns at most the bytes asked for, and
  never bytes of two pieces, as a pipe does between two writes or a console between two lines.
\<close>

section \<open>The program\<close>

function (sequential) matchhere :: "string \<Rightarrow> string \<Rightarrow> bool"
  and matchstar :: "char \<Rightarrow> string \<Rightarrow> string \<Rightarrow> bool" where
  "matchhere re text =
    (case re of
       [] \<Rightarrow> True
     | c # re1 \<Rightarrow>
         if re1 \<noteq> [] \<and> hd re1 = CHR ''*'' then matchstar c (tl re1) text
         else if c = CHR ''$'' \<and> re1 = [] then text = []
         else (case text of [] \<Rightarrow> False | x # text1 \<Rightarrow> (c = CHR ''.'' \<or> c = x) \<and> matchhere re1 text1))"
| "matchstar c re text =
    (matchhere re text \<or> (case text of [] \<Rightarrow> False | x # text1 \<Rightarrow> (x = c \<or> c = CHR ''.'') \<and> matchstar c re text1))"
  by pat_completeness auto
termination
  by (relation "measure (\<lambda>x. case x of Inl (re, text) \<Rightarrow> 2 * (length re + length text)
      | Inr (c, re, text) \<Rightarrow> 2 * (length re + length text) + 1)") (auto split: list.splits)

declare matchhere.simps [simp del] matchstar.simps [simp del]

fun match_from :: "string \<Rightarrow> string \<Rightarrow> bool" where
  "match_from re [] = matchhere re []"
| "match_from re (x # text) = (matchhere re (x # text) \<or> match_from re text)"

definition match :: "string \<Rightarrow> string \<Rightarrow> bool" where
  "match re text = (if re \<noteq> [] \<and> hd re = CHR ''^'' then matchhere (tl re) text else match_from re text)"

definition GBUF :: nat where [layout]: "GBUF = 1024"

text \<open>
  The inner loop of \<open>grep\<close> on the bytes of the buffer from \<open>p\<close> on: the lines it writes, and the bytes that are left
  when there is no further newline before the end of the string.
\<close>

function grep_lines :: "string \<Rightarrow> string \<Rightarrow> string list \<times> string" where
  "grep_lines re p =
    (let l = takeWhile (\<lambda>c. c \<noteq> NL \<and> c \<noteq> NUL) p in
     if length l < length p \<and> p ! length l = NL then
       let (out, rest) = grep_lines re (drop (length l + 1) p) in
       (if match re l then (l @ [NL]) # out else out, rest)
     else ([], p))"
  by auto
termination
  by (relation "measure (\<lambda>(re, p). length p)") auto

declare grep_lines.simps [simp del]

function grep_loop :: "string \<Rightarrow> string \<Rightarrow> string list \<Rightarrow> string list" where
  "grep_loop re carry [] = []"
| "grep_loop re carry (piece # pieces) =
    (let k = GBUF - length carry - 1; buf = carry @ take k piece in
     if take k piece = [] then []
     else
       let (out, p) = grep_lines re buf;
         pending = (if drop k piece = [] then pieces else drop k piece # pieces) in
       out @ grep_loop re (if length p = length buf then [] else p) pending)"
  by pat_completeness auto
termination
  by (relation "measure (\<lambda>(re, carry, pieces). length pieces + length (concat pieces))") auto

declare grep_loop.simps(2) [simp del]

definition grep :: "string \<Rightarrow> string list \<Rightarrow> string list" where
  "grep re pieces = grep_loop re [] pieces"

text \<open>
  \<open>main\<close>: the writes with their descriptors, given what \<^verbatim>\<open>open\<close> finds under each name and the pieces of descriptor 0.
\<close>

fun grep_files :: "(string \<Rightarrow> string list option) \<Rightarrow> string \<Rightarrow> string list \<Rightarrow> (nat \<times> string) list" where
  "grep_files opn pattern [] = []"
| "grep_files opn pattern (f # fs) =
    (case opn f of
       None \<Rightarrow> [(1, ''grep: cannot open '' @ f @ [NL])]
     | Some pieces \<Rightarrow> map (Pair 1) (grep pattern pieces) @ grep_files opn pattern fs)"

definition grep_main :: "(string \<Rightarrow> string list option) \<Rightarrow> string list \<Rightarrow> string list \<Rightarrow> (nat \<times> string) list" where
  "grep_main opn stdin argv =
    (if length argv \<le> 1 then [(2, ''usage: grep pattern [file ...]'' @ [NL])]
     else
       let pattern = argv ! 1 in
       if length argv \<le> 2 then map (Pair 1) (grep pattern stdin) else grep_files opn pattern (drop 2 argv))"

section \<open>Patterns as regular expressions\<close>

text \<open>
  A pattern is a list of items, each one character or any number of characters of a kind, and an
  optional anchor at the end.
\<close>

datatype item = One char | Many char

definition accepts :: "char \<Rightarrow> char \<Rightarrow> bool" where
  "accepts c x \<longleftrightarrow> c = CHR ''.'' \<or> c = x"

fun items :: "string \<Rightarrow> item list \<times> bool" where
  "items [] = ([], False)"
| "items [c] = (if c = CHR ''$'' then ([], True) else ([One c], False))"
| "items (c # d # re) =
    (if d = CHR ''*'' then let (is, e) = items re in (Many c # is, e) else let (is, e) = items (d # re) in (One c # is, e))"

fun lang :: "item list \<Rightarrow> string set" where
  "lang [] = {[]}"
| "lang (One c # is) = {x # w |x w. accepts c x \<and> w \<in> lang is}"
| "lang (Many c # is) = {u @ w |u w. (\<forall>x \<in> set u. accepts c x) \<and> w \<in> lang is}"

definition prefixed :: "item list \<Rightarrow> bool \<Rightarrow> string \<Rightarrow> bool" where
  "prefixed is e text \<longleftrightarrow> (\<exists>w suf. text = w @ suf \<and> w \<in> lang is \<and> (e \<longrightarrow> suf = []))"

lemma prefixed_Nil: "prefixed [] e text \<longleftrightarrow> (e \<longrightarrow> text = [])"
  by (auto simp: prefixed_def)

lemma prefixed_One: "prefixed (One c # is) e text \<longleftrightarrow> (\<exists>x t. text = x # t \<and> accepts c x \<and> prefixed is e t)"
proof
  assume "prefixed (One c # is) e text"
  then obtain v suf where v: "text = v @ suf" "v \<in> lang (One c # is)" "e \<longrightarrow> suf = []" by (auto simp only: prefixed_def)
  then obtain x w where "v = x # w" "accepts c x" "w \<in> lang is" by auto
  with v show "\<exists>x t. text = x # t \<and> accepts c x \<and> prefixed is e t"
    unfolding prefixed_def by (intro exI[of _ x] exI[of _ "w @ suf"]) auto
next
  assume "\<exists>x t. text = x # t \<and> accepts c x \<and> prefixed is e t"
  then obtain x w suf where "text = (x # w) @ suf" "accepts c x" "w \<in> lang is" "e \<longrightarrow> suf = []" by (auto simp: prefixed_def)
  then show "prefixed (One c # is) e text" unfolding prefixed_def by (intro exI[of _ "x # w"] exI[of _ suf]) auto
qed

lemma prefixed_Many:
  "prefixed (Many c # is) e text \<longleftrightarrow> (\<exists>u t. text = u @ t \<and> (\<forall>x \<in> set u. accepts c x) \<and> prefixed is e t)"
proof
  assume "prefixed (Many c # is) e text"
  then obtain v suf where v: "text = v @ suf" "v \<in> lang (Many c # is)" "e \<longrightarrow> suf = []" by (auto simp only: prefixed_def)
  then obtain u w where "v = u @ w" "\<forall>x \<in> set u. accepts c x" "w \<in> lang is" by auto
  with v have "text = u @ w @ suf" "\<forall>x \<in> set u. accepts c x" "w \<in> lang is" "e \<longrightarrow> suf = []" by auto
  then show "\<exists>u t. text = u @ t \<and> (\<forall>x \<in> set u. accepts c x) \<and> prefixed is e t"
    unfolding prefixed_def by (intro exI[of _ u] exI[of _ "w @ suf"]) auto
next
  assume "\<exists>u t. text = u @ t \<and> (\<forall>x \<in> set u. accepts c x) \<and> prefixed is e t"
  then obtain u w suf where "text = (u @ w) @ suf" "\<forall>x \<in> set u. accepts c x" "w \<in> lang is" "e \<longrightarrow> suf = []"
    by (auto simp: prefixed_def)
  then show "prefixed (Many c # is) e text" unfolding prefixed_def by (intro exI[of _ "u @ w"] exI[of _ suf]) auto
qed

definition starts :: "string \<Rightarrow> string \<Rightarrow> bool" where
  "starts re text \<longleftrightarrow> prefixed (fst (items re)) (snd (items re)) text"

definition star_starts :: "char \<Rightarrow> string \<Rightarrow> string \<Rightarrow> bool" where
  "star_starts c re text \<longleftrightarrow> (\<exists>u t. text = u @ t \<and> (\<forall>x \<in> set u. accepts c x) \<and> starts re t)"

lemma starts_star: "starts (c # CHR ''*'' # re) text = star_starts c re text"
  by (simp add: starts_def star_starts_def case_prod_beta Let_def prefixed_Many)

lemma starts_one:
  assumes "\<not> (re \<noteq> [] \<and> hd re = CHR ''*'')" "\<not> (c = CHR ''$'' \<and> re = [])"
  shows "starts (c # re) text \<longleftrightarrow> (\<exists>x t. text = x # t \<and> accepts c x \<and> starts re t)"
proof -
  have "items (c # re) = (One c # fst (items re), snd (items re))"
    using assms by (cases re) (auto simp: Let_def case_prod_beta)
  then show ?thesis by (simp add: starts_def prefixed_One)
qed

lemma star_starts_unfold:
  "star_starts c re text \<longleftrightarrow> starts re text \<or> (\<exists>x t. text = x # t \<and> accepts c x \<and> star_starts c re t)"
proof
  assume "star_starts c re text"
  then obtain u t where u: "text = u @ t" "\<forall>x \<in> set u. accepts c x" "starts re t" by (auto simp: star_starts_def)
  then show "starts re text \<or> (\<exists>x t. text = x # t \<and> accepts c x \<and> star_starts c re t)"
    by (cases u) (auto simp: star_starts_def)
next
  assume "starts re text \<or> (\<exists>x t. text = x # t \<and> accepts c x \<and> star_starts c re t)"
  then show "star_starts c re text"
  proof
    assume "starts re text"
    then show ?thesis unfolding star_starts_def by (intro exI[of _ "[]"] exI[of _ "text"]) simp
  next
    assume "\<exists>x t. text = x # t \<and> accepts c x \<and> star_starts c re t"
    then obtain x u t where "text = x # u @ t" "accepts c x" "\<forall>x \<in> set u. accepts c x" "starts re t"
      by (auto simp: star_starts_def)
    then show ?thesis unfolding star_starts_def by (intro exI[of _ "x # u"] exI[of _ t]) simp
  qed
qed

lemma matchhere_Nil: "matchhere [] t"
  by (subst matchhere.simps) simp

lemma matchhere_star: "matchhere (c # CHR ''*'' # re) t = matchstar c re t"
  by (subst matchhere.simps) simp

lemma matchhere_end: "matchhere ''$'' t = (t = [])"
  by (subst matchhere.simps) simp

lemma matchhere_one:
  assumes "\<not> (re \<noteq> [] \<and> hd re = CHR ''*'')" "\<not> (c = CHR ''$'' \<and> re = [])"
  shows "matchhere (c # re) t = (case t of [] \<Rightarrow> False | x # u \<Rightarrow> (c = CHR ''.'' \<or> c = x) \<and> matchhere re u)"
  using assms by (subst matchhere.simps) auto

lemma match_starts:
  "matchhere re text = starts re text" "matchstar c re2 text2 = star_starts c re2 text2"
proof (induction re "text" and c re2 text2 rule: matchhere_matchstar.induct)
  case (1 re t)
  show ?case
  proof (cases re)
    case Nil
    then show ?thesis by (simp add: matchhere_Nil starts_def prefixed_Nil)
  next
    case (Cons c re1)
    consider "re1 \<noteq> [] \<and> hd re1 = CHR ''*''" | "\<not> (re1 \<noteq> [] \<and> hd re1 = CHR ''*'')" "c = CHR ''$'' \<and> re1 = []"
      | "\<not> (re1 \<noteq> [] \<and> hd re1 = CHR ''*'')" "\<not> (c = CHR ''$'' \<and> re1 = [])" by blast
    then show ?thesis
    proof cases
      case 1
      then obtain re2 where "re1 = CHR ''*'' # re2" by (cases re1) auto
      then show ?thesis using "1.IH"(1)[OF Cons 1] Cons starts_star[of c re2 t] by (simp add: matchhere_star)
    next
      case 2
      then show ?thesis using Cons by (simp add: matchhere_end starts_def prefixed_Nil)
    next
      case 3
      then show ?thesis using "1.IH"(2)[OF Cons 3] Cons starts_one[OF 3]
        by (cases t) (auto simp: matchhere_one[OF 3] accepts_def)
    qed
  qed
next
  case (2 c re t)
  show ?case using "2.IH" by (cases t; subst matchstar.simps; subst star_starts_unfold) (auto simp: accepts_def)
qed

lemma match_from_ex: "match_from re text \<longleftrightarrow> (\<exists>pre t. text = pre @ t \<and> starts re t)"
proof (induction "text")
  case Nil
  then show ?case by (simp add: match_starts)
next
  case (Cons x ts)
  have "(\<exists>pre t. x # ts = pre @ t \<and> starts re t) \<longleftrightarrow> starts re (x # ts) \<or> (\<exists>pre t. ts = pre @ t \<and> starts re t)"
    by (auto simp: Cons_eq_append_conv)
  then show ?case using Cons by (simp add: match_starts)
qed

section \<open>Reading lines\<close>

definition unlines :: "string list \<Rightarrow> string" where
  "unlines ls = concat (map (\<lambda>l. l @ [NL]) ls)"

lemma unlines_simps [simp]: "unlines [] = []" "unlines (l # ls) = l @ NL # unlines ls" "unlines (ls @ ms) = unlines ls @ unlines ms"
  by (simp_all add: unlines_def)

definition plain :: "string \<Rightarrow> bool" where
  "plain l \<longleftrightarrow> NL \<notin> set l \<and> NUL \<notin> set l"

lemma grep_lines_rest: "plain r \<Longrightarrow> grep_lines re r = ([], r)"
proof -
  assume "plain r"
  then have tw: "takeWhile (\<lambda>c. c \<noteq> NL \<and> c \<noteq> NUL) r = r" by (auto simp: plain_def)
  show ?thesis unfolding grep_lines.simps[of re r] tw by simp
qed

lemma grep_lines_lines:
  assumes "\<forall>l \<in> set ls. plain l" "plain r"
  shows "grep_lines re (unlines ls @ r) = (map (\<lambda>l. l @ [NL]) (filter (match re) ls), r)"
  using assms(1)
proof (induction ls)
  case Nil
  then show ?case using grep_lines_rest[OF assms(2)] by simp
next
  case (Cons l ls)
  let ?p = "l @ NL # unlines ls @ r"
  have tw: "takeWhile (\<lambda>c. c \<noteq> NL \<and> c \<noteq> NUL) ?p = l"
    using Cons.prems by (subst takeWhile_append2) (auto simp: plain_def)
  have "grep_lines re ?p = (let (out, rest) = grep_lines re (unlines ls @ r) in (if match re l then (l @ [NL]) # out else out, rest))"
    unfolding grep_lines.simps[of re ?p] tw by simp
  then show ?case using Cons by simp
qed

lemma take_unlines:
  assumes "n \<le> length (unlines ls)"
  shows "\<exists>l1 l2 r. ls = l1 @ l2 \<and> take n (unlines ls) = unlines l1 @ r \<and> r @ drop n (unlines ls) = unlines l2 \<and>
    (r \<noteq> [] \<longrightarrow> (\<exists>l l3. l2 = l # l3 \<and> r = take (length r) l \<and> length r \<le> length l))"
  using assms
proof (induction ls arbitrary: n)
  case Nil
  then show ?case by simp
next
  case (Cons l ls)
  show ?case
  proof (cases "n \<le> length l")
    case True
    then show ?thesis by (intro exI[of _ "[]"] exI[of _ "l # ls"] exI[of _ "take n l"]) auto
  next
    case False
    then obtain k where n: "n = length l + Suc k" by (metis add_Suc_right less_imp_Suc_add not_le)
    then have "k \<le> length (unlines ls)" using Cons.prems by simp
    then obtain l1 l2 r where i: "ls = l1 @ l2" "take k (unlines ls) = unlines l1 @ r" "r @ drop k (unlines ls) = unlines l2"
      "r \<noteq> [] \<longrightarrow> (\<exists>l l3. l2 = l # l3 \<and> r = take (length r) l \<and> length r \<le> length l)" using Cons.IH by blast
    have "take n (unlines (l # ls)) = unlines (l # l1) @ r" "r @ drop n (unlines (l # ls)) = unlines l2"
      using i(2,3) by (simp_all add: n)
    then show ?thesis using i(1,4) by (metis append_Cons)
  qed
qed

definition line_ok :: "string \<Rightarrow> bool" where
  "line_ok l \<longleftrightarrow> plain l \<and> length l < GBUF - 1"

lemma grep_loop_file:
  assumes "\<forall>l \<in> set ls. line_ok l" "carry @ piece = unlines ls" "length carry < GBUF - 1" "NL \<notin> set carry"
  shows "grep_loop re carry [piece] = map (\<lambda>l. l @ [NL]) (filter (match re) ls)"
  using assms
proof (induction "length piece" arbitrary: carry piece ls rule: less_induct)
  case less
  let ?k = "GBUF - length carry - 1"
  have pl: "\<forall>l \<in> set ls. plain l" using less.prems(1) by (simp add: line_ok_def)
  show ?case
  proof (cases "piece = []")
    case True
    then have "ls = []" using less.prems(2,4) by (cases ls) auto
    then show ?thesis using True by (simp add: grep_loop.simps)
  next
    case ne: False
    then have got: "take ?k piece \<noteq> []" using less.prems(3) by simp
    have buf: "carry @ take ?k piece = take (GBUF - 1) (unlines ls)"
      using less.prems(2,3) by (simp flip: less.prems(2) add: diff_commute)
    show ?thesis
    proof (cases "length piece \<le> ?k")
      case True
      then have b: "carry @ take ?k piece = unlines ls" "drop ?k piece = []" using less.prems(2) by simp_all
      have "plain []" by (simp add: plain_def)
      then show ?thesis using got b grep_lines_lines[OF pl, of "[]" re]
        by (simp add: grep_loop.simps(2)[of re carry piece] Let_def)
    next
      case False
      then have "GBUF - 1 \<le> length (unlines ls)" using less.prems(3) arg_cong[OF less.prems(2), of length] by simp
      from take_unlines[OF this] obtain l1 l2 r where i: "ls = l1 @ l2" "take (GBUF - 1) (unlines ls) = unlines l1 @ r"
        "r @ drop (GBUF - 1) (unlines ls) = unlines l2"
        "r \<noteq> [] \<longrightarrow> (\<exists>l l3. l2 = l # l3 \<and> r = take (length r) l \<and> length r \<le> length l)" by blast
      have "plain r \<and> length r < GBUF - 1"
      proof (cases "r = []")
        case False
        then obtain l l3 where l: "l2 = l # l3" "r = take (length r) l" "length r \<le> length l" using i(4) by blast
        have "set r \<subseteq> set l" using l(2) by (metis set_take_subset)
        then show ?thesis using l i(1) less.prems(1) by (auto simp: line_ok_def plain_def)
      qed (simp add: plain_def layout)
      then have r: "plain r" "length r < GBUF - 1" by auto
      have "length (unlines l1) + length r = GBUF - 1"
        using arg_cong[OF i(2), of length] \<open>GBUF - 1 \<le> length (unlines ls)\<close> by simp
      then have l1: "unlines l1 \<noteq> []" using r(2) by auto
      have dr: "drop (GBUF - 1) (unlines ls) = drop ?k piece" using less.prems(2,3) by (simp flip: less.prems(2) add: diff_commute)
      have shorter: "length (drop ?k piece) < length piece" using ne less.prems(3) by (cases piece) auto
      have "grep_loop re r [drop ?k piece] = map (\<lambda>l. l @ [NL]) (filter (match re) l2)"
        using shorter less.prems(1) i(1,3) r dr by (intro less.hyps) (auto simp: plain_def)
      moreover have "grep_lines re (carry @ take ?k piece) = (map (\<lambda>l. l @ [NL]) (filter (match re) l1), r)"
        unfolding buf i(2) using grep_lines_lines[of l1 r re] pl i(1) r(1) by simp
      moreover have "length r \<noteq> length (carry @ take ?k piece)" using l1 unfolding buf i(2) by simp
      moreover have "drop ?k piece \<noteq> []" using False by simp
      ultimately show ?thesis using got i(1) by (simp add: grep_loop.simps(2)[of re carry piece] Let_def)
    qed
  qed
qed

section \<open>Properties\<close>

text \<open>
  C24. The matcher decides the language of the pattern: \<^verbatim>\<open>match(re, text)\<close> is true exactly when some part of
  the text belongs to the language of the pattern read as a sequence of characters, dots and starred
  characters or dots, at the beginning of the text if the pattern starts with \<^verbatim>\<open>^\<close> and at its end if it ends with \<^verbatim>\<open>$\<close>. The
  recursion always ends.
\<close>

theorem match_language:
  "match re text \<longleftrightarrow>
    (let anchored = (re \<noteq> [] \<and> hd re = CHR ''^''); (is, atend) = items (if anchored then tl re else re) in
     \<exists>pre w suf. text = pre @ w @ suf \<and> w \<in> lang is \<and> (anchored \<longrightarrow> pre = []) \<and> (atend \<longrightarrow> suf = []))"
proof (cases "re \<noteq> [] \<and> hd re = CHR ''^''")
  case True
  then show ?thesis by (simp add: match_def match_starts starts_def prefixed_def case_prod_beta Let_def)
next
  case False
  then show ?thesis unfolding match_def match_from_ex starts_def prefixed_def by (auto simp: case_prod_beta Let_def)
qed

theorem match_language_witness: "match ''^ab*$'' ''abb''"
proof -
  have i: "items ''ab*$'' = ([One CHR ''a'', Many CHR ''b''], True)" by simp
  have "''bb'' \<in> lang [Many CHR ''b'']" by (simp add: accepts_def)
  then have "''abb'' \<in> lang [One CHR ''a'', Many CHR ''b'']" by (simp add: accepts_def)
  then show ?thesis unfolding match_language[of "''^ab*$''" "''abb''"] by (simp add: i Let_def)
qed

text \<open>
  C25. \<^verbatim>\<open>grep\<close> on a file whose lines are shorter than the buffer, end in a newline and contain no NUL writes exactly
  the lines that match, in order and each once, however the lines fall on the blocks it reads.
\<close>

theorem grep_file:
  assumes "\<forall>l \<in> set ls. line_ok l"
  shows "grep re [unlines ls] = map (\<lambda>l. l @ [NL]) (filter (match re) ls)"
  unfolding grep_def by (rule grep_loop_file) (use assms in \<open>simp_all add: layout\<close>)

theorem grep_file_witness:
  "grep ''b'' [''abc'' @ NL # ''de'' @ NL # ''b'' @ [NL]] = [''abc'' @ [NL], ''b'' @ [NL]]"
proof -
  have here: "matchhere ''b'' t = (t \<noteq> [] \<and> hd t = CHR ''b'')" for t
    by (subst matchhere.simps) (auto simp: matchhere_Nil split: list.split)
  have "match ''b'' ''abc''" "\<not> match ''b'' ''de''" "match ''b'' ''b''" by (simp_all add: match_def here)
  moreover have "\<forall>l \<in> set [''abc'', ''de'', ''b'']. line_ok l" by (simp add: line_ok_def plain_def layout)
  ultimately show ?thesis using grep_file[of "[''abc'', ''de'', ''b'']" "''b''"] by simp
qed


end
