(* ===== verification/Umalloc.thy ===== *)
theory Umalloc
  imports Prelude
begin

text \<open>
  \<^verbatim>\<open>umalloc.c\<close>: the storage allocator of user programs. The free blocks form a ring in the order of their addresses, starting at
  the static header \<^verbatim>\<open>base\<close>, which the linker places below the heap and whose address is an argument. A
  header is two fields, kept in two maps indexed by its address; header arithmetic is in units of eight bytes and wraps.

  \<^verbatim>\<open>sbrk\<close> is the system call with \<^verbatim>\<open>growproc\<close> behind it, which takes a signed size: it returns the old
  size of the process or -1, \<open>grant\<close> says when the kernel has the memory for a process to grow, and a process that is asked to
  shrink by more than its size keeps it.

  The loops run around the ring, whose nodes have different addresses below the size of the process; the bounds are more than
  one and two rounds.
\<close>

section \<open>The program\<close>

record uheap =
  sptr :: "uint \<Rightarrow> uint"
  ssize :: "uint \<Rightarrow> uint"
  freep :: uint
  brk :: uint

definition HEADER :: uint where [layout]: "HEADER = 8"

definition hplus :: "uint \<Rightarrow> uint \<Rightarrow> uint" where
  "hplus p n = p + HEADER * n"

definition set_sptr :: "uint \<Rightarrow> uint \<Rightarrow> (uheap, unit) kmon" where
  "set_sptr p q = modify (\<lambda>h. h\<lparr>sptr := (sptr h)(p := q)\<rparr>)"

definition set_ssize :: "uint \<Rightarrow> uint \<Rightarrow> (uheap, unit) kmon" where
  "set_ssize p n = modify (\<lambda>h. h\<lparr>ssize := (ssize h)(p := n)\<rparr>)"

fun free_search :: "nat \<Rightarrow> uint \<Rightarrow> uint \<Rightarrow> (uheap, uint) kmon" where
  "free_search 0 bp p = stop Diverge"
| "free_search (Suc fuel) bp p =
    kbind (gets (\<lambda>h. sptr h p)) (\<lambda>q.
    if bp > p \<and> bp < q then ret p
    else if p \<ge> q \<and> (bp > p \<or> bp < q) then ret p
    else free_search fuel bp q)"

definition ring_bound :: "uheap \<Rightarrow> nat" where
  "ring_bound h = unat (brk h) + 2"

definition ufree :: "uint \<Rightarrow> (uheap, unit) kmon" where
  "ufree ap =
    (let bp = ap - HEADER in
    kbind (gets id) (\<lambda>h.
    kbind (free_search (ring_bound h) bp (freep h)) (\<lambda>p.
    kbind (gets (\<lambda>h. sptr h p)) (\<lambda>q.
    kseq (kbind (gets id) (\<lambda>h.
      if hplus bp (ssize h bp) = q then
        kseq (set_ssize bp (ssize h bp + ssize h q)) (
        set_sptr bp (sptr h q))
      else set_sptr bp q)) (
    kseq (kbind (gets id) (\<lambda>h.
      if hplus p (ssize h p) = bp then
        kseq (set_ssize p (ssize h p + ssize h bp)) (
        set_sptr p (sptr h bp))
      else set_sptr p bp)) (
    modify (\<lambda>h. h\<lparr>freep := p\<rparr>)))))))"

definition sbrk :: "(uheap \<Rightarrow> uint \<Rightarrow> bool) \<Rightarrow> uint \<Rightarrow> (uheap, uint) kmon" where
  "sbrk grant n =
    kbind (gets brk) (\<lambda>addr.
    if n = 0 then ret addr
    else if sint n > 0 then
      kbind (gets id) (\<lambda>h.
      if grant h n then kseq (modify (\<lambda>h. h\<lparr>brk := addr + n\<rparr>)) (ret addr) else ret (- 1))
    else
      let sz = (if addr + n \<ge> addr then addr else addr + n) in
      if sz = 0 then ret (- 1)
      else kseq (modify (\<lambda>h. h\<lparr>brk := sz\<rparr>)) (ret addr))"

definition morecore :: "(uheap \<Rightarrow> uint \<Rightarrow> bool) \<Rightarrow> uint \<Rightarrow> (uheap, uint) kmon" where
  "morecore grant nu =
    (let nu = (if nu < 4096 then 4096 else nu) in
    kbind (sbrk grant (nu * HEADER)) (\<lambda>p.
    if p = - 1 then ret 0
    else
      kseq (set_ssize p nu) (
      kseq (ufree (p + HEADER)) (
      gets freep))))"

fun malloc_loop :: "nat \<Rightarrow> (uheap \<Rightarrow> uint \<Rightarrow> bool) \<Rightarrow> uint \<Rightarrow> uint \<Rightarrow> uint \<Rightarrow> (uheap, uint) kmon" where
  "malloc_loop 0 grant nunits prevp p = stop Diverge"
| "malloc_loop (Suc fuel) grant nunits prevp p =
    kbind (gets id) (\<lambda>h.
    if ssize h p \<ge> nunits then
      kbind
        (if ssize h p = nunits then kseq (set_sptr prevp (sptr h p)) (ret p)
         else
          kseq (set_ssize p (ssize h p - nunits)) (
          let q = hplus p (ssize h p - nunits) in
          kseq (set_ssize q nunits) (ret q))) (\<lambda>r.
      kseq (modify (\<lambda>h. h\<lparr>freep := prevp\<rparr>)) (
      ret (r + HEADER)))
    else if p = freep h then
      kbind (morecore grant nunits) (\<lambda>c.
      if c = 0 then ret 0
      else kbind (gets (\<lambda>h. sptr h c)) (malloc_loop fuel grant nunits c))
    else malloc_loop fuel grant nunits p (sptr h p))"

definition malloc :: "uint \<Rightarrow> (uheap \<Rightarrow> uint \<Rightarrow> bool) \<Rightarrow> uint \<Rightarrow> (uheap, uint) kmon" where
  "malloc base grant nbytes =
    (let nunits = (nbytes + HEADER - 1) div HEADER + 1 in
    kseq (kbind (gets freep) (\<lambda>f.
      kwhen (f = 0) (
        kseq (set_sptr base base) (
        kseq (modify (\<lambda>h. h\<lparr>freep := base\<rparr>)) (
        set_ssize base 0))))) (
    kbind (gets freep) (\<lambda>prevp.
    kbind (gets (\<lambda>h. sptr h prevp)) (
    malloc_loop (2 ^ 33) grant nunits prevp))))"

section \<open>The ring of free blocks\<close>

fun links :: "(uint \<Rightarrow> uint) \<Rightarrow> uint list \<Rightarrow> uint \<Rightarrow> bool" where
  "links f [] z \<longleftrightarrow> True"
| "links f (x # xs) z \<longleftrightarrow> f x = hd (xs @ [z]) \<and> links f xs z"

lemma links_append: "links f (xs @ ys) z \<longleftrightarrow> links f xs (hd (ys @ [z])) \<and> links f ys z"
  by (induction xs) (auto simp: hd_append)

lemma links_upd: "x \<notin> set xs \<Longrightarrow> links (f(x := v)) xs z = links f xs z"
  by (induction xs) auto

lemma links_cong: "(\<And>x. x \<in> set xs \<Longrightarrow> f x = g x) \<Longrightarrow> links f xs z = links g xs z"
  by (induction xs) auto

definition bend :: "uheap \<Rightarrow> uint \<Rightarrow> nat" where
  "bend h b = unat b + 8 * unat (ssize h b)"

definition bspan :: "uheap \<Rightarrow> uint \<Rightarrow> nat set" where
  "bspan h b = {unat b ..< bend h b}"

definition fspan :: "uheap \<Rightarrow> uint list \<Rightarrow> nat set" where
  "fspan h bs = (\<Union>b \<in> set bs. bspan h b)"

text \<open>
  \<open>heap_inv base bs h\<close>: the ring starts at \<open>base\<close>, whose size is 0, and lists the free blocks \<open>bs\<close> by ascending address, with a
  gap after each, all below the end of the process.
\<close>

definition heap_inv :: "uint \<Rightarrow> uint list \<Rightarrow> uheap \<Rightarrow> bool" where
  "heap_inv base bs h \<longleftrightarrow> links (sptr h) (base # bs) base \<and> ssize h base = 0 \<and> base \<noteq> 0 \<and> freep h \<in> set (base # bs) \<and>
    sorted_wrt (\<lambda>a b. bend h a < unat b) (base # bs) \<and> (\<forall>b \<in> set bs. 0 < ssize h b \<and> bend h b \<le> unat (brk h)) \<and>
    unat base < unat (brk h) \<and> unat (brk h) \<le> 2 ^ 31"

lemma bend_ge: "unat b \<le> bend h b"
  by (simp add: bend_def)

lemma ring_sorted:
  assumes "heap_inv base bs h"
  shows "sorted_wrt (\<lambda>a b. unat a < unat b) (base # bs)" "distinct (base # bs)" "\<forall>x \<in> set (base # bs). unat x \<le> unat (brk h)"
proof -
  show s: "sorted_wrt (\<lambda>a b. unat a < unat b) (base # bs)"
    using assms bend_ge by (auto simp: heap_inv_def intro: le_less_trans elim!: sorted_wrt_mono_rel[rotated])
  have "sorted_wrt (\<lambda>a b. unat a < unat b) xs \<Longrightarrow> distinct xs" for xs :: "uint list" by (induction xs) auto
  then show "distinct (base # bs)" using s by blast
  show "\<forall>x \<in> set (base # bs). unat x \<le> unat (brk h)" using assms bend_ge by (fastforce simp: heap_inv_def intro: le_trans)
qed

lemma ring_length:
  assumes "heap_inv base bs h"
  shows "length (base # bs) < ring_bound h"
proof -
  have "card (unat ` set (base # bs)) \<le> card {..unat (brk h)}"
    using ring_sorted(3)[OF assms] by (intro card_mono) auto
  moreover have "card (unat ` set (base # bs)) = length (base # bs)"
    using ring_sorted(2)[OF assms] by (simp only: card_image[OF inj_on_subset[OF inj_unsigned]] subset_UNIV distinct_card)
  ultimately show ?thesis by (simp add: ring_bound_def)
qed

lemma ring_next:
  assumes "heap_inv base bs h" "base # bs = X @ c # Y"
  shows "sptr h c = hd (Y @ [base])" "\<forall>y \<in> set Y. bend h c < unat y"
  using assms(1) unfolding heap_inv_def assms(2) by (auto simp: links_append sorted_wrt_append)

text \<open>Where a block not in the ring belongs.\<close>

lemma ring_split:
  assumes "heap_inv base bs h" "unat base < unat bp" "bp \<notin> set bs"
  shows "\<exists>A p post. base # bs = A @ p # post \<and> (\<forall>x \<in> set A. unat x < unat p) \<and> unat p < unat bp \<and> (\<forall>x \<in> set post. unat bp < unat x)"
proof -
  have "sorted_wrt (\<lambda>a b. unat a < unat b) xs \<Longrightarrow> xs \<noteq> [] \<Longrightarrow> unat (hd xs) < unat bp \<Longrightarrow> bp \<notin> set xs \<Longrightarrow>
      \<exists>A p post. xs = A @ p # post \<and> (\<forall>x \<in> set A. unat x < unat p) \<and> unat p < unat bp \<and> (\<forall>x \<in> set post. unat bp < unat x)" for xs
  proof (induction xs)
    case (Cons x xs)
    show ?case
    proof (cases "xs = [] \<or> unat bp < unat (hd xs)")
      case True
      then have "\<forall>y \<in> set xs. unat bp < unat y" using Cons.prems(1) by (cases xs) auto
      then show ?thesis using Cons.prems(3) by (intro exI[of _ "[]"] exI[of _ x] exI[of _ xs]) auto
    next
      case False
      then have "unat (hd xs) < unat bp" using Cons.prems(4) by (cases xs) (auto simp: word_unat_eq_iff not_less)
      then obtain A p post where i: "xs = A @ p # post" "\<forall>x \<in> set A. unat x < unat p" "unat p < unat bp" "\<forall>x \<in> set post. unat bp < unat x"
        using Cons False by auto
      then show ?thesis using Cons.prems(1) by (intro exI[of _ "x # A"] exI[of _ p] exI[of _ post]) auto
    qed
  qed simp
  from this[of "base # bs"] show ?thesis using assms ring_sorted(1)[OF assms(1)] by auto
qed

section \<open>Freeing a block\<close>

definition stops :: "uint \<Rightarrow> uint \<Rightarrow> uint \<Rightarrow> bool" where
  "stops bp p q \<longleftrightarrow> bp > p \<and> bp < q \<or> p \<ge> q \<and> (bp > p \<or> bp < q)"

lemma free_walk:
  assumes "links (sptr h) (C @ [p]) q" "stops bp p q" "\<forall>c \<in> set C. \<not> stops bp c (sptr h c)" "length C < fuel"
  shows "free_search fuel bp (hd (C @ [p])) h = Inr (p, h)"
  using assms
proof (induction C arbitrary: fuel)
  case Nil
  then obtain f where "fuel = Suc f" by (cases fuel) auto
  then show ?case using Nil by (auto simp: stops_def kbind_def gets_def ret_def)
next
  case (Cons c C)
  then obtain f where f: "fuel = Suc f" by (cases fuel) auto
  have "sptr h c = hd (C @ [p])" using Cons.prems(1) by (cases C) auto
  moreover have "\<not> stops bp c (sptr h c)" using Cons.prems(3) by simp
  moreover have "free_search f bp (hd (C @ [p])) h = Inr (p, h)" using Cons.prems f by (intro Cons.IH) auto
  ultimately show ?case using f by (auto simp: stops_def kbind_def gets_def)
qed

lemma ring_stops:
  assumes inv: "heap_inv base bs h" and xs: "base # bs = A @ p # post"
    and lt: "\<forall>x \<in> set A. unat x < unat p" "unat p < unat bp" "\<forall>x \<in> set post. unat bp < unat x"
  shows "stops bp p (hd (post @ [base]))" "c \<in> set (A @ post) \<Longrightarrow> \<not> stops bp c (sptr h c)"
proof -
  have b: "unat base \<le> unat p"
  proof (cases A)
    case (Cons a A')
    then have "a = base" using xs by simp
    then show ?thesis using lt(1) Cons by simp
  qed (use xs in simp)
  show "stops bp p (hd (post @ [base]))"
    using lt(2,3) b by (cases post) (auto simp: stops_def word_less_nat_alt word_le_nat_alt)
  show "\<not> stops bp c (sptr h c)" if c: "c \<in> set (A @ post)"
  proof (cases "c \<in> set A")
    case True
    then obtain X Y where A: "A = X @ c # Y" by (metis in_set_conv_decomp)
    then have n: "sptr h c = hd (Y @ [p])" "unat c < unat (hd (Y @ [p]))" "unat (hd (Y @ [p])) \<le> unat p"
      using ring_next[OF inv, of X c "Y @ p # post"] xs lt(1) bend_ge[of c h] by (cases Y; fastforce)+
    then show ?thesis using lt(2) by (auto simp: stops_def word_less_nat_alt word_le_nat_alt)
  next
    case False
    then obtain X Y where P: "post = X @ c # Y" using c by (auto simp: in_set_conv_decomp)
    have n: "sptr h c = hd (Y @ [base])" "\<forall>y \<in> set Y. unat c < unat y"
      using ring_next[OF inv, of "A @ p # X" c Y] xs P bend_ge[of c h] by fastforce+
    have "unat bp < unat c" using lt(3) P by simp
    then show ?thesis using n b lt(2) by (cases Y) (auto simp: stops_def word_less_nat_alt word_le_nat_alt)
  qed
qed

lemma free_search_ring:
  assumes inv: "heap_inv base bs h" and xs: "base # bs = A @ p # post"
    and lt: "\<forall>x \<in> set A. unat x < unat p" "unat p < unat bp" "\<forall>x \<in> set post. unat bp < unat x"
  shows "free_search (ring_bound h) bp (freep h) h = Inr (p, h)"
proof -
  have len: "length (A @ p # post) < ring_bound h" using ring_length[OF inv] xs by simp
  have lk: "links (sptr h) (A @ p # post) base" and f: "freep h \<in> set (A @ p # post)"
    using inv unfolding heap_inv_def xs by auto
  note st = ring_stops[OF inv xs lt]
  from f consider "freep h \<in> set (A @ [p])" | "freep h \<in> set post" by auto
  then show ?thesis
  proof cases
    case 1
    then obtain X C where XC: "A @ [p] = X @ C @ [p]" "freep h = hd (C @ [p])" "set C \<subseteq> set A"
    proof -
      assume a: "\<And>X C. A @ [p] = X @ C @ [p] \<Longrightarrow> freep h = hd (C @ [p]) \<Longrightarrow> set C \<subseteq> set A \<Longrightarrow> thesis"
      show thesis
      proof (cases "freep h \<in> set A")
        case True
        then obtain X Y where "A = X @ freep h # Y" by (metis in_set_conv_decomp)
        then show thesis by (intro a[of X "freep h # Y"]) auto
      qed (use 1 a[of A "[]"] in auto)
    qed
    then have "A @ p # post = X @ (C @ [p]) @ post" by simp
    then have "links (sptr h) (C @ [p]) (hd (post @ [base]))" "length C < ring_bound h"
      using lk len by (simp_all only: links_append) (auto simp: links_append)
    then show ?thesis unfolding XC(2) using st XC(3) by (intro free_walk) auto
  next
    case 2
    then obtain X Y where P: "post = X @ freep h # Y" by (metis in_set_conv_decomp)
    let ?C = "freep h # Y @ A"
    have hd: "hd (A @ [p]) = base" using xs by (cases A) auto
    have "links (sptr h) (?C @ [p]) (hd (post @ [base]))" using lk hd unfolding P
      by (auto simp: links_append hd_append split: if_splits)
    moreover have "length ?C < ring_bound h" using len P by simp
    moreover have "\<not> stops bp c (sptr h c)" if "c \<in> set ?C" for c using st(2)[of c] that P by auto
    ultimately have "free_search (ring_bound h) bp (hd (?C @ [p])) h = Inr (p, h)"
      by (intro free_walk[OF _ st(1)] ballI)
    then show ?thesis by simp
  qed
qed

text \<open>The two steps of \<open>ufree\<close>: the freed block is linked to what follows it, and what precedes it to the freed block.\<close>

definition join_next :: "uint \<Rightarrow> uint \<Rightarrow> uheap \<Rightarrow> uheap" where
  "join_next bp q h =
    (if hplus bp (ssize h bp) = q
     then h\<lparr>ssize := (ssize h)(bp := ssize h bp + ssize h q), sptr := (sptr h)(bp := sptr h q)\<rparr>
     else h\<lparr>sptr := (sptr h)(bp := q)\<rparr>)"

definition join_prev :: "uint \<Rightarrow> uint \<Rightarrow> uheap \<Rightarrow> uheap" where
  "join_prev p bp h =
    (if hplus p (ssize h p) = bp
     then h\<lparr>ssize := (ssize h)(p := ssize h p + ssize h bp), sptr := (sptr h)(p := sptr h bp)\<rparr>
     else h\<lparr>sptr := (sptr h)(p := bp)\<rparr>)"

lemma ufree_run:
  assumes "free_search (ring_bound h) bp (freep h) h = Inr (p, h)"
  shows "ufree (bp + HEADER) h = Inr ((), (join_prev p bp (join_next bp (sptr h p) h))\<lparr>freep := p\<rparr>)"
  using assms
  by (simp add: ufree_def Let_def kbind_def gets_def set_ssize_def set_sptr_def modify_def join_next_def join_prev_def)

lemma unat_hplus:
  assumes "bend h b \<le> 2 ^ 31"
  shows "unat (hplus b (ssize h b)) = bend h b"
proof -
  have "8 * unat (ssize h b) < 2 ^ 32" using assms by (simp add: bend_def)
  then have "unat (HEADER * ssize h b) = 8 * unat (ssize h b)" by (simp add: layout unat_word_ariths)
  then show ?thesis using assms by (simp add: hplus_def bend_def unat_word_ariths)
qed

lemma unat_size_sum:
  assumes "8 * (unat m + unat n) \<le> 2 ^ 31"
  shows "unat (m + n :: uint) = unat m + unat n"
  using assms by (simp add: unat_word_ariths)

text \<open>A block \<open>b\<close> that may be put before the list \<open>post\<close>, and a list as the end of a ring.\<close>

definition tail_ok :: "uint \<Rightarrow> uint list \<Rightarrow> uheap \<Rightarrow> bool" where
  "tail_ok base post h \<longleftrightarrow> links (sptr h) post base \<and> sorted_wrt (\<lambda>a b. bend h a < unat b) post \<and>
    (\<forall>b \<in> set post. unat base < unat b \<and> 0 < ssize h b \<and> bend h b \<le> unat (brk h)) \<and> unat (brk h) \<le> 2 ^ 31"

lemma join_next_ok:
  assumes t: "tail_ok base post h" and b: "0 < ssize h bp" "bend h bp \<le> unat (brk h)" "unat base < unat bp" "bp \<notin> set post"
    and after: "\<forall>x \<in> set post. bend h bp \<le> unat x"
  defines "h' \<equiv> join_next bp (hd (post @ [base])) h"
  shows "\<exists>post'. tail_ok base (bp # post') h' \<and> fspan h' (bp # post') = bspan h bp \<union> fspan h post \<and> set post' \<subseteq> set post \<and>
    brk h' = brk h \<and> freep h' = freep h \<and> (\<forall>x. x \<noteq> bp \<longrightarrow> ssize h' x = ssize h x \<and> sptr h' x = sptr h x)"
proof -
  have lim: "bend h bp \<le> 2 ^ 31" using b(2) t by (simp add: tail_ok_def)
  note hp = unat_hplus[OF lim]
  show ?thesis
  proof (cases "post \<noteq> [] \<and> bend h bp = unat (hd post)")
    case True
    then obtain q post' where post: "post = q # post'" and q: "bend h bp = unat q" by (cases post) auto
    have "hplus bp (ssize h bp) = q" using hp q by (simp add: word_unat_eq_iff)
    then have h': "h' = h\<lparr>ssize := (ssize h)(bp := ssize h bp + ssize h q), sptr := (sptr h)(bp := sptr h q)\<rparr>"
      by (simp add: h'_def join_next_def post)
    have qe: "bend h q \<le> 2 ^ 31" "0 < ssize h q" "bend h q \<le> unat (brk h)" using t by (auto simp: tail_ok_def post)
    have sum: "unat (ssize h bp + ssize h q) = unat (ssize h bp) + unat (ssize h q)"
      using q qe(1) by (intro unat_size_sum) (simp add: bend_def)
    then have be: "bend h' bp = bend h q" using q by (simp add: bend_def h')
    have ne: "bp \<notin> set post'" "bp \<noteq> q" using b(4) post by auto
    have oth: "bend h' x = bend h x" if "x \<in> set post'" for x using that ne by (auto simp: bend_def h')
    have "tail_ok base (bp # post') h'" unfolding tail_ok_def
    proof (intro conjI)
      show "links (sptr h') (bp # post') base" using t ne(1) by (simp add: h' links_upd tail_ok_def post)
      have "sorted_wrt (\<lambda>a b. bend h' a < unat b) post'"
        using t ne(1) oth by (auto simp: tail_ok_def post elim!: sorted_wrt_mono_rel[rotated])
      moreover have "\<forall>x \<in> set post'. bend h q < unat x" using t by (simp add: tail_ok_def post)
      ultimately show "sorted_wrt (\<lambda>a b. bend h' a < unat b) (bp # post')" by (simp add: be)
      show "\<forall>c \<in> set (bp # post'). unat base < unat c \<and> 0 < ssize h' c \<and> bend h' c \<le> unat (brk h')"
        using t ne(1) b qe sum be oth by (auto simp: tail_ok_def post h' word_less_nat_alt)
      show "unat (brk h') \<le> 2 ^ 31" using t by (simp add: tail_ok_def h')
    qed
    moreover have "fspan h' (bp # post') = bspan h bp \<union> fspan h post"
    proof -
      have "bspan h' bp = bspan h bp \<union> bspan h q" using be q bend_ge[of bp h] bend_ge[of q h] by (auto simp: bspan_def)
      moreover have "fspan h' post' = fspan h post'" using ne(1) oth by (auto simp: fspan_def bspan_def)
      ultimately show ?thesis by (simp add: fspan_def post Un_assoc)
    qed
    ultimately show ?thesis by (intro exI[of _ post']) (auto simp: h' post)
  next
    case False
    have "hplus bp (ssize h bp) \<noteq> hd (post @ [base])"
      using False hp b(3) bend_ge[of bp h] by (cases post) (auto simp: word_unat_eq_iff)
    then have h': "h' = h\<lparr>sptr := (sptr h)(bp := hd (post @ [base]))\<rparr>" by (simp add: h'_def join_next_def)
    have be: "bend h' x = bend h x" for x by (simp add: bend_def h')
    have "bend h bp < unat x" if "x \<in> set post" for x
    proof (cases post)
      case (Cons q qs)
      then have "bend h bp < unat q" using False after by force
      moreover have "unat q \<le> unat x" using t that Cons bend_ge[of q h] by (auto simp: tail_ok_def intro: le_trans less_imp_le)
      ultimately show ?thesis by simp
    qed (use that in simp)
    then have "tail_ok base (bp # post) h'"
      using t b by (simp add: tail_ok_def be) (simp add: h' links_upd)
    moreover have "fspan h' (bp # post) = bspan h bp \<union> fspan h post" by (simp add: fspan_def bspan_def be)
    ultimately show ?thesis by (intro exI[of _ post]) (simp add: h')
  qed
qed

lemma join_prev_ok:
  assumes inv: "heap_inv base bs h" and xs: "base # bs = A @ p # post" and t: "tail_ok base (bp # post') h1"
    and same: "\<forall>x. x \<noteq> bp \<longrightarrow> ssize h1 x = ssize h x \<and> sptr h1 x = sptr h x" and sub: "set post' \<subseteq> set post"
    and lt: "\<forall>x \<in> set A. unat x < unat p" "unat p < unat bp" and before: "bend h p \<le> unat bp" and brk: "brk h1 = brk h"
  defines "h' \<equiv> (join_prev p bp h1)\<lparr>freep := p\<rparr>"
  shows "\<exists>bs'. heap_inv base bs' h' \<and> fspan h' bs' = fspan h (A @ [p]) \<union> fspan h1 (bp # post') \<and> brk h' = brk h"
proof -
  let ?m = "bend h p = unat bp"
  have pn: "p \<noteq> bp" "bp \<notin> set A" "p \<notin> set post'" using lt sub ring_sorted(2)[OF inv] unfolding xs by auto
  have s1: "ssize h1 p = ssize h p" "sptr h1 p = sptr h p" using same pn(1) by simp_all
  have lim: "bend h1 p \<le> 2 ^ 31" using before t s1 bend_ge[of bp h1] by (auto simp: bend_def tail_ok_def)
  have be1: "bend h1 p = bend h p" using s1 by (simp add: bend_def)
  have m: "hplus p (ssize h1 p) = bp \<longleftrightarrow> ?m" using unat_hplus[OF lim] be1 by (simp add: word_unat_eq_iff)
  define rest where "rest = (if ?m then post' else bp # post')"
  have h': "h' = (if ?m then h1\<lparr>ssize := (ssize h1)(p := ssize h1 p + ssize h1 bp), sptr := (sptr h1)(p := sptr h1 bp), freep := p\<rparr>
      else h1\<lparr>sptr := (sptr h1)(p := bp), freep := p\<rparr>)" by (simp add: h'_def join_prev_def m)
  have sum: "unat (ssize h1 p + ssize h1 bp) = unat (ssize h1 p) + unat (ssize h1 bp)" if ?m
    using that t be1 by (intro unat_size_sum) (auto simp: tail_ok_def bend_def)
  have pe: "bend h' p = (if ?m then bend h1 bp else bend h p)" using sum be1 by (auto simp: h' bend_def)
  have szA: "ssize h' x = ssize h x" "bend h' x = bend h x" if "x \<in> set A" for x
    using that pn lt(1) same by (auto simp: h' bend_def)
  have szR: "ssize h' x = ssize h1 x" "bend h' x = bend h1 x" if "x \<in> set rest" for x
    using that pn by (auto simp: h' bend_def rest_def split: if_splits)
  have lk: "links (sptr h') (A @ p # rest) base"
  proof -
    have "links (sptr h) A p" using inv unfolding heap_inv_def xs by (simp add: links_append)
    moreover have "links (sptr h') A p = links (sptr h) A p" using pn lt(1) same by (intro links_cong) (auto simp: h')
    ultimately have "links (sptr h') A p" by simp
    then show ?thesis using t pn by (auto simp: links_append h' rest_def tail_ok_def links_upd)
  qed
  have bpx: "unat bp \<le> unat x" if "x \<in> set rest" for x
    using that t bend_ge[of bp h1] by (auto simp: rest_def tail_ok_def split: if_splits intro: le_trans less_imp_le)
  have pend: "bend h' p < unat x" if "x \<in> set rest" for x
  proof (cases ?m)
    case True
    then show ?thesis using that t pe by (simp add: rest_def tail_ok_def)
  next
    case False
    then show ?thesis using bpx[OF that] before pe by simp
  qed
  have sA: "sorted_wrt (\<lambda>a b. bend h a < unat b) A" "\<forall>a \<in> set A. bend h a < unat p"
    using inv unfolding heap_inv_def xs by (auto simp: sorted_wrt_append)
  have so: "sorted_wrt (\<lambda>a b. bend h' a < unat b) (A @ p # rest)"
  proof -
    have "sorted_wrt (\<lambda>a b. bend h' a < unat b) A" using sA(1) szA(2) by (auto elim!: sorted_wrt_mono_rel[rotated])
    moreover have "sorted_wrt (\<lambda>a b. bend h1 a < unat b) rest" using t by (simp add: tail_ok_def rest_def)
    then have "sorted_wrt (\<lambda>a b. bend h' a < unat b) rest" using szR(2) by (auto elim!: sorted_wrt_mono_rel[rotated])
    moreover have "bend h' a < unat y" if "a \<in> set A" "y \<in> set rest" for a y
      using sA(2) szA(2)[OF that(1)] that bpx[OF that(2)] lt(2) by force
    ultimately show ?thesis using sA(2) szA(2) pend by (auto simp: sorted_wrt_append)
  qed
  have hdb: "hd (A @ [p]) = base" using xs by (cases A) auto
  then obtain bs' where L: "A @ p # rest = base # bs'" by (cases A) auto
  have nb: "p = base \<Longrightarrow> \<not> ?m" using inv lt(2) by (auto simp: heap_inv_def bend_def)
  have base0: "ssize h' base = 0"
  proof (cases "p = base")
    case True
    then show ?thesis using nb inv s1 by (simp add: h' heap_inv_def)
  next
    case False
    then have "base \<in> set A" using hdb by (cases A) auto
    then show ?thesis using szA(1) inv by (simp add: heap_inv_def)
  qed
  have ok: "0 < ssize h' x \<and> bend h' x \<le> unat (brk h')" if "x \<in> set bs'" for x
  proof -
    have xb: "x \<noteq> base" using that so bend_ge[of base h'] unfolding L by auto
    have old: "0 < ssize h x \<and> bend h x \<le> unat (brk h)" if "x \<in> set (A @ [p])"
    proof -
      have "x \<in> set (base # bs)" using that unfolding xs by auto
      then show ?thesis using inv xb by (simp add: heap_inv_def)
    qed
    have bpok: "0 < ssize h1 bp" "bend h1 bp \<le> unat (brk h1)" using t by (simp_all add: tail_ok_def)
    have "x \<in> set (A @ p # rest)" using that unfolding L by simp
    then consider "x \<in> set A" | "x = p" | "x \<in> set rest" by auto
    then show ?thesis
    proof cases
      case 2
      have "0 < ssize h' p" using old 2 bpok(1) sum s1(1) by (auto simp: h' word_less_nat_alt)
      then show ?thesis using 2 old bpok(2) pe brk by (auto simp: h')
    next
      case 3
      then show ?thesis using szR[OF 3] t by (auto simp: rest_def tail_ok_def h' split: if_splits)
    qed (use szA old brk in \<open>auto simp: h'\<close>)
  qed
  have "heap_inv base bs' h'" unfolding heap_inv_def L[symmetric]
    using lk base0 inv so ok brk by (auto simp: h' heap_inv_def)
  moreover have "fspan h' bs' = fspan h (A @ [p]) \<union> fspan h1 (bp # post')"
  proof -
    have "fspan h' bs' = fspan h' (base # bs')" using base0 by (simp add: fspan_def bspan_def bend_def)
    also have "\<dots> = fspan h' A \<union> (bspan h' p \<union> fspan h' rest)" unfolding L[symmetric] by (auto simp: fspan_def)
    also have "fspan h' A = fspan h A" using szA(2) by (auto simp: fspan_def bspan_def)
    also have "fspan h' rest = fspan h1 rest" using szR(2) by (auto simp: fspan_def bspan_def)
    also have "bspan h' p \<union> fspan h1 rest = bspan h p \<union> fspan h1 (bp # post')"
      using pe bend_ge[of p h] bend_ge[of bp h1] by (auto simp: fspan_def bspan_def rest_def)
    finally show ?thesis by (simp add: fspan_def Un_assoc Un_left_commute)
  qed
  ultimately show ?thesis using brk by (intro exI[of _ bs']) (simp add: h')
qed

lemma wp_ufree:
  assumes inv: "heap_inv base bs h" and b: "0 < ssize h bp" "bend h bp \<le> unat (brk h)" "unat base < unat bp"
    and dis: "bspan h bp \<inter> fspan h bs = {}"
  shows "\<exists>h' bs'. ufree (bp + HEADER) h = Inr ((), h') \<and> heap_inv base bs' h' \<and> fspan h' bs' = fspan h bs \<union> bspan h bp \<and>
    brk h' = brk h \<and> (\<forall>x. unat x \<notin> fspan h bs \<union> bspan h bp \<longrightarrow> ssize h' x = ssize h x)"
proof -
  have own: "unat x \<in> bspan h x" if "0 < ssize h x" for x using that by (simp add: bspan_def bend_def word_less_nat_alt)
  have bpn: "bp \<notin> set bs" using dis own[OF b(1)] by (auto simp: fspan_def)
  obtain A p post where xs: "base # bs = A @ p # post" and lt: "\<forall>x \<in> set A. unat x < unat p" "unat p < unat bp" "\<forall>x \<in> set post. unat bp < unat x"
    using ring_split[OF inv b(3) bpn] by blast
  have base0: "bspan h base = {}" using inv by (simp add: heap_inv_def bspan_def bend_def)
  have fs: "fspan h bs = fspan h (A @ [p]) \<union> fspan h post"
  proof -
    have "fspan h bs = fspan h (base # bs)" using base0 by (simp add: fspan_def)
    then show ?thesis unfolding xs by (auto simp: fspan_def)
  qed
  have pos: "0 < ssize h x" if "x \<in> set post" for x
  proof -
    have "x \<in> set (base # bs)" "x \<noteq> base" using that xs lt(3) b(3) by auto
    then show ?thesis using inv by (auto simp: heap_inv_def)
  qed
  have before: "bend h p \<le> unat bp"
  proof (rule ccontr)
    assume "\<not> bend h p \<le> unat bp"
    then have "unat bp \<in> bspan h p" using lt(2) by (simp add: bspan_def)
    then show False using own[OF b(1)] dis fs by (auto simp: fspan_def)
  qed
  have after: "bend h bp \<le> unat x" if "x \<in> set post" for x
  proof (rule ccontr)
    assume "\<not> bend h bp \<le> unat x"
    then have "unat x \<in> bspan h bp" using lt(3) that by (auto simp: bspan_def intro: less_imp_le)
    then show False using own[OF pos[OF that]] that dis fs by (auto simp: fspan_def)
  qed
  have q: "sptr h p = hd (post @ [base])" using ring_next(1)[OF inv xs] .
  have t: "tail_ok base post h"
  proof -
    have "links (sptr h) post base" "sorted_wrt (\<lambda>a b. bend h a < unat b) post" "unat (brk h) \<le> 2 ^ 31"
      using inv unfolding heap_inv_def xs by (simp_all add: links_append sorted_wrt_append)
    moreover have "set post \<subseteq> set bs" using xs lt(3) b(3) by (cases A) auto
    ultimately show ?thesis using inv lt(3) b(3) by (auto simp: tail_ok_def heap_inv_def intro: less_trans)
  qed
  have bpo: "bp \<notin> set post" using lt(3) by auto
  obtain post' where n: "tail_ok base (bp # post') (join_next bp (sptr h p) h)"
      "fspan (join_next bp (sptr h p) h) (bp # post') = bspan h bp \<union> fspan h post" "set post' \<subseteq> set post"
      "brk (join_next bp (sptr h p) h) = brk h" "\<forall>x. x \<noteq> bp \<longrightarrow> ssize (join_next bp (sptr h p) h) x = ssize h x \<and> sptr (join_next bp (sptr h p) h) x = sptr h x"
    using join_next_ok[OF t b(1,2,3) bpo] after unfolding q by blast
  let ?h' = "(join_prev p bp (join_next bp (sptr h p) h))\<lparr>freep := p\<rparr>"
  obtain bs' where bs': "heap_inv base bs' ?h'" "fspan ?h' bs' = fspan h (A @ [p]) \<union> fspan (join_next bp (sptr h p) h) (bp # post')" "brk ?h' = brk h"
    using join_prev_ok[OF inv xs n(1,5,3) lt(1,2) before n(4)] by blast
  have "ssize ?h' x = ssize h x" if "unat x \<notin> fspan h bs \<union> bspan h bp" for x
  proof -
    have "x \<noteq> bp" using that own[OF b(1)] by auto
    moreover have "x \<noteq> p \<or> ssize h p = 0" using that own[of p] unfolding fs by (auto simp: fspan_def word_gt_0)
    ultimately show ?thesis using n(5) lt(2) by (auto simp: join_prev_def hplus_def)
  qed
  then show ?thesis using ufree_run[OF free_search_ring[OF inv xs lt]] bs' n(2) fs by (intro exI[of _ ?h'] exI[of _ bs']) auto
qed

section \<open>Taking a block\<close>

lemma own_span: "0 < ssize h b \<Longrightarrow> unat b \<in> bspan h b"
  by (simp add: bspan_def bend_def word_less_nat_alt)

lemma fspan_base: "heap_inv base bs h \<Longrightarrow> fspan h bs = fspan h (base # bs)"
  by (simp add: heap_inv_def fspan_def bspan_def bend_def)

lemma ring_disjoint:
  assumes "heap_inv base bs h" "base # bs = X @ p # Y" "x \<in> set (X @ Y)"
  shows "bspan h p \<inter> bspan h x = {}"
proof -
  have "bend h x < unat p \<or> bend h p < unat x"
    using assms unfolding heap_inv_def assms(2) by (auto simp: sorted_wrt_append)
  then show ?thesis by (auto simp: bspan_def)
qed

text \<open>What \<open>malloc\<close> leaves: a block of \<open>n\<close> units outside the ring, cut from the space \<open>S\<close>.\<close>

definition took :: "uint \<Rightarrow> uint \<Rightarrow> nat set \<Rightarrow> uheap \<Rightarrow> uint \<Rightarrow> uheap \<Rightarrow> bool" where
  "took base n S h r h' \<longleftrightarrow> (\<exists>b bs'. r = b + HEADER \<and> heap_inv base bs' h' \<and> ssize h' b = n \<and> unat base < unat b \<and> brk h' = brk h \<and>
    bend h' b \<le> unat (brk h') \<and> bspan h' b \<inter> fspan h' bs' = {} \<and> bspan h' b \<union> fspan h' bs' = S \<and>
    (\<forall>x. unat x \<notin> S \<longrightarrow> ssize h' x = ssize h x))"

lemma ring_member:
  assumes "heap_inv base bs h" "base # bs = X @ c # p # Y"
  shows "p \<in> set bs" "unat base < unat p" "bend h p \<le> unat (brk h)" "distinct (X @ c # p # Y)"
proof -
  show "distinct (X @ c # p # Y)" using ring_sorted(2)[OF assms(1)] unfolding assms(2) .
  show p: "p \<in> set bs" using assms(2) by (cases X) auto
  then show "unat base < unat p" "bend h p \<le> unat (brk h)" using ring_sorted(1)[OF assms(1)] assms(1) by (auto simp: heap_inv_def)
qed

lemma take_whole:
  assumes inv: "heap_inv base bs h" and xs: "base # bs = X @ prevp # p # Y" and n: "ssize h p = n"
  shows "took base n (fspan h bs) h (p + HEADER) (h\<lparr>sptr := (sptr h)(prevp := sptr h p), freep := prevp\<rparr>)" (is "took _ _ _ _ _ ?h'")
proof -
  obtain bs' where bs': "base # bs' = X @ prevp # Y" using xs by (cases X) auto
  have same: "bend ?h' x = bend h x" "bspan ?h' x = bspan h x" "fspan ?h' ys = fspan h ys" for x ys by (simp_all add: bend_def bspan_def fspan_def)
  note m = ring_member[OF inv xs]
  have "distinct (base # bs')" "set (base # bs') \<subseteq> set (base # bs)" using m(4) unfolding bs' xs by auto
  then have sub: "x \<in> set bs" if "x \<in> set bs'" for x using that by auto
  have inv': "heap_inv base bs' ?h'" unfolding heap_inv_def same
  proof (intro conjI)
    show "links (sptr ?h') (base # bs') base" unfolding bs' using inv m(4) unfolding heap_inv_def xs
      by (auto simp: links_append links_upd hd_append)
    show "sorted_wrt (\<lambda>a b. bend h a < unat b) (base # bs')" unfolding bs' using inv unfolding heap_inv_def xs
      by (auto simp: sorted_wrt_append)
    show "freep ?h' \<in> set (base # bs')" unfolding bs' by simp
  qed (use inv sub in \<open>auto simp: heap_inv_def\<close>)
  have "bspan h p \<inter> fspan h (base # bs') = {}" unfolding bs' using ring_disjoint[OF inv, of "X @ [prevp]" p Y] xs
    by (auto simp: fspan_def)
  moreover have "bspan h p \<union> fspan h (base # bs') = fspan h (base # bs)" unfolding bs' xs by (auto simp: fspan_def)
  ultimately show ?thesis unfolding took_def
    using inv inv' n m fspan_base[OF inv] fspan_base[OF inv'] by (intro exI[of _ p] exI[of _ bs']) (simp add: same)
qed

lemma take_part:
  assumes inv: "heap_inv base bs h" and xs: "base # bs = X @ prevp # p # Y" and n: "0 < n" "n < ssize h p"
  defines "q \<equiv> hplus p (ssize h p - n)"
  shows "took base n (fspan h bs) h (q + HEADER) (h\<lparr>ssize := (ssize h)(p := ssize h p - n, q := n), freep := prevp\<rparr>)" (is "took _ _ _ _ _ ?h'")
proof -
  note m = ring_member[OF inv xs]
  have lim: "bend h p \<le> 2 ^ 31" using m(3) inv by (simp add: heap_inv_def)
  have d: "unat (ssize h p - n) = unat (ssize h p) - unat n" "unat n < unat (ssize h p)"
    using unat_sub[OF less_imp_le[OF n(2)]] n(2) by (simp_all add: word_less_nat_alt)
  have q: "unat q = unat p + 8 * (unat (ssize h p) - unat n)"
    using unat_hplus[of "h\<lparr>ssize := (ssize h)(p := ssize h p - n)\<rparr>" p] lim d by (simp add: q_def bend_def)
  have qp: "unat q \<in> bspan h p" "q \<noteq> p" using q d n(1) by (auto simp: bspan_def bend_def word_less_nat_alt)
  have qn: "q \<notin> set (base # bs)"
  proof
    assume a: "q \<in> set (base # bs)"
    then have "q \<in> set ((X @ [prevp]) @ Y)" using qp(2) unfolding xs by auto
    moreover have "unat q \<in> bspan h q" using a q m(2) inv by (intro own_span) (auto simp: heap_inv_def)
    ultimately show False using ring_disjoint[OF inv, of "X @ [prevp]" p Y] xs qp(1) by auto
  qed
  have bp: "bend ?h' p = unat q" "bend ?h' q = bend h p" using q d qp(2) by (auto simp: bend_def)
  have oth: "bend ?h' x = bend h x" "bspan ?h' x = bspan h x" if "x \<noteq> p" "x \<noteq> q" for x using that by (auto simp: bend_def bspan_def)
  have le: "bend ?h' x \<le> bend h x" if "x \<in> set (base # bs)" for x
  proof (cases "x = p")
    case False
    have "x \<noteq> q" using that qn by auto
    then show ?thesis using oth(1)[OF False] by simp
  qed (use bp(1) qp(1) in \<open>simp add: bspan_def\<close>)
  have inv': "heap_inv base bs ?h'" unfolding heap_inv_def
  proof (intro conjI)
    show "sorted_wrt (\<lambda>a b. bend ?h' a < unat b) (base # bs)"
      using inv le unfolding heap_inv_def by (auto elim!: sorted_wrt_mono_rel[rotated] intro: le_less_trans)
    show "\<forall>b \<in> set bs. 0 < ssize ?h' b \<and> bend ?h' b \<le> unat (brk ?h')"
      using inv le d qn by (auto simp: heap_inv_def word_less_nat_alt intro: le_trans)
    show "freep ?h' \<in> set (base # bs)" unfolding xs by simp
  qed (use inv m(2) qn in \<open>auto simp: heap_inv_def\<close>)
  have "bspan ?h' p \<union> bspan ?h' q = bspan h p" "bspan ?h' p \<inter> bspan ?h' q = {}" using bp qp(1) by (auto simp: bspan_def)
  moreover have "bspan ?h' q \<subseteq> bspan h p" using calculation by blast
  moreover have "bspan ?h' x = bspan h x" if "x \<in> set (X @ prevp # Y)" for x using that m(4) qn unfolding xs by (intro oth) auto
  moreover have "bspan h p \<inter> bspan h x = {}" if "x \<in> set (X @ prevp # Y)" for x
    using ring_disjoint[OF inv, of "X @ [prevp]" p Y] xs that by auto
  ultimately have "bspan ?h' q \<inter> fspan ?h' (base # bs) = {}" "bspan ?h' q \<union> fspan ?h' (base # bs) = fspan h (base # bs)" 
    unfolding xs fspan_def by fastforce+
  then have sp: "bspan ?h' q \<inter> fspan ?h' bs = {}" "bspan ?h' q \<union> fspan ?h' bs = fspan h bs"
    using fspan_base[OF inv] fspan_base[OF inv'] by simp_all
  have "unat p \<in> fspan h bs" "unat q \<in> fspan h bs" using m(1) qp(1) own_span[of h p] n by (force simp: fspan_def)+
  then have "ssize ?h' x = ssize h x" if "unat x \<notin> fspan h bs" for x using that by auto
  moreover have "unat base < unat q" using q m(2) by simp
  ultimately show ?thesis unfolding took_def using inv' sp m(3) bp(2) by (intro exI[of _ q] exI[of _ bs]) simp
qed

lemma fits_take:
  assumes inv: "heap_inv base bs h" and xs: "base # bs = X @ prevp # p # Y" and n: "0 < n" "n \<le> ssize h p"
  shows "\<exists>r h'. malloc_loop (Suc f) grant n prevp p h = Inr (r, h') \<and> took base n (fspan h bs) h r h'"
proof (cases "ssize h p = n")
  case True
  then show ?thesis using take_whole[OF inv xs True] by (simp add: kbind_def gets_def set_sptr_def modify_def ret_def)
next
  case False
  then have "n < ssize h p" using n(2) by simp
  from take_part[OF inv xs n(1) this] show ?thesis using False n(2)
    by (simp add: kbind_def gets_def set_ssize_def modify_def ret_def Let_def)
qed

section \<open>Searching the ring\<close>

lemma ring_pair:
  assumes "heap_inv base bs h" "c \<in> set (base # bs)" "sptr h c \<noteq> base"
  shows "\<exists>X Y. base # bs = X @ c # sptr h c # Y"
proof -
  obtain X Y where xs: "base # bs = X @ c # Y" using assms(2) by (metis in_set_conv_decomp)
  then show ?thesis using ring_next(1)[OF assms(1) xs] assms(3) by (cases Y) auto
qed

lemma malloc_step:
  assumes "ssize h p < n" "p \<noteq> freep h"
  shows "malloc_loop (Suc f) grant n c p h = malloc_loop f grant n p (sptr h p) h"
  using assms by (simp add: kbind_def gets_def not_le[symmetric])

lemma malloc_grow:
  assumes "ssize h (freep h) < n"
  shows "malloc_loop (Suc f) grant n c (freep h) h =
    kbind (morecore grant n) (\<lambda>c. if c = 0 then ret 0 else kbind (gets (\<lambda>h. sptr h c)) (malloc_loop f grant n c)) h"
  using assms by (simp add: kbind_def gets_def not_le[symmetric])

declare malloc_loop.simps [simp del]

lemma malloc_walk:
  assumes inv: "heap_inv base bs h" and n: "0 < n" and c: "c \<in> set (base # bs)" "sptr h c = hd (C @ [z])"
    and C: "links (sptr h) C z" "freep h \<notin> set C" "set C \<subseteq> set (base # bs)"
  shows "(\<exists>r h'. malloc_loop (length C + Suc f) grant n c (hd (C @ [z])) h = Inr (r, h') \<and> took base n (fspan h bs) h r h') \<or>
    (\<forall>x \<in> set C. ssize h x < n) \<and>
    malloc_loop (length C + Suc f) grant n c (hd (C @ [z])) h = malloc_loop (Suc f) grant n (last (c # C)) z h"
  using c C
proof (induction C arbitrary: c)
  case (Cons d C)
  show ?case
  proof (cases "ssize h d \<ge> n")
    case True
    then have "d \<noteq> base" using inv n by (auto simp: heap_inv_def word_less_nat_alt word_le_nat_alt)
    then obtain X Y where "base # bs = X @ c # d # Y" using ring_pair[OF inv Cons.prems(1)] Cons.prems(2) by auto
    from fits_take[OF inv this n True, of "length C + Suc f" grant] show ?thesis by simp
  next
    case False
    have "malloc_loop (length (d # C) + Suc f) grant n c (hd ((d # C) @ [z])) h = malloc_loop (length C + Suc f) grant n d (hd (C @ [z])) h"
      using False Cons.prems malloc_step[of h d n "length C + Suc f" grant c] by auto
    moreover have "sptr h d = hd (C @ [z])" "d \<in> set (base # bs)" using Cons.prems by auto
    ultimately show ?thesis using Cons.IH[of d] Cons.prems False by (auto simp: not_le)
  qed
qed simp

lemma ring_round:
  assumes "heap_inv base bs h"
  shows "\<exists>C. sptr h (freep h) = hd (C @ [freep h]) \<and> links (sptr h) C (freep h) \<and> freep h \<notin> set C \<and>
    set (C @ [freep h]) = set (base # bs) \<and> length C < length (base # bs)"
proof -
  obtain A B where xs: "base # bs = A @ freep h # B" using assms unfolding heap_inv_def by (metis in_set_conv_decomp)
  have "links (sptr h) (A @ freep h # B) base" using assms unfolding heap_inv_def xs by simp
  moreover have "hd (A @ [freep h]) = base" using xs by (cases A) auto
  moreover have "freep h \<notin> set (A @ B)" using ring_sorted(2)[OF assms] unfolding xs by auto
  moreover have "length (B @ A) < length (base # bs)" "set (B @ A @ [freep h]) = set (base # bs)" unfolding xs by auto
  ultimately show ?thesis by (intro exI[of _ "B @ A"]) (auto simp: links_append hd_append split: if_splits)
qed

lemma links_last: "links f (x # xs) z \<Longrightarrow> f (last (x # xs)) = z"
  by (induction xs arbitrary: x) auto

text \<open>One round: a block is found, or every block is too small and the search is back at \<open>freep\<close>.\<close>

lemma malloc_round:
  assumes inv: "heap_inv base bs h" and n: "0 < n" and fuel: "2 ^ 31 + 2 \<le> fuel"
  shows "(\<exists>r h'. malloc_loop fuel grant n (freep h) (sptr h (freep h)) h = Inr (r, h') \<and> took base n (fspan h bs) h r h') \<or>
    (\<forall>x \<in> set bs. ssize h x < n) \<and>
    (\<exists>f. fuel \<le> f + 2 ^ 31 + 3 \<and> malloc_loop fuel grant n (freep h) (sptr h (freep h)) h =
      kbind (morecore grant n) (\<lambda>c. if c = 0 then ret 0 else kbind (gets (\<lambda>h. sptr h c)) (malloc_loop f grant n c)) h)"
proof -
  obtain C where C: "sptr h (freep h) = hd (C @ [freep h])" "links (sptr h) C (freep h)" "freep h \<notin> set C"
      "set (C @ [freep h]) = set (base # bs)" "length C < length (base # bs)" using ring_round[OF inv] by blast
  have f: "freep h \<in> set (base # bs)" using inv by (simp add: heap_inv_def)
  have "length C < 2 ^ 31 + 2" using C(5) ring_length[OF inv] inv by (simp add: heap_inv_def ring_bound_def)
  then obtain f where fu: "fuel = length C + Suc f" "fuel \<le> f + 2 ^ 31 + 3" using fuel
    by (intro that[of "fuel - length C - 1"]) simp_all
  consider (found) "\<exists>r h'. malloc_loop fuel grant n (freep h) (sptr h (freep h)) h = Inr (r, h') \<and> took base n (fspan h bs) h r h'"
    | (none) "\<forall>x \<in> set C. ssize h x < n" 
        "malloc_loop fuel grant n (freep h) (sptr h (freep h)) h = malloc_loop (Suc f) grant n (last (freep h # C)) (freep h) h"
    using malloc_walk[OF inv n f C(1,2,3), of f grant] C(1,4) fu by auto
  then show ?thesis
  proof cases
    case none
    show ?thesis
    proof (cases "ssize h (freep h) \<ge> n")
      case True
      then have "freep h \<noteq> base" using inv n by (auto simp: heap_inv_def word_less_nat_alt word_le_nat_alt)
      moreover have "sptr h (last (freep h # C)) = freep h" using C(1,2) by (intro links_last) simp
      moreover have "last (freep h # C) \<in> set (base # bs)" unfolding C(4)[symmetric] by simp
      ultimately obtain X Y where "base # bs = X @ last (freep h # C) # freep h # Y" using ring_pair[OF inv] by metis
      from fits_take[OF inv this n True] show ?thesis unfolding none(2) by blast
    next
      case False
      then have "\<forall>x \<in> set (base # bs). ssize h x < n" using none(1) unfolding C(4)[symmetric] by auto
      then show ?thesis using none(2) malloc_grow[of h n f grant] False fu(2) by (intro disjI2 conjI exI[of _ f]) (auto simp: not_le)
    qed
  qed simp
qed

end
