(* ===== verification/Spinlock.thy ===== *)
theory Spinlock
  imports Prelude
begin

text \<open>
  \<^verbatim>\<open>spinlock.c\<close>: mutual exclusion locks with the nested interrupt disabling of
  \<^verbatim>\<open>pushcli\<close>/\<^verbatim>\<open>popcli\<close>. The machine state holds the locks, the per-CPU nesting depth and saved
  interrupt flag, the interrupt flag of each CPU and the CPU that executes. The debugging fields
  \<^verbatim>\<open>name\<close> and \<^verbatim>\<open>pcs\<close> of a lock are not part of the state; the stack walk that fills \<^verbatim>\<open>pcs\<close> is
  the pure function \<open>getcallerpcs\<close>.

  The lemmas show that code which acquires and releases locks in a disciplined order never
  panics in here, runs with interrupts off while it holds a lock, and gets the interrupt flag back
  that it started with.
\<close>

section \<open>State\<close>

record spinlock =
  locked :: uint
  lcpu :: "nat option"

record cpu =
  ncli :: int
  intena :: bool

record mach =
  locks :: "lockid \<Rightarrow> spinlock"
  cpus :: "nat \<Rightarrow> cpu"
  iflag :: "nat \<Rightarrow> bool"
  mycpu :: nat

section \<open>Operations\<close>

definition initlock :: "lockid \<Rightarrow> ('a mach_scheme, unit) kmon" where
  "initlock lk = modify (\<lambda>s. s\<lparr>locks := (locks s)(lk := \<lparr>locked = 0, lcpu = None\<rparr>)\<rparr>)"

definition holding :: "lockid \<Rightarrow> 'a mach_scheme \<Rightarrow> bool" where
  "holding lk s \<longleftrightarrow> locked (locks s lk) \<noteq> 0 \<and> lcpu (locks s lk) = Some (mycpu s)"

definition readeflags :: "'a mach_scheme \<Rightarrow> bool" where
  "readeflags s = iflag s (mycpu s)"

definition cli :: "('a mach_scheme, unit) kmon" where
  "cli = modify (\<lambda>s. s\<lparr>iflag := (iflag s)(mycpu s := False)\<rparr>)"

definition sti :: "('a mach_scheme, unit) kmon" where
  "sti = modify (\<lambda>s. s\<lparr>iflag := (iflag s)(mycpu s := True)\<rparr>)"

definition set_cpu :: "(cpu \<Rightarrow> cpu) \<Rightarrow> ('a mach_scheme, unit) kmon" where
  "set_cpu f = modify (\<lambda>s. s\<lparr>cpus := (cpus s)(mycpu s := f (cpus s (mycpu s)))\<rparr>)"

definition pushcli :: "('a mach_scheme, unit) kmon" where
  "pushcli =
    kbind (gets readeflags) (\<lambda>eflags.
    kseq cli (
    kbind (gets (\<lambda>s. ncli (cpus s (mycpu s)))) (\<lambda>n.
    kseq (set_cpu (\<lambda>c. c\<lparr>ncli := n + 1\<rparr>)) (
    kwhen (n = 0) (set_cpu (\<lambda>c. c\<lparr>intena := eflags\<rparr>))))))"

definition popcli :: "('a mach_scheme, unit) kmon" where
  "popcli =
    kbind (gets readeflags) (\<lambda>eflags.
    if eflags then panic ''popcli - interruptible''
    else
      kseq (set_cpu (\<lambda>c. c\<lparr>ncli := ncli c - 1\<rparr>)) (
      kbind (gets (\<lambda>s. cpus s (mycpu s))) (\<lambda>c.
      if ncli c < 0 then panic ''popcli''
      else kwhen (ncli c = 0 \<and> intena c) sti)))"

definition xchg_locked :: "lockid \<Rightarrow> uint \<Rightarrow> ('a mach_scheme, uint) kmon" where
  "xchg_locked lk v =
    kbind (gets (\<lambda>s. locked (locks s lk))) (\<lambda>old.
    kseq (modify (\<lambda>s. s\<lparr>locks := (locks s)(lk := (locks s lk)\<lparr>locked := v\<rparr>)\<rparr>)) (ret old))"

text \<open>
  The spin loop \<^verbatim>\<open>while(xchg(&lk->locked, 1) != 0)\<close>: one exchange wins a free lock; on a lock
  that another CPU holds the exchange changes nothing and the loop spins until that CPU releases
  it, which is the outcome \<open>Spin\<close>.
\<close>

definition acquire :: "lockid \<Rightarrow> ('a mach_scheme, unit) kmon" where
  "acquire lk =
    kseq pushcli (
    kbind (gets (holding lk)) (\<lambda>h.
    if h then panic ''acquire''
    else
      kbind (xchg_locked lk 1) (\<lambda>old.
      if old \<noteq> 0 then stop (Spin lk)
      else modify (\<lambda>s. s\<lparr>locks := (locks s)(lk := (locks s lk)\<lparr>lcpu := Some (mycpu s)\<rparr>)\<rparr>))))"

definition release :: "lockid \<Rightarrow> ('a mach_scheme, unit) kmon" where
  "release lk =
    kbind (gets (holding lk)) (\<lambda>h.
    if \<not> h then panic ''release''
    else
      kseq (modify (\<lambda>s. s\<lparr>locks := (locks s)(lk := (locks s lk)\<lparr>lcpu := None\<rparr>)\<rparr>)) (
      kbind (xchg_locked lk 0) (\<lambda>_. popcli)))"

text \<open>
  \<open>getcallerpcs\<close> follows the saved frame pointers from \<^verbatim>\<open>v - 2\<close> words through kernel memory
  (\<open>rd\<close> reads the word at an address) and fills the rest of the ten entries with zero.
\<close>

definition KERNBASE :: uint where [layout]: "KERNBASE = 0x80000000"

fun frames :: "nat \<Rightarrow> (uint \<Rightarrow> uint) \<Rightarrow> uint \<Rightarrow> uint list" where
  "frames 0 rd ebp = []"
| "frames (Suc n) rd ebp =
    (if ebp = 0 \<or> ebp < KERNBASE \<or> ebp = 0xffffffff then []
     else rd (ebp + 4) # frames n rd (rd ebp))"

definition getcallerpcs :: "(uint \<Rightarrow> uint) \<Rightarrow> uint \<Rightarrow> uint list" where
  "getcallerpcs rd v =
    (let pcs = frames 10 rd (v - 8) in pcs @ replicate (10 - length pcs) 0)"

section \<open>Which locks the running CPU holds\<close>

text \<open>
  \<open>mach_holds H ie s\<close>: the locks of \<open>H\<close> are exactly the taken ones and the running CPU holds
  them; the nesting depth is their number; interrupts are off as long as one is held, and \<open>ie\<close> is
  the flag that the outermost \<^verbatim>\<open>popcli\<close> restores.
\<close>

definition mach_holds :: "lockid set \<Rightarrow> bool \<Rightarrow> 'a mach_scheme \<Rightarrow> bool" where
  "mach_holds H ie s \<longleftrightarrow>
    finite H \<and>
    (\<forall>l. locked (locks s l) = (if l \<in> H then 1 else 0)) \<and>
    (\<forall>l. lcpu (locks s l) = (if l \<in> H then Some (mycpu s) else None)) \<and>
    ncli (cpus s (mycpu s)) = int (card H) \<and>
    (if H = {} then iflag s (mycpu s) = ie
     else \<not> iflag s (mycpu s) \<and> intena (cpus s (mycpu s)) = ie)"

definition acq :: "lockid \<Rightarrow> 'a mach_scheme \<Rightarrow> 'a mach_scheme" where
  "acq lk s =
    s\<lparr>locks := (locks s)(lk := \<lparr>locked = 1, lcpu = Some (mycpu s)\<rparr>),
      cpus := (cpus s)(mycpu s := \<lparr>ncli = ncli (cpus s (mycpu s)) + 1,
        intena = (if ncli (cpus s (mycpu s)) = 0 then iflag s (mycpu s)
                  else intena (cpus s (mycpu s)))\<rparr>),
      iflag := (iflag s)(mycpu s := False)\<rparr>"

definition rel :: "lockid \<Rightarrow> 'a mach_scheme \<Rightarrow> 'a mach_scheme" where
  "rel lk s =
    s\<lparr>locks := (locks s)(lk := \<lparr>locked = 0, lcpu = None\<rparr>),
      cpus := (cpus s)(mycpu s := (cpus s (mycpu s))\<lparr>ncli := ncli (cpus s (mycpu s)) - 1\<rparr>),
      iflag := (iflag s)(mycpu s :=
        (ncli (cpus s (mycpu s)) = 1 \<and> intena (cpus s (mycpu s))) \<or> iflag s (mycpu s))\<rparr>"

lemma mach_holds_holding: "mach_holds H ie s \<Longrightarrow> holding l s \<longleftrightarrow> l \<in> H"
  by (auto simp: mach_holds_def holding_def)

lemma mach_holds_card_pos: "mach_holds H ie s \<Longrightarrow> l \<in> H \<Longrightarrow> 1 \<le> card H"
  by (auto simp: mach_holds_def Suc_le_eq card_gt_0_iff)

lemma spinlock_upd: "(r :: spinlock)\<lparr>locked := a, lcpu := b\<rparr> = \<lparr>locked = a, lcpu = b\<rparr>"
  by (cases r) simp

lemma acquire_eq:
  assumes "mach_holds H ie s" "l \<notin> H"
  shows "acquire l s = Inr ((), acq l s)"
proof -
  have "locked (locks s l) = 0" "lcpu (locks s l) = None"
    using assms by (simp_all add: mach_holds_def)
  then show ?thesis
    by (cases "cpus s (mycpu s)"; cases "ncli (cpus s (mycpu s)) = 0")
      (simp_all add: spinlock_upd acquire_def pushcli_def kmon_defs cli_def set_cpu_def holding_def
        readeflags_def xchg_locked_def acq_def)
qed

lemma release_eq:
  assumes "mach_holds H ie s" "l \<in> H"
  shows "release l s = Inr ((), rel l s)"
proof -
  have H: "locked (locks s l) \<noteq> 0" "lcpu (locks s l) = Some (mycpu s)" "\<not> iflag s (mycpu s)"
    "ncli (cpus s (mycpu s)) = int (card H)"
    using assms by (auto simp: mach_holds_def split: if_splits)
  moreover have "card H \<ge> 1" using assms by (rule mach_holds_card_pos)
  ultimately show ?thesis
    by (auto simp: release_def popcli_def kmon_defs sti_def set_cpu_def holding_def readeflags_def
        xchg_locked_def rel_def fun_upd_def intro!: mach.equality ext cpu.equality)
qed

lemma mach_holds_acq:
  assumes "mach_holds H ie s" "l \<notin> H"
  shows "mach_holds (insert l H) ie (acq l s)"
  using assms by (auto simp: mach_holds_def acq_def split: if_splits)

lemma mach_holds_rel:
  assumes "mach_holds H ie s" "l \<in> H"
  shows "mach_holds (H - {l}) ie (rel l s)"
proof -
  have "card H \<ge> 1" using assms by (rule mach_holds_card_pos)
  moreover have "H - {l} = {} \<longleftrightarrow> card H = 1"
    using assms by (auto simp: mach_holds_def card_1_singleton_iff)
  moreover have "int (card (H - {l})) = int (card H) - 1"
    using assms calculation by (simp add: mach_holds_def of_nat_diff)
  ultimately show ?thesis using assms
    by (auto simp: mach_holds_def rel_def split: if_splits)
qed

lemma mach_holds_rel_insert:
  "mach_holds (insert l H) ie s \<Longrightarrow> l \<notin> H \<Longrightarrow> mach_holds H ie (rel l s)"
  using mach_holds_rel[of "insert l H" ie s l] by simp

lemma wp_acquire:
  "mach_holds H ie s \<Longrightarrow> l \<notin> H \<Longrightarrow> wp (acquire l) Q s \<longleftrightarrow> Q () (acq l s)"
  by (simp add: wp_def acquire_eq)

lemma wp_release:
  "mach_holds H ie s \<Longrightarrow> l \<in> H \<Longrightarrow> wp (release l) Q s \<longleftrightarrow> Q () (rel l s)"
  by (simp add: wp_def release_eq)

lemma acquire_twice_panics:
  assumes "mach_holds H ie s" "l \<in> H"
  shows "acquire l s = Inl (Panic ''acquire'')"
  using assms
  by (auto simp: acquire_def pushcli_def kmon_defs cli_def set_cpu_def holding_def readeflags_def
      mach_holds_def)

lemma release_unheld_panics:
  assumes "mach_holds H ie s" "l \<notin> H"
  shows "release l s = Inl (Panic ''release'')"
  using assms by (auto simp: release_def kmon_defs holding_def mach_holds_def)

section \<open>Traces of lock operations\<close>

text \<open>
  The file system is modelled over its own state; its calls into this component are a trace.
  \<open>lock_trace H tr\<close> is the set of locks held after \<open>tr\<close>, if every call of it respects the
  discipline: no lock is taken twice, none is released that is not held.
\<close>

datatype lockop = Acq lockid | Rel lockid

fun run_lockops :: "lockop list \<Rightarrow> ('a mach_scheme, unit) kmon" where
  "run_lockops [] = ret ()"
| "run_lockops (Acq l # tr) = kseq (acquire l) (run_lockops tr)"
| "run_lockops (Rel l # tr) = kseq (release l) (run_lockops tr)"

fun lock_trace :: "lockid set \<Rightarrow> lockop list \<Rightarrow> lockid set option" where
  "lock_trace H [] = Some H"
| "lock_trace H (Acq l # tr) = (if l \<in> H then None else lock_trace (insert l H) tr)"
| "lock_trace H (Rel l # tr) = (if l \<in> H then lock_trace (H - {l}) tr else None)"

lemma lock_trace_append:
  "lock_trace H (xs @ ys) = (case lock_trace H xs of None \<Rightarrow> None | Some H' \<Rightarrow> lock_trace H' ys)"
  by (induction H xs rule: lock_trace.induct) auto

lemma run_lockops_ok:
  "mach_holds H ie s \<Longrightarrow> lock_trace H tr = Some H' \<Longrightarrow>
    \<exists>t. run_lockops tr s = Inr ((), t) \<and> mach_holds H' ie t"
proof (induction H tr arbitrary: s rule: lock_trace.induct)
  case (1 H)
  then show ?case by (simp add: ret_def)
next
  case (2 H l tr)
  then have "l \<notin> H" by (auto split: if_splits)
  with 2 show ?case
    using mach_holds_acq[of H ie s l] by (auto simp: kbind_def acquire_eq split: if_splits)
next
  case (3 H l tr)
  then have "l \<in> H" by (auto split: if_splits)
  with 3 show ?case
    using mach_holds_rel[of H ie s l] by (auto simp: kbind_def release_eq split: if_splits)
qed

lemma run_lockops_bad:
  "mach_holds H ie s \<Longrightarrow> lock_trace H tr = None \<Longrightarrow>
    \<exists>msg \<in> {''acquire'', ''release''}. run_lockops tr s = Inl (Panic msg)"
proof (induction H tr arbitrary: s rule: lock_trace.induct)
  case (1 H)
  then show ?case by simp
next
  case (2 H l tr)
  then show ?case
    using mach_holds_acq[of H ie s l]
    by (cases "l \<in> H") (auto simp: kbind_def acquire_eq acquire_twice_panics)
next
  case (3 H l tr)
  then show ?case
    using mach_holds_rel[of H ie s l]
    by (cases "l \<in> H") (auto simp: kbind_def release_eq release_unheld_panics)
qed

lemma length_frames: "length (frames n rd ebp) \<le> n"
  by (induction n rd ebp rule: frames.induct) auto

lemma frames_outside: "ebp < KERNBASE \<Longrightarrow> frames n rd ebp = []"
  by (cases n) auto

section \<open>Properties\<close>

text \<open>
  C11. A sequence of \<^verbatim>\<open>acquire\<close> and \<^verbatim>\<open>release\<close> calls on a CPU that holds exactly the locks \<open>H\<close>
  runs to completion precisely when it respects the lock discipline; it then leaves exactly the
  predicted locks held, and once none is held the interrupt flag is the one from before the first
  lock was taken. When the discipline is broken the run ends in \<^verbatim>\<open>panic("acquire")\<close> or
  \<^verbatim>\<open>panic("release")\<close>.
\<close>

theorem lock_discipline:
  assumes "mach_holds H ie s"
  shows "case lock_trace H tr of
      Some H' \<Rightarrow> (\<exists>t. run_lockops tr s = Inr ((), t) \<and> mach_holds H' ie t \<and>
                     (H' = {} \<longrightarrow> iflag t (mycpu t) = ie))
    | None \<Rightarrow> run_lockops tr s \<in> {Inl (Panic ''acquire''), Inl (Panic ''release'')}"
proof (cases "lock_trace H tr")
  case None
  with run_lockops_bad[OF assms None] show ?thesis by auto
next
  case (Some H')
  obtain t where "run_lockops tr s = Inr ((), t)" "mach_holds H' ie t"
    using run_lockops_ok[OF assms Some] by blast
  moreover from this have "H' = {} \<longrightarrow> iflag t (mycpu t) = ie"
    by (simp add: mach_holds_def)
  ultimately show ?thesis using Some by auto
qed

definition mach0 :: mach where
  "mach0 = \<lparr>locks = (\<lambda>_. \<lparr>locked = 0, lcpu = None\<rparr>), cpus = (\<lambda>_. \<lparr>ncli = 0, intena = False\<rparr>),
    iflag = (\<lambda>_. True), mycpu = 0\<rparr>"

theorem lock_discipline_witness:
  "mach_holds {} True mach0 \<and>
   (\<exists>t. run_lockops [Acq BcacheLock, Acq PtableLock, Rel PtableLock, Rel BcacheLock] mach0 = Inr ((), t)
      \<and> iflag t (mycpu t)) \<and>
   run_lockops [Acq LogLock, Acq LogLock] mach0 \<in> {Inl (Panic ''acquire''), Inl (Panic ''release'')}"
proof -
  have m: "mach_holds {} True mach0" by (simp add: mach_holds_def mach0_def)
  show ?thesis
    using m lock_discipline[OF m, of "[Acq BcacheLock, Acq PtableLock, Rel PtableLock, Rel BcacheLock]"]
      lock_discipline[OF m, of "[Acq LogLock, Acq LogLock]"]
    by auto
qed



end
