(* ===== verification/Kalloc.thy ===== *)
theory Kalloc
  imports Spinlock "HOL-Library.Multiset"
begin

text \<open>
  \<^verbatim>\<open>kalloc.c\<close>: the allocator of physical pages. Kernel memory is a store from addresses to
  bytes; a free page holds the address of the next free page in its first word, as
  \<^verbatim>\<open>struct run\<close> does. \<^verbatim>\<open>end\<close>, the first address after the kernel image, is placed by the linker
  and is a parameter.

  The lemmas relate the chain of free pages in memory to a list of page addresses and show that
  \<^verbatim>\<open>kfree\<close> pushes and \<^verbatim>\<open>kalloc\<close> pops that list, so no page is handed out twice.
\<close>

section \<open>Memory\<close>

definition PGSIZE :: uint where [layout]: "PGSIZE = 4096"
definition PHYSTOP :: uint where [layout]: "PHYSTOP = 0xE000000"
definition EXTMEM :: uint where [layout]: "EXTMEM = 0x100000"
definition DEVSPACE :: uint where [layout]: "DEVSPACE = 0xFE000000"

definition v2p :: "uint \<Rightarrow> uint" where "v2p a = a - KERNBASE"
definition p2v :: "uint \<Rightarrow> uint" where "p2v a = a + KERNBASE"

definition PGROUNDUP :: "uint \<Rightarrow> uint" where
  "PGROUNDUP sz = (sz + PGSIZE - 1) AND NOT (PGSIZE - 1)"

definition PGROUNDDOWN :: "uint \<Rightarrow> uint" where
  "PGROUNDDOWN a = a AND NOT (PGSIZE - 1)"

type_synonym memory = "uint \<Rightarrow> uchar"

definition load32 :: "memory \<Rightarrow> uint \<Rightarrow> uint" where
  "load32 m a = ucast (m a) OR push_bit 8 (ucast (m (a + 1))) OR push_bit 16 (ucast (m (a + 2)))
    OR push_bit 24 (ucast (m (a + 3)))"

definition store32 :: "memory \<Rightarrow> uint \<Rightarrow> uint \<Rightarrow> memory" where
  "store32 m a w = m(a := ucast w, a + 1 := ucast (drop_bit 8 w), a + 2 := ucast (drop_bit 16 w),
    a + 3 := ucast (drop_bit 24 w))"

definition memset_at :: "memory \<Rightarrow> uint \<Rightarrow> uchar \<Rightarrow> uint \<Rightarrow> memory" where
  "memset_at m dst c n = (\<lambda>a. if a - dst < n then c else m a)"

section \<open>State and operations\<close>

record kmemst = mach +
  mem :: memory
  use_lock :: bool
  freelist :: uint

definition kfree :: "uint \<Rightarrow> uint \<Rightarrow> ('a kmemst_scheme, unit) kmon" where
  "kfree kend v =
    (if v mod PGSIZE \<noteq> 0 \<or> v < kend \<or> v2p v \<ge> PHYSTOP then panic ''kfree''
     else
      kseq (modify (\<lambda>s. s\<lparr>mem := memset_at (mem s) v 1 PGSIZE\<rparr>)) (
      kbind (gets use_lock) (\<lambda>ul.
      kseq (kwhen ul (acquire KmemLock)) (
      kseq (modify (\<lambda>s. s\<lparr>mem := store32 (mem s) v (freelist s)\<rparr>)) (
      kseq (modify (\<lambda>s. s\<lparr>freelist := v\<rparr>)) (
      kwhen ul (release KmemLock)))))))"

definition kalloc :: "('a kmemst_scheme, uint) kmon" where
  "kalloc =
    kbind (gets use_lock) (\<lambda>ul.
    kseq (kwhen ul (acquire KmemLock)) (
    kbind (gets freelist) (\<lambda>r.
    kseq (kwhen (r \<noteq> 0) (modify (\<lambda>s. s\<lparr>freelist := load32 (mem s) r\<rparr>))) (
    kseq (kwhen ul (release KmemLock)) (
    ret r)))))"

text \<open>
  The loop of \<^verbatim>\<open>freerange\<close> steps through the page addresses; its bound is the number of pages of
  the address space, and running past it is the outcome \<open>Diverge\<close>.
\<close>

fun freerange_loop :: "nat \<Rightarrow> uint \<Rightarrow> uint \<Rightarrow> uint \<Rightarrow> ('a kmemst_scheme, unit) kmon" where
  "freerange_loop 0 kend p vend = stop Diverge"
| "freerange_loop (Suc n) kend p vend =
    (if p + PGSIZE \<le> vend
     then kseq (kfree kend p) (freerange_loop n kend (p + PGSIZE) vend)
     else ret ())"

definition freerange :: "uint \<Rightarrow> uint \<Rightarrow> uint \<Rightarrow> ('a kmemst_scheme, unit) kmon" where
  "freerange kend vstart vend = freerange_loop (2 ^ 20) kend (PGROUNDUP vstart) vend"

definition kinit1 :: "uint \<Rightarrow> uint \<Rightarrow> uint \<Rightarrow> ('a kmemst_scheme, unit) kmon" where
  "kinit1 kend vstart vend =
    kseq (initlock KmemLock) (
    kseq (modify (\<lambda>s. s\<lparr>use_lock := False\<rparr>)) (
    freerange kend vstart vend))"

definition kinit2 :: "uint \<Rightarrow> uint \<Rightarrow> uint \<Rightarrow> ('a kmemst_scheme, unit) kmon" where
  "kinit2 kend vstart vend =
    kseq (freerange kend vstart vend) (modify (\<lambda>s. s\<lparr>use_lock := True\<rparr>))"

section \<open>Pages and words in memory\<close>

definition aligned :: "uint \<Rightarrow> bool" where
  "aligned v \<longleftrightarrow> v mod PGSIZE = 0"

lemma aligned_unat: "aligned v \<longleftrightarrow> unat v mod 4096 = 0"
  by (simp add: aligned_def PGSIZE_def unat_eq_zero[symmetric] unat_mod)

lemma aligned_add:
  assumes "aligned v" "unat i < 4096"
  shows "unat (v + i) = unat v + unat i"
proof -
  have v: "unat v < 4294967296" using unsigned_less[of v] by simp
  have "unat v mod 4096 = 0" using assms by (simp add: aligned_unat)
  then obtain k where k: "unat v = 4096 * k" by (auto simp: mod_eq_0_iff_dvd)
  then have "k < 1048576" using v by simp
  then have "4096 * k + unat i < 4294967296" using assms(2) by linarith
  then show ?thesis using k by (simp add: unat_word_ariths)
qed

lemma aligned_add_div:
  assumes "aligned v" "unat i < 4096"
  shows "unat (v + i) div 4096 = unat v div 4096"
proof -
  have "unat v mod 4096 = 0" using assms(1) by (simp add: aligned_unat)
  then obtain k where "unat v = 4096 * k" by (auto simp: mod_eq_0_iff_dvd)
  with assms show ?thesis by (simp add: aligned_add)
qed

lemma aligned_inj:
  assumes "aligned v" "aligned x" "unat v div 4096 = unat x div 4096"
  shows "v = x"
  using assms unfolding aligned_unat
  by (metis add_0_right mult_div_mod_eq word_unat_eq_iff)

lemma aligned_apart:
  assumes "aligned v" "aligned x" "v \<noteq> x" "unat i < 4096" "unat j < 4096"
  shows "v + i \<noteq> x + j"
  using assms aligned_add_div aligned_inj by metis

lemma memset_at_apart:
  assumes "aligned v" "aligned x" "v \<noteq> x" "unat j < 4096"
  shows "memset_at m v c PGSIZE (x + j) = m (x + j)"
proof -
  have "\<not> (x + j) - v < PGSIZE"
  proof
    assume "(x + j) - v < PGSIZE"
    then have "unat ((x + j) - v) < 4096" by (simp add: PGSIZE_def word_less_nat_alt)
    then have "v + ((x + j) - v) \<noteq> x + j" using aligned_apart assms by blast
    then show False by simp
  qed
  then show ?thesis by (simp add: memset_at_def)
qed

lemma store32_apart:
  assumes "aligned v" "aligned x" "v \<noteq> x" "unat j < 4096"
  shows "store32 m v w (x + j) = m (x + j)"
  using assms aligned_apart[OF assms(1,2,3), of 0 j] aligned_apart[OF assms(1,2,3), of 1 j]
    aligned_apart[OF assms(1,2,3), of 2 j] aligned_apart[OF assms(1,2,3), of 3 j]
  by (simp add: store32_def eq_commute)

lemma load32_agree:
  assumes "\<And>j. unat j < 4096 \<Longrightarrow> m (x + j) = m' (x + j)"
  shows "load32 m x = load32 m' x"
  using assms[of 0] assms[of 1] assms[of 2] assms[of 3] by (simp add: load32_def)

lemma load32_store32: "load32 (store32 m a w) a = w"
proof -
  have "a + 1 \<noteq> a" "a + 2 \<noteq> a" "a + 3 \<noteq> a" "a + 2 \<noteq> a + 1" "a + 3 \<noteq> a + 1" "a + 3 \<noteq> a + 2"
    by (simp_all add: add_eq_0_iff)
  then show ?thesis using join32_split[of w] by (simp add: load32_def store32_def join32_def)
qed

section \<open>The chain of free pages\<close>

text \<open>
  \<open>free_chain m h ps\<close>: starting at \<open>h\<close> and following the first word of each page, memory
  lists the pages \<open>ps\<close>; \<open>kmem_rep kend s ps\<close> adds that they are distinct pages the allocator
  may hand out.
\<close>

fun free_chain :: "memory \<Rightarrow> uint \<Rightarrow> uint list \<Rightarrow> bool" where
  "free_chain m h [] \<longleftrightarrow> h = 0"
| "free_chain m h (p # ps) \<longleftrightarrow> h = p \<and> p \<noteq> 0 \<and> free_chain m (load32 m p) ps"

definition kpage :: "uint \<Rightarrow> uint \<Rightarrow> bool" where
  "kpage kend v \<longleftrightarrow> v mod PGSIZE = 0 \<and> kend \<le> v \<and> v2p v < PHYSTOP"

definition kmem_rep :: "uint \<Rightarrow> 'a kmemst_scheme \<Rightarrow> uint list \<Rightarrow> bool" where
  "kmem_rep kend s ps \<longleftrightarrow>
    free_chain (mem s) (freelist s) ps \<and> distinct ps \<and> list_all (kpage kend) ps"

lemma kpage_aligned: "kpage kend v \<Longrightarrow> aligned v"
  by (simp add: kpage_def aligned_def)

lemma free_chain_agree:
  "\<forall>p\<in>set ps. load32 m p = load32 m' p \<Longrightarrow> free_chain m h ps = free_chain m' h ps"
  by (induction ps arbitrary: h) auto

lemma kmem_lock_upd [simp]:
  "mem (acq l s) = mem s" "freelist (acq l s) = freelist s" "use_lock (acq l s) = use_lock s"
  "mem (rel l s) = mem s" "freelist (rel l s) = freelist s" "use_lock (rel l s) = use_lock s"
  "acq l (mem_update f s) = mem_update f (acq l s)"
  "acq l (freelist_update g s) = freelist_update g (acq l s)"
  "rel l (mem_update f s) = mem_update f (rel l s)"
  "rel l (freelist_update g s) = freelist_update g (rel l s)"
  by (simp_all add: acq_def rel_def)

lemma mach_holds_kmem [simp]:
  "mach_holds H ie (mem_update f s) = mach_holds H ie s"
  "mach_holds H ie (freelist_update g s) = mach_holds H ie s"
  by (simp_all add: mach_holds_def)

text \<open>
  The lock is taken only once \<^verbatim>\<open>kinit2\<close> has run. \<open>kmem_lock s\<close> is the state after the
  bracketing \<^verbatim>\<open>acquire\<close>/\<^verbatim>\<open>release\<close>.
\<close>

definition kmem_lock :: "'a kmemst_scheme \<Rightarrow> 'a kmemst_scheme" where
  "kmem_lock s = (if use_lock s then rel KmemLock (acq KmemLock s) else s)"

lemma kmem_lock_sel [simp]:
  "mem (kmem_lock s) = mem s" "freelist (kmem_lock s) = freelist s"
  "use_lock (kmem_lock s) = use_lock s"
  by (simp_all add: kmem_lock_def)

lemma mach_holds_kmem_lock:
  "mach_holds H ie s \<Longrightarrow> KmemLock \<notin> H \<Longrightarrow> mach_holds H ie (kmem_lock s)"
  by (simp add: kmem_lock_def mach_holds_acq mach_holds_rel_insert)

lemma kfree_eq:
  assumes "mach_holds H ie s" "KmemLock \<notin> H" "kpage kend v"
  shows "kfree kend v s =
    Inr ((), (kmem_lock s)\<lparr>mem := store32 (memset_at (mem s) v 1 PGSIZE) v (freelist s),
      freelist := v\<rparr>)"
  using assms acquire_eq[of H ie "mem_update (\<lambda>_. memset_at (mem s) v 1 PGSIZE) s" KmemLock]
    release_eq[of "insert KmemLock H" ie
      "acq KmemLock s\<lparr>mem := store32 (memset_at (mem s) v 1 PGSIZE) v (freelist s), freelist := v\<rparr>"
      KmemLock]
    mach_holds_acq[OF assms(1,2)]
  by (cases "use_lock s")
    (auto simp: kfree_def kpage_def kmon_defs kmem_lock_def not_le[symmetric])

lemma kfree_rejects:
  "\<not> kpage kend v \<Longrightarrow> kfree kend v s = Inl (Panic ''kfree'')"
  by (cases "v mod PGSIZE = 0") (simp_all add: kfree_def kpage_def stop_def not_less not_le[symmetric])

lemma kalloc_eq:
  assumes "mach_holds H ie s" "KmemLock \<notin> H"
  shows "kalloc s = Inr (freelist s,
    (kmem_lock s)\<lparr>freelist := if freelist s = 0 then 0 else load32 (mem s) (freelist s)\<rparr>)"
  using assms acquire_eq[OF assms] mach_holds_acq[OF assms]
    release_eq[of "insert KmemLock H" ie "acq KmemLock s" KmemLock]
    release_eq[of "insert KmemLock H" ie
      "acq KmemLock s\<lparr>freelist := load32 (mem s) (freelist s)\<rparr>" KmemLock]
  by (cases "use_lock s"; cases "freelist s = 0")
    (auto simp: kalloc_def kmon_defs kmem_lock_def intro!: kmemst.equality)

lemma kfree_rep:
  assumes "mach_holds H ie s" "KmemLock \<notin> H" "kmem_rep kend s ps" "kpage kend v" "v \<notin> set ps"
    "v \<noteq> 0"
  shows "\<exists>t. kfree kend v s = Inr ((), t) \<and> kmem_rep kend t (v # ps) \<and> mach_holds H ie t"
proof -
  let ?m = "store32 (memset_at (mem s) v 1 PGSIZE) v (freelist s)"
  have al: "aligned v" "\<And>p. p \<in> set ps \<Longrightarrow> aligned p"
    using assms by (auto simp: kmem_rep_def list_all_iff dest: kpage_aligned)
  have "load32 ?m p = load32 (mem s) p" if "p \<in> set ps" for p
    using al that assms(5)
    by (intro load32_agree) (metis memset_at_apart store32_apart)
  then have "free_chain ?m (freelist s) ps"
    using assms(3) by (simp add: kmem_rep_def free_chain_agree[of ps ?m "mem s"])
  then show ?thesis
    using assms mach_holds_kmem_lock[OF assms(1,2)]
    by (simp add: kfree_eq kmem_rep_def load32_store32)
qed

lemma kalloc_rep:
  assumes "mach_holds H ie s" "KmemLock \<notin> H" "kmem_rep kend s ps"
  shows "\<exists>t. kalloc s = Inr (case ps of [] \<Rightarrow> 0 | p # _ \<Rightarrow> p, t) \<and> kmem_rep kend t (tl ps) \<and>
    mach_holds H ie t"
  using assms mach_holds_kmem_lock[OF assms(1,2)]
  by (cases ps) (auto simp: kalloc_eq kmem_rep_def)

lemma and_not_page_mask: "(x :: uint) AND - 4096 = x - x mod 4096"
proof -
  have m: "(- 4096 :: uint) = NOT (mask 12)" by (simp add: mask_eq_exp_minus_1)
  have "(x AND NOT (mask 12)) + (x AND mask 12) = (x AND NOT (mask 12)) OR (x AND mask 12)"
    by (rule disjunctive_add_eq_or) (simp add: bit_eq_iff bit_simps)
  also have "\<dots> = x" by (auto simp: bit_eq_iff bit_simps)
  finally have "x AND NOT (mask 12) = x - (x AND mask 12)" by (simp add: eq_diff_eq)
  moreover have "x AND mask 12 = x mod 4096"
    using take_bit_eq_mask[of 12 x] take_bit_eq_mod[of 12 x] by simp
  ultimately show ?thesis by (simp only: m)
qed

lemma unat_PGROUNDDOWN: "unat (PGROUNDDOWN a) = unat a - unat a mod 4096"
proof -
  have "a mod 4096 \<le> a" by (simp add: word_le_nat_alt unat_mod)
  then show ?thesis
    by (simp add: PGROUNDDOWN_def PGSIZE_def and_not_page_mask unat_sub unat_mod)
qed

lemma PGROUNDUP_down: "PGROUNDUP sz = PGROUNDDOWN (sz + 4095)"
  by (simp add: PGROUNDUP_def PGROUNDDOWN_def PGSIZE_def add.commute)

lemma unat_PGROUNDUP:
  assumes "unat sz + 4095 < 2 ^ 32"
  shows "unat (PGROUNDUP sz) = (unat sz + 4095) div 4096 * 4096"
  using assms by (simp add: PGROUNDUP_down unat_PGROUNDDOWN minus_mod_eq_div_mult unat_word_ariths)

lemma aligned_PGROUNDDOWN: "aligned (PGROUNDDOWN v)"
  by (simp add: aligned_unat unat_PGROUNDDOWN minus_mod_eq_mult_div)

lemma aligned_PGROUNDUP: "aligned (PGROUNDUP v)"
  by (simp add: PGROUNDUP_down aligned_PGROUNDDOWN)

section \<open>Filling the free list\<close>

definition pages_from :: "uint \<Rightarrow> nat \<Rightarrow> uint list" where
  "pages_from p k = map (\<lambda>i. p + 4096 * of_nat i) [0..<k]"

lemma pages_from_Suc: "pages_from p (Suc k) = p # pages_from (p + 4096) k"
  unfolding pages_from_def
  by (simp add: map_upt_Suc algebra_simps del: upt_Suc)

text \<open>The direct map of physical memory: \<^verbatim>\<open>freerange\<close> is called on parts of it only.\<close>

definition phys_end :: nat where
  "phys_end = unat KERNBASE + unat PHYSTOP"

lemma kpage_range:
  assumes "aligned p" "kend \<le> p" "KERNBASE \<le> p" "unat p < phys_end"
  shows "kpage kend p"
proof -
  have "unat (v2p p) = unat p - unat KERNBASE"
    using assms(3) by (simp add: v2p_def unat_sub)
  then show ?thesis using assms
    by (auto simp: kpage_def aligned_def word_less_nat_alt word_le_nat_alt phys_end_def)
qed

lemma not_kpage_0: "\<not> kpage kend 0"
  by (simp add: kpage_def v2p_def layout)

lemma freerange_loop_rep:
  assumes "mach_holds H ie s" "KmemLock \<notin> H" "kmem_rep kend s ps"
    "aligned p" "kend \<le> p" "KERNBASE \<le> p" "unat vend \<le> phys_end"
    "unat p + 4096 * k \<le> unat vend" "unat vend < unat p + 4096 * Suc k"
    "set (pages_from p k) \<inter> set ps = {}" "distinct (pages_from p k)" "k < n"
  shows "\<exists>t. freerange_loop n kend p vend s = Inr ((), t) \<and>
    kmem_rep kend t (rev (pages_from p k) @ ps) \<and> mach_holds H ie t"
  using assms
proof (induction k arbitrary: n p s ps)
  case 0
  then obtain n' where n: "n = Suc n'" by (cases n) auto
  have "unat p + 4096 < 2 ^ 32" using 0 by (simp add: phys_end_def layout)
  then have "unat (p + PGSIZE) = unat p + 4096" by (simp add: unat_word_ariths PGSIZE_def)
  then have "\<not> p + PGSIZE \<le> vend" using 0 by (simp add: word_le_nat_alt)
  then show ?case using 0 n by (simp add: ret_def pages_from_def)
next
  case (Suc k)
  then obtain n' where n: "n = Suc n'" by (cases n) auto
  have b: "unat p + 4096 \<le> unat vend" "unat p < phys_end" "unat p + 4096 < 2 ^ 32"
    using Suc.prems by (auto simp: phys_end_def layout)
  have u: "unat (p + PGSIZE) = unat p + 4096" using b by (simp add: unat_word_ariths PGSIZE_def)
  have kp: "kpage kend p" using kpage_range Suc.prems(4,5,6) b(2) .
  have "p \<noteq> 0" using kp not_kpage_0 by metis
  moreover have "p \<notin> set ps" using Suc.prems(10) by (simp add: pages_from_Suc)
  ultimately obtain t where t: "kfree kend p s = Inr ((), t)" "kmem_rep kend t (p # ps)"
    "mach_holds H ie t"
    using kfree_rep[OF Suc.prems(1,2,3) kp] by blast
  have P: "p + PGSIZE = p + 4096" by (simp add: PGSIZE_def)
  have "\<exists>t'. freerange_loop n' kend (p + 4096) vend t = Inr ((), t') \<and>
      kmem_rep kend t' (rev (pages_from (p + 4096) k) @ p # ps) \<and> mach_holds H ie t'"
    using Suc.prems n t u P
    by (intro Suc.IH)
      (auto simp: pages_from_Suc aligned_unat word_le_nat_alt)
  moreover have "p + PGSIZE \<le> vend" using u b by (simp add: word_le_nat_alt)
  ultimately show ?case using t n P by (auto simp: kbind_def pages_from_Suc)
qed

lemma uint32_less: "unat (w :: uint) < 2 ^ 32"
  using unsigned_less[of w] by simp

lemma unat_page_from:
  fixes p :: uint
  assumes "unat p + 4096 * k < 2 ^ 32" "i \<le> k"
  shows "unat (p + 4096 * of_nat i) = unat p + 4096 * i"
proof -
  have i: "unat p + 4096 * i < 2 ^ 32" using assms by linarith
  then have "unat (of_nat i :: uint) = i" by (simp add: unat_of_nat)
  then have "unat (4096 * of_nat i :: uint) = 4096 * i" using i by (simp add: unat_word_ariths)
  then show ?thesis using i by (simp add: unat_word_ariths)
qed

lemma distinct_pages_from:
  assumes "unat p + 4096 * k < 2 ^ 32"
  shows "distinct (pages_from p k)"
  using unat_page_from[OF assms]
  by (auto simp: pages_from_def distinct_map inj_on_def word_unat_eq_iff)

lemma set_pages_from:
  fixes p vend :: uint
  assumes "aligned p" "unat p + 4096 * k \<le> unat vend" "unat vend < unat p + 4096 * Suc k"
    "unat vend < 2 ^ 32"
  shows "set (pages_from p k) = {q. aligned q \<and> p \<le> q \<and> unat q + 4096 \<le> unat vend}"
proof (intro set_eqI iffI)
  have b: "unat p + 4096 * k < 2 ^ 32" using assms by linarith
  fix q
  { assume "q \<in> set (pages_from p k)"
    then obtain i where i: "i < k" "q = p + 4096 * of_nat i" by (auto simp: pages_from_def)
    then have u: "unat q = unat p + 4096 * i" using unat_page_from[OF b, of i] by simp
    with i assms show "q \<in> {q. aligned q \<and> p \<le> q \<and> unat q + 4096 \<le> unat vend}"
      by (simp add: aligned_unat word_le_nat_alt mod_add_eq)  }
  { assume "q \<in> {q. aligned q \<and> p \<le> q \<and> unat q + 4096 \<le> unat vend}"
    then have q: "unat q mod 4096 = 0" "unat p \<le> unat q" "unat q + 4096 \<le> unat vend"
      by (auto simp: aligned_unat word_le_nat_alt)
    have "(unat q - unat p) mod 4096 = 0"
      using q assms(1) by (simp add: aligned_unat mod_diff_right_eq flip: dvd_eq_mod_eq_0)
    then obtain i where i: "unat q = unat p + 4096 * i"
      using q(2) by (metis dvd_eq_mod_eq_0 dvdE le_add_diff_inverse)
    then have "4096 * i < 4096 * k"
      using le_less_trans[OF q(3) assms(3)] by simp
    then have "i < k" by simp
    moreover have "q = p + 4096 * of_nat i"
      using unat_page_from[OF b, of i] i \<open>i < k\<close> by (simp add: word_unat_eq_iff)
    ultimately show "q \<in> set (pages_from p k)" by (auto simp: pages_from_def) }
qed

lemma freerange_rep:
  assumes "mach_holds H ie s" "KmemLock \<notin> H" "kmem_rep kend s ps"
    "kend \<le> PGROUNDUP vstart" "KERNBASE \<le> PGROUNDUP vstart"
    "PGROUNDUP vstart \<le> vend" "unat vend \<le> phys_end"
    "\<forall>q \<in> set ps. q < PGROUNDUP vstart \<or> vend \<le> q"
  shows "\<exists>t qs. freerange kend vstart vend s = Inr ((), t) \<and>
    kmem_rep kend t (qs @ ps) \<and> mach_holds H ie t \<and>
    set qs = {q. aligned q \<and> PGROUNDUP vstart \<le> q \<and> unat q + 4096 \<le> unat vend}"
proof -
  let ?p = "PGROUNDUP vstart"
  define k where "k = (unat vend - unat ?p) div 4096"
  have le: "unat ?p \<le> unat vend" using assms(6) by (simp add: word_le_nat_alt)
  have "4096 * k \<le> unat vend - unat ?p" "unat vend - unat ?p < 4096 * Suc k"
    unfolding k_def by (simp_all add: dividend_less_times_div)
  then have k: "unat ?p + 4096 * k \<le> unat vend" "unat vend < unat ?p + 4096 * Suc k"
    using le by linarith+
  have v: "unat vend < 2 ^ 32" by (rule uint32_less)
  have S: "set (pages_from ?p k) = {q. aligned q \<and> ?p \<le> q \<and> unat q + 4096 \<le> unat vend}"
    using set_pages_from[OF aligned_PGROUNDUP k v] .
  have "set (pages_from ?p k) \<inter> set ps = {}"
    using assms(8) unfolding S by (fastforce simp: word_le_nat_alt word_less_nat_alt)
  moreover have "k < 2 ^ 20" using k(1) v by simp
  moreover have "distinct (pages_from ?p k)" using k v by (intro distinct_pages_from) linarith
  ultimately obtain t where "freerange_loop (2 ^ 20) kend ?p vend s = Inr ((), t)"
      "kmem_rep kend t (rev (pages_from ?p k) @ ps)" "mach_holds H ie t"
    using freerange_loop_rep[OF assms(1,2,3) aligned_PGROUNDUP assms(4,5,7) k] by metis
  then show ?thesis
    unfolding freerange_def S[symmetric] set_rev[of "pages_from ?p k", symmetric]
    by (intro exI[of _ t] exI[of _ "rev (pages_from ?p k)"] conjI refl)
qed

section \<open>The allocator's contract\<close>

text \<open>
  What the kernel relies on when it allocates: the allocator owns a list of distinct pages,
  \<open>alloc\<close> hands out the first one or the null pointer when there is none, and \<open>free\<close> takes back
  any valid page it does not own. A client is a sequence of requests; \<open>PFree i\<close> gives back the
  \<open>i\<close>-th page the client holds.
\<close>

datatype page_op = PAlloc | PFree nat

fun run_page_ops :: "('s, uint) kmon \<Rightarrow> (uint \<Rightarrow> ('s, unit) kmon) \<Rightarrow> page_op list \<Rightarrow>
    uint list \<Rightarrow> ('s, uint list) kmon" where
  "run_page_ops al fr [] held = ret held"
| "run_page_ops al fr (PAlloc # ops) held =
    kbind al (\<lambda>p. run_page_ops al fr ops (if p = 0 then held else p # held))"
| "run_page_ops al fr (PFree i # ops) held =
    (if i < length held
     then kseq (fr (held ! i)) (run_page_ops al fr ops (remove1 (held ! i) held))
     else run_page_ops al fr ops held)"

locale page_allocator =
  fixes alloc :: "('s, uint) kmon"
    and free :: "uint \<Rightarrow> ('s, unit) kmon"
    and rep :: "'s \<Rightarrow> uint list \<Rightarrow> bool"
    and ok :: "uint \<Rightarrow> bool"
  assumes alloc_law: "rep s ps \<Longrightarrow>
      wp alloc (\<lambda>p t. p = (case ps of [] \<Rightarrow> 0 | q # _ \<Rightarrow> q) \<and> rep t (tl ps)) s"
    and free_law: "rep s ps \<Longrightarrow> ok v \<Longrightarrow> v \<notin> set ps \<Longrightarrow> wp (free v) (\<lambda>_ t. rep t (v # ps)) s"
    and rep_law: "rep s ps \<Longrightarrow> distinct ps \<and> (\<forall>p \<in> set ps. ok p \<and> p \<noteq> 0)"
begin

lemma run_page_ops_mset:
  assumes "rep s ps" "distinct (held @ ps)" "\<forall>p \<in> set held. ok p"
  shows "wp (run_page_ops alloc free ops held)
    (\<lambda>held' t. \<exists>ps'. rep t ps' \<and> mset held' + mset ps' = mset held + mset ps) s"
  using assms
proof (induction ops arbitrary: held s ps)
  case Nil
  then show ?case by (auto simp: wp_simps)
next
  case (Cons opn ops)
  show ?case
  proof (cases opn)
    case PAlloc
    show ?thesis
    proof (cases ps)
      case Nil
      then show ?thesis using Cons.IH[where ps = "[]" and held = held] Cons.prems PAlloc alloc_law[of s ps]
        by (auto simp: wp_simps elim!: wp_mono)
    next
      case (Cons p qs)
      have "wp (run_page_ops alloc free ops (p # held))
          (\<lambda>held' t. \<exists>ps'. rep t ps' \<and> mset held' + mset ps' = mset held + mset ps) t"
        if "rep t qs" for t
        using Cons.IH[of t qs "p # held"] that Cons Cons.prems rep_law[OF Cons.prems(1)]
        by (auto elim!: wp_mono)
      then show ?thesis using Cons PAlloc alloc_law[OF Cons.prems(1)] rep_law[OF Cons.prems(1)]
        by (auto simp: wp_simps elim!: wp_mono)
    qed
  next
    case (PFree i)
    have "wp (run_page_ops alloc free ops (remove1 (held ! i) held))
        (\<lambda>held' t. \<exists>ps'. rep t ps' \<and> mset held' + mset ps' = mset held + mset ps) t"
      if "i < length held" "rep t (held ! i # ps)" for t
      using Cons.IH[of t "held ! i # ps" "remove1 (held ! i) held"] that Cons.prems
      by (auto elim!: wp_mono dest: notin_set_remove1 simp: disjoint_iff)
    moreover have "held ! i \<notin> set ps" if "i < length held"
      using that Cons.prems(2) by (auto simp: disjoint_iff)
    ultimately show ?thesis using Cons PFree free_law[OF Cons.prems(1), of "held ! i"]
      by (auto simp: wp_simps elim!: wp_mono)
  qed
qed

lemma run_page_ops_partition:
  assumes "rep s ps"
  shows "wp (run_page_ops alloc free ops [])
    (\<lambda>held t. \<exists>ps'. rep t ps' \<and> distinct (held @ ps') \<and> set held \<union> set ps' = set ps) s"
proof -
  have d: "distinct ps" using rep_law[OF assms] by simp
  have "wp (run_page_ops alloc free ops [])
    (\<lambda>held t. \<exists>ps'. rep t ps' \<and> mset held + mset ps' = mset [] + mset ps) s"
    using assms d by (intro run_page_ops_mset) auto
  moreover have "distinct (held @ ps') \<and> set held \<union> set ps' = set ps"
    if "mset held + mset ps' = mset ps" for held ps'
    using that d mset_eq_imp_distinct_iff[of "held @ ps'" ps] mset_eq_setD[of "held @ ps'" ps]
    by simp
  ultimately show ?thesis by (elim wp_mono) (metis add_0 mset.simps(1))
qed

end

interpretation kpages: page_allocator kalloc "kfree kend"
    "\<lambda>s ps. kmem_rep kend s ps \<and> mach_holds {} ie s" "kpage kend" for kend ie
proof
  fix s :: "'a kmemst_scheme" and ps v
  assume r: "kmem_rep kend s ps \<and> mach_holds {} ie s"
  show "wp kalloc (\<lambda>p t. p = (case ps of [] \<Rightarrow> 0 | q # _ \<Rightarrow> q) \<and>
      kmem_rep kend t (tl ps) \<and> mach_holds {} ie t) s"
    using kalloc_rep[of "{}" ie s kend ps] r by (auto simp: wp_def)
  show "distinct ps \<and> (\<forall>p \<in> set ps. kpage kend p \<and> p \<noteq> 0)"
    using r not_kpage_0 by (fastforce simp: kmem_rep_def list_all_iff)
  show "wp (kfree kend v) (\<lambda>_ t. kmem_rep kend t (v # ps) \<and> mach_holds {} ie t) s"
    if "kpage kend v" "v \<notin> set ps"
    using kfree_rep[of "{}" ie s kend ps v] r that not_kpage_0 by (fastforce simp: wp_def)
qed


section \<open>Properties\<close>

text \<open>
  C9. Whatever sequence of \<^verbatim>\<open>kalloc\<close> and \<^verbatim>\<open>kfree\<close> calls the kernel makes, starting with free
  list \<open>ps\<close> and giving back only pages it holds, every call returns and the pages held and the
  pages on the free list partition the pages of \<open>ps\<close>: none is lost, none is handed out twice.
\<close>

theorem kalloc_partition:
  assumes "kmem_rep kend s ps" "mach_holds {} ie s"
  shows "wp (run_page_ops kalloc (kfree kend) ops [])
    (\<lambda>held t. \<exists>ps'. kmem_rep kend t ps' \<and> mach_holds {} ie t \<and>
      distinct (held @ ps') \<and> set held \<union> set ps' = set ps) s"
  using kpages.run_page_ops_partition[of kend s ps ie ops] assms by (auto elim!: wp_mono)

definition kmem1 :: kmemst where
  "kmem1 = \<lparr>locks = \<lambda>_. \<lparr>locked = 0, lcpu = None\<rparr>, cpus = \<lambda>_. \<lparr>ncli = 0, intena = False\<rparr>,
    iflag = \<lambda>_. True, mycpu = 0, mem = \<lambda>_. 0, use_lock = True, freelist = 0x80400000\<rparr>"

lemma kmem1_rep: "kmem_rep 0x80200000 kmem1 [0x80400000]"
  by (simp add: kmem_rep_def kmem1_def kpage_def layout v2p_def load32_def)

lemma kmem1_holds: "mach_holds {} True kmem1"
  by (simp add: mach_holds_def kmem1_def)

theorem kalloc_partition_witness:
  "wp (run_page_ops kalloc (kfree 0x80200000) [PAlloc, PAlloc, PFree 0, PAlloc] [])
    (\<lambda>held t. \<exists>ps'. kmem_rep 0x80200000 t ps' \<and> mach_holds {} True t \<and>
      distinct (held @ ps') \<and> set held \<union> set ps' = {0x80400000}) kmem1"
  using kalloc_partition[OF kmem1_rep kmem1_holds, of "[PAlloc, PAlloc, PFree 0, PAlloc]"] by simp

lemma aligned_below:
  assumes "aligned q" "aligned v"
  shows "unat q + 4096 \<le> unat v \<longleftrightarrow> q < v"
proof -
  obtain i j where "unat q = 4096 * i" "unat v = 4096 * j"
    using assms by (metis aligned_unat dvd_eq_mod_eq_0 dvdE)
  moreover have "4096 * i + 4096 = 4096 * Suc i" by simp
  ultimately show ?thesis by (simp only: word_less_nat_alt mult_le_cancel1 mult_less_cancel1) (simp add: Suc_le_eq)
qed

lemma PGROUNDUP_le:
  assumes "unat v + 4095 < 2 ^ 32" "aligned q"
  shows "PGROUNDUP v \<le> q \<longleftrightarrow> v \<le> q"
proof -
  obtain i where "unat q = 4096 * i"
    using assms by (metis aligned_unat dvd_eq_mod_eq_0 dvdE)
  then show ?thesis
    by (simp add: word_le_nat_alt unat_PGROUNDUP[OF assms(1)] less_Suc_eq_le
        flip: div_less_iff_less_mult) linarith
qed

lemma kinit1_rep:
  assumes "mach_holds {} ie s" "freelist s = 0" "KERNBASE \<le> kend" "kend \<le> p2v 0x400000"
  shows "\<exists>t qs. kinit1 kend kend (p2v 0x400000) s = Inr ((), t) \<and> kmem_rep kend t qs \<and>
    mach_holds {} ie t \<and> set qs = {q. aligned q \<and> kend \<le> q \<and> q < p2v 0x400000}"
proof -
  let ?s = "s\<lparr>locks := (locks s)(KmemLock := \<lparr>locked = 0, lcpu = None\<rparr>), use_lock := False\<rparr>"
  have v: "aligned (p2v 0x400000)" "unat (p2v 0x400000) \<le> phys_end"
    by (simp_all add: aligned_def p2v_def layout phys_end_def)
  have k: "unat kend + 4095 < 2 ^ 32"
    using assms(4) by (simp add: word_le_nat_alt p2v_def layout)
  have le: "kend \<le> PGROUNDUP kend" "PGROUNDUP kend \<le> p2v 0x400000"
    using PGROUNDUP_le[OF k aligned_PGROUNDUP] PGROUNDUP_le[OF k v(1)] assms(4) by auto
  have "mach_holds {} ie ?s" "kmem_rep kend ?s []"
    using assms(1,2) by (simp_all add: mach_holds_def kmem_rep_def)
  then have "\<exists>t qs. freerange kend kend (p2v 0x400000) ?s = Inr ((), t) \<and>
    kmem_rep kend t (qs @ []) \<and> mach_holds {} ie t \<and>
    set qs = {q. aligned q \<and> PGROUNDUP kend \<le> q \<and> unat q + 4096 \<le> unat (p2v 0x400000)}"
    using le assms(3) v by (intro freerange_rep) auto
  moreover have "kinit1 kend kend (p2v 0x400000) s = freerange kend kend (p2v 0x400000) ?s"
    by (simp add: kinit1_def initlock_def kbind_def modify_def)
  ultimately show ?thesis
    using PGROUNDUP_le[OF k] aligned_below[OF _ v(1)] by (simp cong: conj_cong)
qed

text \<open>
  C10. After \<^verbatim>\<open>main\<close>'s two calls \<^verbatim>\<open>kinit1(end, P2V(4*1024*1024))\<close> and
  \<^verbatim>\<open>kinit2(P2V(4*1024*1024), P2V(PHYSTOP))\<close> on a machine with no lock held, for a kernel image
  that ends in the first 4 MB, the free list holds every page between the end of the kernel and
  the top of physical memory, each once.
\<close>

theorem kinit_all_pages:
  assumes "mach_holds {} ie s" "freelist s = 0" "KERNBASE \<le> kend" "kend \<le> p2v 0x400000"
  shows "wp (kseq (kinit1 kend kend (p2v 0x400000)) (kinit2 kend (p2v 0x400000) (p2v PHYSTOP)))
    (\<lambda>_ t. use_lock t \<and> mach_holds {} ie t \<and> (\<exists>ps. kmem_rep kend t ps \<and>
      set ps = {q. aligned q \<and> kend \<le> q \<and> q < p2v PHYSTOP})) s"
proof -
  have v: "aligned (p2v 0x400000)" "aligned (p2v PHYSTOP)" "unat (p2v PHYSTOP) \<le> phys_end"
    "KERNBASE \<le> p2v 0x400000" "p2v 0x400000 < p2v PHYSTOP" "unat (p2v 0x400000) + 4095 < 2 ^ 32"
    by (simp_all add: aligned_def p2v_def layout phys_end_def)
  have up: "PGROUNDUP (p2v 0x400000) = p2v 0x400000"
    by (simp add: PGROUNDUP_def p2v_def layout)
  obtain t qs where t: "kinit1 kend kend (p2v 0x400000) s = Inr ((), t)" "kmem_rep kend t qs"
    "mach_holds {} ie t" "set qs = {q. aligned q \<and> kend \<le> q \<and> q < p2v 0x400000}"
    using kinit1_rep[OF assms] by blast
  have "\<exists>t' rs. freerange kend (p2v 0x400000) (p2v PHYSTOP) t = Inr ((), t') \<and>
    kmem_rep kend t' (rs @ qs) \<and> mach_holds {} ie t' \<and>
    set rs = {q. aligned q \<and> PGROUNDUP (p2v 0x400000) \<le> q \<and> unat q + 4096 \<le> unat (p2v PHYSTOP)}"
    using t v up assms(4) by (intro freerange_rep) auto
  then obtain t' rs where t': "freerange kend (p2v 0x400000) (p2v PHYSTOP) t = Inr ((), t')"
    "kmem_rep kend t' (rs @ qs)" "mach_holds {} ie t'"
    "set rs = {q. aligned q \<and> p2v 0x400000 \<le> q \<and> q < p2v PHYSTOP}"
    unfolding up using aligned_below[OF _ v(2)] by (auto cong: conj_cong)
  have "set (rs @ qs) = {q. aligned q \<and> kend \<le> q \<and> q < p2v PHYSTOP}"
    unfolding set_append t(4) t'(4) using v(5) assms(4) by (auto simp: not_less)
  moreover have "kmem_rep kend (t'\<lparr>use_lock := True\<rparr>) (rs @ qs)" "mach_holds {} ie (t'\<lparr>use_lock := True\<rparr>)"
    using t'(2,3) by (simp_all add: kmem_rep_def mach_holds_def)
  moreover have eq: "kseq (kinit1 kend kend (p2v 0x400000))
      (kinit2 kend (p2v 0x400000) (p2v PHYSTOP)) s = Inr ((), t'\<lparr>use_lock := True\<rparr>)"
    by (simp add: kinit2_def kbind_def modify_def t(1) t'(1))
  ultimately show ?thesis unfolding wp_def eq
    by (intro exI[of _ "()"] exI[of _ "t'\<lparr>use_lock := True\<rparr>"] conjI exI[of _ "rs @ qs"]) simp_all
qed

theorem kinit_all_pages_witness:
  "wp (kseq (kinit1 0x80200000 0x80200000 (p2v 0x400000))
        (kinit2 0x80200000 (p2v 0x400000) (p2v PHYSTOP)))
    (\<lambda>_ t. use_lock t \<and> mach_holds {} True t \<and> (\<exists>ps. kmem_rep 0x80200000 t ps \<and>
      set ps = {q. aligned q \<and> 0x80200000 \<le> q \<and> q < p2v PHYSTOP})) (kmem1\<lparr>freelist := 0\<rparr>)"
  by (rule kinit_all_pages) (simp_all add: kmem1_holds p2v_def layout)

end
