(* ===== verification/Plist.thy ===== *)
theory Plist
  imports Kalloc
begin

text \<open>
  The process table of \<^verbatim>\<open>proc.h\<close>/\<^verbatim>\<open>proc.c\<close> and its state lists: one singly linked list per
  process state (three of them, one per priority, for \<^verbatim>\<open>RUNNABLE\<close>), threaded through the \<^verbatim>\<open>next\<close>
  field of the table's slots. A process pointer is the index of its slot, the null pointer is
  \<open>None\<close>; the \<^verbatim>\<open>struct proc**\<close> argument of the list operations is a \<open>lref\<close>, the name of a list
  head. Walking a list is bounded by the number of slots: a longer walk means that the list is
  cyclic, where the C loop would not end (outcome \<open>Diverge\<close>).

  The lemmas show what each operation does to the lists, given that the heads and \<^verbatim>\<open>next\<close> pointers
  represent the lists \<open>L\<close> (\<open>chained L s\<close>): nothing but those pointers changes (\<open>strip\<close>).
\<close>

section \<open>Processes and the process table\<close>

definition NPROC :: nat where [layout]: "NPROC = 64"
definition MAXPRIO :: nat where [layout]: "MAXPRIO = 2"
definition BUDGET :: uint where [layout]: "BUDGET = 120"
definition TIME_TO_PROMOTE :: uint where [layout]: "TIME_TO_PROMOTE = 270"
definition KSTACKSIZE :: uint where [layout]: "KSTACKSIZE = 4096"

datatype procstate = UNUSED | EMBRYO | SLEEPING | RUNNABLE | RUNNING | ZOMBIE

record trapframe =
  tf_edi :: uint
  tf_esi :: uint
  tf_ebp :: uint
  tf_oesp :: uint
  tf_ebx :: uint
  tf_edx :: uint
  tf_ecx :: uint
  tf_eax :: uint
  tf_gs :: ushort
  tf_fs :: ushort
  tf_es :: ushort
  tf_ds :: ushort
  tf_trapno :: uint
  tf_err :: uint
  tf_eip :: uint
  tf_cs :: ushort
  tf_eflags :: uint
  tf_esp :: uint
  tf_ss :: ushort

text \<open>
  A saved kernel context is where \<^verbatim>\<open>swtch\<close> resumes the process: at \<^verbatim>\<open>forkret\<close> for a process that
  has never run, or after the call of \<^verbatim>\<open>swtch\<close> in \<^verbatim>\<open>sched\<close>, called from \<^verbatim>\<open>yield\<close>, from \<^verbatim>\<open>sleep\<close>
  (with the lock to reacquire) or from \<^verbatim>\<open>exit\<close>; \<^verbatim>\<open>sched\<close> keeps \<^verbatim>\<open>intena\<close> on that stack.
\<close>

datatype kcontext = AtForkret | InYield bool | InSleep "lockid option" bool | InExit bool

record proc =
  sz :: uint
  pgdir :: uint
  kstack :: uint
  state :: procstate
  pid :: uint
  parent :: "nat option"
  tf :: trapframe
  ctxt :: "kcontext option"
  chan_of :: "chan option"
  killed :: bool
  ofile :: "nat option list"
  cwd :: "nat option"
  pname :: "uchar list"
  start_ticks :: uint
  uid :: uint
  gid :: uint
  cpu_ticks_total :: uint
  cpu_ticks_in :: uint
  nextp :: "nat option"
  priority :: uint
  budget :: uint

record pst = kmemst +
  procs :: "nat \<Rightarrow> proc"
  ready :: "nat option list"
  lfree :: "nat option"
  lsleep :: "nat option"
  lzombie :: "nat option"
  lrunning :: "nat option"
  lembryo :: "nat option"
  promoteAtTime :: uint
  initproc :: "nat option"
  nextpid :: uint
  ticks :: uint
  curproc :: "nat \<Rightarrow> nat option"
  conslog :: "string list"
  cr3 :: "nat \<Rightarrow> uint"
  esp0 :: "nat \<Rightarrow> uint"
  kpgdir :: uint

datatype lref = LReady nat | LFree | LSleep | LZombie | LRunning | LEmbryo

fun lvalid :: "lref \<Rightarrow> bool" where
  "lvalid (LReady i) = (i \<le> MAXPRIO)"
| "lvalid _ = True"

fun head :: "lref \<Rightarrow> 'a pst_scheme \<Rightarrow> nat option" where
  "head (LReady i) s = ready s ! i"
| "head LFree s = lfree s"
| "head LSleep s = lsleep s"
| "head LZombie s = lzombie s"
| "head LRunning s = lrunning s"
| "head LEmbryo s = lembryo s"

fun upd_head :: "lref \<Rightarrow> nat option \<Rightarrow> 'a pst_scheme \<Rightarrow> 'a pst_scheme" where
  "upd_head (LReady i) h s = s\<lparr>ready := (ready s)[i := h]\<rparr>"
| "upd_head LFree h s = s\<lparr>lfree := h\<rparr>"
| "upd_head LSleep h s = s\<lparr>lsleep := h\<rparr>"
| "upd_head LZombie h s = s\<lparr>lzombie := h\<rparr>"
| "upd_head LRunning h s = s\<lparr>lrunning := h\<rparr>"
| "upd_head LEmbryo h s = s\<lparr>lembryo := h\<rparr>"

definition upd_proc :: "nat \<Rightarrow> (proc \<Rightarrow> proc) \<Rightarrow> 'a pst_scheme \<Rightarrow> 'a pst_scheme" where
  "upd_proc p f s = s\<lparr>procs := (procs s)(p := f (procs s p))\<rparr>"

definition get_head :: "lref \<Rightarrow> ('a pst_scheme, nat option) kmon" where
  "get_head l = (if lvalid l then gets (head l) else stop (Undef ''ready index''))"

definition set_head :: "lref \<Rightarrow> nat option \<Rightarrow> ('a pst_scheme, unit) kmon" where
  "set_head l h = (if lvalid l then modify (upd_head l h) else stop (Undef ''ready index''))"

definition get_next :: "nat \<Rightarrow> ('a pst_scheme, nat option) kmon" where
  "get_next p = gets (\<lambda>s. nextp (procs s p))"

definition set_next :: "nat \<Rightarrow> nat option \<Rightarrow> ('a pst_scheme, unit) kmon" where
  "set_next p n = modify (upd_proc p (\<lambda>r. r\<lparr>nextp := n\<rparr>))"

text \<open>
  Messages go to the console. The model keeps their format strings, in the order they were printed,
  without the terminating newline.
\<close>

definition cprintf :: "string \<Rightarrow> ('a pst_scheme, unit) kmon" where
  "cprintf msg = modify (\<lambda>s. s\<lparr>conslog := conslog s @ [msg]\<rparr>)"

section \<open>The list operations\<close>

definition assertState :: "nat option \<Rightarrow> procstate \<Rightarrow> ('a pst_scheme, unit) kmon" where
  "assertState po st = (case po of
      None \<Rightarrow> panic ''assertState: invalid proc argument.''
    | Some p \<Rightarrow> kbind (gets (\<lambda>s. state (procs s p))) (\<lambda>q.
        if q \<noteq> st then panic ''assertState: process in wrong state.'' else ret ()))"

definition addToStateListHead :: "lref \<Rightarrow> nat option \<Rightarrow> ('a pst_scheme, int) kmon" where
  "addToStateListHead l po = (case po of
      None \<Rightarrow> panic ''Invalid process.''
    | Some p \<Rightarrow>
        kbind (get_head l) (\<lambda>h.
        if h = None
        then kseq (set_head l (Some p)) (kseq (set_next p None) (ret 0))
        else kseq (set_next p h) (
          kseq (set_head l (Some p)) (
          kbind (get_head l) (\<lambda>h'. if Some p \<noteq> h' then ret (- 1) else ret 0)))))"

fun last_loop :: "nat \<Rightarrow> nat \<Rightarrow> ('a pst_scheme, nat) kmon" where
  "last_loop 0 current = stop Diverge"
| "last_loop (Suc n) current =
    kbind (get_next current) (\<lambda>nx. case nx of None \<Rightarrow> ret current | Some c \<Rightarrow> last_loop n c)"

definition addToStateListEnd :: "lref \<Rightarrow> nat option \<Rightarrow> ('a pst_scheme, int) kmon" where
  "addToStateListEnd l po = (case po of
      None \<Rightarrow> panic ''Invalid process.''
    | Some p \<Rightarrow>
        kbind (get_head l) (\<lambda>h. case h of
          None \<Rightarrow> kseq (set_head l (Some p)) (kseq (set_next p None) (ret 0))
        | Some c \<Rightarrow>
            kbind (last_loop NPROC c) (\<lambda>current.
            kseq (set_next current (Some p)) (kseq (set_next p None) (ret 0)))))"

fun remove_loop :: "nat \<Rightarrow> nat \<Rightarrow> nat \<Rightarrow> nat option \<Rightarrow> ('a pst_scheme, int) kmon" where
  "remove_loop 0 p prev current = stop Diverge"
| "remove_loop (Suc n) p prev current = (case current of
      None \<Rightarrow> ret (- 1)
    | Some c \<Rightarrow>
        kbind (get_next c) (\<lambda>nx.
        if c = p
        then kseq (set_next prev nx) (kseq (set_next p None) (ret 0))
        else remove_loop n p c nx))"

definition removeFromStateList :: "lref \<Rightarrow> nat option \<Rightarrow> ('a pst_scheme, int) kmon" where
  "removeFromStateList l po = (case po of
      None \<Rightarrow> panic ''Invalid process structures.''
    | Some p \<Rightarrow>
        kbind (get_head l) (\<lambda>h. case h of
          None \<Rightarrow> ret (- 1)
        | Some c \<Rightarrow>
            kbind (get_next c) (\<lambda>nx.
            if p = c
            then if nx = None
              then kseq (set_head l None) (kseq (set_next p None) (ret 0))
              else kseq (set_next p None) (kseq (set_head l nx) (ret 0))
            else remove_loop NPROC p c nx)))"

definition removeHead :: "lref \<Rightarrow> ('a pst_scheme, nat option) kmon" where
  "removeHead l =
    kbind (get_head l) (\<lambda>h. case h of
      None \<Rightarrow> ret None
    | Some p \<Rightarrow>
        kbind (get_next p) (\<lambda>temp.
        kseq (set_next p None) (
        kseq (set_head l temp) (
        ret (Some p)))))"

text \<open>
  The loops \<^verbatim>\<open>while (p) { ...; p = p->next; }\<close> over a list: \<open>each_from\<close> runs a body on every element,
  \<open>find_from\<close> returns the first element that satisfies a test. \<^verbatim>\<open>p->next\<close> is read after the body,
  or before it where the code keeps a second pointer (\<open>each_saved\<close>).
\<close>

fun each_from :: "nat \<Rightarrow> (nat \<Rightarrow> ('a pst_scheme, unit) kmon) \<Rightarrow> nat option \<Rightarrow>
    ('a pst_scheme, unit) kmon" where
  "each_from n body None = ret ()"
| "each_from 0 body (Some p) = stop Diverge"
| "each_from (Suc n) body (Some p) =
    kseq (body p) (kbind (get_next p) (\<lambda>nx. each_from n body nx))"

fun each_saved :: "nat \<Rightarrow> (nat \<Rightarrow> ('a pst_scheme, unit) kmon) \<Rightarrow> nat option \<Rightarrow>
    ('a pst_scheme, unit) kmon" where
  "each_saved n body None = ret ()"
| "each_saved 0 body (Some p) = stop Diverge"
| "each_saved (Suc n) body (Some p) =
    kbind (get_next p) (\<lambda>nx. kseq (body p) (each_saved n body nx))"

fun find_from :: "nat \<Rightarrow> (proc \<Rightarrow> bool) \<Rightarrow> nat option \<Rightarrow> ('a pst_scheme, nat option) kmon" where
  "find_from n test None = ret None"
| "find_from 0 test (Some p) = stop Diverge"
| "find_from (Suc n) test (Some p) =
    kbind (gets (\<lambda>s. procs s p)) (\<lambda>r.
    if test r then ret (Some p) else find_from n test (nextp r))"

section \<open>Linked lists\<close>

fun plist :: "(nat \<Rightarrow> nat option) \<Rightarrow> nat option \<Rightarrow> nat list \<Rightarrow> bool" where
  "plist nx h [] = (h = None)"
| "plist nx h (x # xs) = (h = Some x \<and> plist nx (nx x) xs)"

lemma plist_None [simp]: "plist nx None xs \<longleftrightarrow> xs = []"
  by (cases xs) auto

lemma plist_Some: "plist nx (Some p) xs \<longleftrightarrow> (\<exists>ys. xs = p # ys \<and> plist nx (nx p) ys)"
  by (cases xs) auto

lemma plist_unique: "plist nx h xs \<Longrightarrow> plist nx h ys \<Longrightarrow> xs = ys"
  by (induction xs arbitrary: h ys) (auto simp: plist_Some)

lemma plist_suffix: "plist nx h (xs @ ys) \<Longrightarrow> \<exists>h'. plist nx h' ys"
  by (induction xs arbitrary: h) auto

lemma plist_distinct: "plist nx h xs \<Longrightarrow> distinct xs"
proof (induction xs arbitrary: h)
  case (Cons x xs)
  have "x \<notin> set xs"
  proof
    assume "x \<in> set xs"
    then obtain ys zs where xs: "xs = ys @ x # zs" by (auto dest: split_list)
    then have "\<exists>h'. plist nx h' (x # zs)" using plist_suffix[of nx "nx x" ys "x # zs"] Cons.prems by simp
    then have "plist nx (nx x) zs" by auto
    then have "zs = xs" using Cons.prems plist_unique by auto
    then show False using xs by simp
  qed
  then show ?case using Cons by auto
qed simp

lemma plist_cong:
  "(\<And>q. q \<in> set xs \<Longrightarrow> nx q = nx' q) \<Longrightarrow> plist nx h xs \<longleftrightarrow> plist nx' h xs"
  by (induction xs arbitrary: h) auto

lemma plist_upd [simp]: "q \<notin> set xs \<Longrightarrow> plist (nx(q := v)) h xs = plist nx h xs"
  by (rule plist_cong) auto

lemma plist_snoc:
  assumes "plist nx h xs" "xs \<noteq> []" "p \<notin> set xs"
  shows "plist (nx(last xs := Some p, p := None)) h (xs @ [p])"
  using assms
proof (induction xs arbitrary: h)
  case (Cons x xs)
  then show ?case using plist_distinct[OF Cons.prems(1)]
    by (cases "xs = []") auto
qed simp

section \<open>Lists in the process table\<close>

definition nexts :: "'a pst_scheme \<Rightarrow> nat \<Rightarrow> nat option" where
  "nexts s q = nextp (procs s q)"

definition relink :: "(nat \<Rightarrow> nat option) \<Rightarrow> 'a pst_scheme \<Rightarrow> 'a pst_scheme" where
  "relink nx s = s\<lparr>procs := \<lambda>q. (procs s q)\<lparr>nextp := nx q\<rparr>\<rparr>"

definition strip :: "'a pst_scheme \<Rightarrow> 'a pst_scheme" where
  "strip s = (relink (\<lambda>_. None) s)\<lparr>ready := [], lfree := None, lsleep := None, lzombie := None,
    lrunning := None, lembryo := None\<rparr>"

definition chained :: "(lref \<Rightarrow> nat list) \<Rightarrow> 'a pst_scheme \<Rightarrow> bool" where
  "chained L s \<longleftrightarrow>
    length (ready s) = MAXPRIO + 1 \<and>
    (\<forall>l. if lvalid l then plist (nexts s) (head l s) (L l) else L l = []) \<and>
    (\<forall>l l'. l \<noteq> l' \<longrightarrow> set (L l) \<inter> set (L l') = {}) \<and>
    (\<forall>l. set (L l) \<subseteq> {..<NPROC})"

lemma nexts_relink [simp]: "nexts (relink nx s) = nx"
  by (simp add: nexts_def relink_def fun_eq_iff)

lemma relink_relink [simp]: "relink nx (relink nx' s) = relink nx s"
  by (simp add: relink_def)

lemma relink_nexts [simp]: "relink (nexts s) s = s"
  by (simp add: relink_def nexts_def)

lemma head_relink [simp]: "head l (relink nx s) = head l s"
  by (cases l) (simp_all add: relink_def)

lemma ready_relink [simp]: "ready (relink nx s) = ready s"
  by (simp add: relink_def)

lemma nexts_upd_head [simp]: "nexts (upd_head l h s) = nexts s"
  by (cases l) (simp_all add: nexts_def fun_eq_iff)

lemma length_ready_upd_head [simp]: "length (ready (upd_head l h s)) = length (ready s)"
  by (cases l) simp_all

lemma head_upd_head:
  "length (ready s) = MAXPRIO + 1 \<Longrightarrow> lvalid l \<Longrightarrow>
    head l' (upd_head l h s) = (if l = l' then h else head l' s)"
  by (cases l; cases l') (auto simp: nth_list_update)

lemma relink_upd_head: "relink nx (upd_head l h s) = upd_head l h (relink nx s)"
  by (cases l) (simp_all add: relink_def)

lemma strip_relink [simp]: "strip (relink nx s) = strip s"
  by (simp add: strip_def)

lemma strip_upd_head [simp]: "strip (upd_head l h s) = strip s"
  by (cases l) (simp_all add: strip_def relink_def)

lemma strip_strip [simp]: "strip (strip s) = strip s"
  by (simp add: strip_def relink_def)

lemma upd_next: "upd_proc p (\<lambda>r. r\<lparr>nextp := n\<rparr>) s = relink ((nexts s)(p := n)) s"
  by (auto simp: upd_proc_def relink_def nexts_def fun_eq_iff intro!: pst.equality)

lemma chainedD:
  assumes "chained L s"
  shows "length (ready s) = MAXPRIO + 1"
    and "lvalid l \<Longrightarrow> plist (nexts s) (head l s) (L l)"
    and "p \<in> set (L l) \<Longrightarrow> lvalid l"
    and "p \<in> set (L l) \<Longrightarrow> p \<in> set (L l') \<Longrightarrow> l = l'"
    and "p \<in> set (L l) \<Longrightarrow> p < NPROC"
    and "distinct (L l)"
    and "length (L l) \<le> NPROC"
proof -
  show d: "distinct (L l)"
    using assms plist_distinct[of "nexts s" "head l s" "L l"] by (cases "lvalid l") (auto simp: chained_def)
  have "card (set (L l)) \<le> card {..<NPROC}"
    using assms by (intro card_mono) (auto simp: chained_def)
  then show "length (L l) \<le> NPROC" using d by (simp add: distinct_card)
  show "p \<in> set (L l) \<Longrightarrow> lvalid l" using assms by (auto simp: chained_def split: if_splits)
  show "p \<in> set (L l) \<Longrightarrow> p \<in> set (L l') \<Longrightarrow> l = l'" using assms by (auto simp: chained_def)
qed (use assms in \<open>auto simp: chained_def split: if_splits\<close>)

text \<open>Relinking the elements of one list, and at most one process that is on no list.\<close>

lemma chained_relink:
  assumes c: "chained L s" and v: "lvalid l"
    and out: "\<And>l'. l' \<noteq> l \<Longrightarrow> set xs \<inter> set (L l') = {}"
    and same: "\<And>q l'. l' \<noteq> l \<Longrightarrow> q \<in> set (L l') \<Longrightarrow> nx q = nexts s q"
    and p: "plist nx h xs" and lt: "set xs \<subseteq> {..<NPROC}"
  shows "chained (L(l := xs)) (upd_head l h (relink nx s))"
proof -
  have "plist nx (head l' s) (L l')" if "l' \<noteq> l" "lvalid l'" for l'
    using chainedD(2)[OF c that(2)] plist_cong[of "L l'" nx "nexts s"] same[OF that(1)] by simp
  moreover have "\<not> lvalid l' \<Longrightarrow> L l' = []" for l'
    using c by (auto simp: chained_def split: if_splits)
  moreover have "set (L l') \<inter> set (L l'') = {}" if "l' \<noteq> l''" for l' l''
    using c that by (simp add: chained_def)
  moreover have "set (L l') \<subseteq> {..<NPROC}" for l' using c by (simp add: chained_def)
  ultimately show ?thesis
    using c v out p lt chainedD(1)[OF c]
    by (simp add: chained_def head_upd_head) blast
qed


section \<open>The operations on represented lists\<close>

lemmas list_op_defs = get_head_def set_head_def get_next_def set_next_def

lemma last_loop_eq:
  assumes "plist (nexts s) (Some c) (c # xs)" "length xs < n"
  shows "last_loop n c s = Inr (last (c # xs), s)"
  using assms
proof (induction xs arbitrary: c n)
  case Nil
  then show ?case by (cases n) (simp_all add: kmon_defs get_next_def nexts_def)
next
  case (Cons x xs)
  then obtain n' where n: "n = Suc n'" by (cases n) auto
  have "nextp (procs s c) = Some x" using Cons.prems by (simp add: nexts_def)
  then show ?case using Cons n by (simp add: kbind_def gets_def get_next_def)
qed

lemma remove_loop_eq:
  assumes "plist (nexts s) cur xs" "p \<in> set xs" "prev \<notin> set xs" "length xs \<le> n"
    "nexts s prev = cur"
  shows "\<exists>nx. remove_loop n p prev cur s = Inr (0, relink nx s) \<and> plist nx (nx prev) (remove1 p xs) \<and>
    (\<forall>q. q \<noteq> prev \<longrightarrow> q \<notin> set xs \<longrightarrow> nx q = nexts s q)"
  using assms
proof (induction xs arbitrary: prev cur n)
  case (Cons c xs)
  then obtain n' where n: "n = Suc n'" by (cases n) auto
  have cur: "cur = Some c" using Cons.prems(1) by simp
  show ?case
  proof (cases "c = p")
    case True
    let ?nx = "(nexts s)(prev := nexts s p, p := None)"
    have "plist ?nx (nexts s p) xs"
      using Cons.prems True plist_distinct[OF Cons.prems(1)] by auto
    moreover have "remove_loop n p prev cur s = Inr (0, relink ?nx s)"
      using n cur True by (simp add: kmon_defs list_op_defs upd_next) (simp add: nexts_def)
    moreover have "prev \<noteq> p" using Cons.prems True by auto
    ultimately show ?thesis using True Cons.prems by (auto intro!: exI[of _ ?nx])
  next
    case False
    have "c \<notin> set xs" using plist_distinct[OF Cons.prems(1)] by simp
    then obtain nx where nx: "remove_loop n' p c (nexts s c) s = Inr (0, relink nx s)"
      "plist nx (nx c) (remove1 p xs)" "\<forall>q. q \<noteq> c \<longrightarrow> q \<notin> set xs \<longrightarrow> nx q = nexts s q"
      using Cons.IH[of "nexts s c" c n'] Cons.prems n False by auto
    moreover have "nx prev = Some c" using nx(3) Cons.prems cur by auto
    ultimately show ?thesis using False n cur
      by (auto simp: kbind_def gets_def get_next_def nexts_def)
  qed
qed simp

lemma wp_removeFromStateList:
  assumes c: "chained L s" and p: "p \<in> set (L l)"
    and Q: "\<And>t. chained (L(l := remove1 p (L l))) t \<Longrightarrow> strip t = strip s \<Longrightarrow> Q 0 t"
  shows "wp (removeFromStateList l (Some p)) Q s"
proof -
  have v: "lvalid l" using chainedD(3)[OF c p] .
  have pl: "plist (nexts s) (head l s) (L l)" using chainedD(2)[OF c v] .
  then obtain x xs where L: "L l = x # xs" "head l s = Some x" "plist (nexts s) (nexts s x) xs"
    using p by (cases "L l") auto
  have d: "distinct (x # xs)" using chainedD(6)[OF c, of l] L by simp
  have fr: "chained (L(l := remove1 p (L l))) (upd_head l h (relink nx s))"
    if "plist nx h (remove1 p (L l))" "\<forall>q. q \<notin> set (L l) \<longrightarrow> nx q = nexts s q" for nx h
    using c that v chainedD(4,5)[OF c] set_remove1_subset[of p "L l"]
    by (intro chained_relink) blast+
  show ?thesis
  proof (cases "p = x")
    case True
    let ?nx = "(nexts s)(x := None)"
    have "plist ?nx (nexts s x) xs" using L(3) d by auto
    then have "chained (L(l := remove1 p (L l))) (upd_head l (nexts s x) (relink ?nx s))"
      using fr[of ?nx "nexts s x"] L True by auto
    then show ?thesis
      using Q True L v by (auto simp: removeFromStateList_def wp_simps list_op_defs upd_next
          relink_upd_head nexts_def[of s x, symmetric])
  next
    case False
    then obtain nx where nx: "remove_loop NPROC p x (nexts s x) s = Inr (0, relink nx s)"
      "plist nx (nx x) (remove1 p xs)" "\<forall>q. q \<noteq> x \<longrightarrow> q \<notin> set xs \<longrightarrow> nx q = nexts s q"
      using remove_loop_eq[OF L(3), of p x NPROC] p d L chainedD(7)[OF c, of l] by auto
    have "upd_head l (Some x) (relink nx s) = relink nx s"
      using L(2) chainedD(1)[OF c] v by (cases l) (auto simp: relink_def list_update_same_conv)
    moreover have "chained (L(l := remove1 p (L l))) (upd_head l (Some x) (relink nx s))"
      using fr[of nx "Some x"] nx L False by auto
    ultimately have "Q 0 (relink nx s)" using Q by simp
    then have "wp (remove_loop NPROC p x (nexts s x)) Q s" using nx(1) by (auto simp: wp_def)
    then show ?thesis using False L v
      by (auto simp: removeFromStateList_def wp_simps list_op_defs nexts_def)
  qed
qed

definition offlist :: "nat \<Rightarrow> (lref \<Rightarrow> nat list) \<Rightarrow> bool" where
  "offlist p L \<longleftrightarrow> p < NPROC \<and> (\<forall>l. p \<notin> set (L l))"

lemma offlistD: "offlist p L \<Longrightarrow> p \<notin> set (L l)"
  by (simp add: offlist_def)

lemma chained_add:
  assumes c: "chained L s" and v: "lvalid l" and p: "offlist p L"
    and pl: "plist nx h xs" "set xs \<subseteq> insert p (set (L l))"
    and same: "\<And>q. q \<noteq> p \<Longrightarrow> q \<notin> set (L l) \<Longrightarrow> nx q = nexts s q"
  shows "chained (L(l := xs)) (upd_head l h (relink nx s))"
proof (rule chained_relink[OF c v _ _ pl(1)])
  show "set xs \<inter> set (L l') = {}" if "l' \<noteq> l" for l'
    using p pl(2) chainedD(4)[OF c, of _ l l'] that by (auto simp: offlist_def)
  show "nx q = nexts s q" if "l' \<noteq> l" "q \<in> set (L l')" for q l'
    using p same[of q] chainedD(4)[OF c, of _ l l'] that by (auto simp: offlist_def)
  show "set xs \<subseteq> {..<NPROC}"
    using p pl(2) chainedD(5)[OF c] by (auto simp: offlist_def)
qed

lemma wp_addToStateListHead:
  assumes c: "chained L s" and v: "lvalid l" and p: "offlist p L"
    and Q: "\<And>t. chained (L(l := p # L l)) t \<Longrightarrow> strip t = strip s \<Longrightarrow> Q 0 t"
  shows "wp (addToStateListHead l (Some p)) Q s"
proof -
  let ?nx = "(nexts s)(p := head l s)"
  have "plist ?nx (Some p) (p # L l)"
    using chainedD(2)[OF c v] p by (simp add: offlist_def)
  then have "chained (L(l := p # L l)) (upd_head l (Some p) (relink ?nx s))"
    using c v p by (intro chained_add) auto
  then have "Q 0 (upd_head l (Some p) (relink ?nx s))" using Q by simp
  then show ?thesis using v chainedD(1)[OF c]
    by (cases "head l s") (simp_all add: addToStateListHead_def wp_simps list_op_defs upd_next
        relink_upd_head head_upd_head)
qed

lemma wp_addToStateListEnd:
  assumes c: "chained L s" and v: "lvalid l" and p: "offlist p L"
    and Q: "\<And>t. chained (L(l := L l @ [p])) t \<Longrightarrow> strip t = strip s \<Longrightarrow> Q 0 t"
  shows "wp (addToStateListEnd l (Some p)) Q s"
proof (cases "L l")
  case Nil
  have "chained (L(l := L l @ [p])) (upd_head l (Some p) (relink ((nexts s)(p := None)) s))"
    using c v p Nil by (intro chained_add) auto
  then show ?thesis using Q v Nil chainedD(2)[OF c v]
    by (simp add: addToStateListEnd_def wp_simps list_op_defs upd_next relink_upd_head)
next
  case (Cons x xs)
  let ?nx = "(nexts s)(last (L l) := Some p, p := None)"
  have h: "head l s = Some x" "plist (nexts s) (Some x) (x # xs)"
    using chainedD(2)[OF c v] Cons by simp_all
  have "plist ?nx (Some x) (L l @ [p])"
    using h(2) Cons p offlistD[OF p, of l] by (intro plist_snoc) auto
  then have "chained (L(l := L l @ [p])) (upd_head l (Some x) (relink ?nx s))"
    using c v p Cons by (intro chained_add) auto
  moreover have "upd_head l (Some x) (relink ?nx s) = relink ?nx s"
    using h(1) chainedD(1)[OF c] v by (cases l) (auto simp: relink_def list_update_same_conv)
  moreover have "last_loop NPROC x s = Inr (last (L l), s)"
    using last_loop_eq[OF h(2), of NPROC] chainedD(7)[OF c, of l] Cons by simp
  ultimately show ?thesis using Q v h(1)
    by (simp add: addToStateListEnd_def wp_simps list_op_defs upd_next wp_eq)
qed

lemma wp_removeHead:
  assumes c: "chained L s" and v: "lvalid l"
    and Q: "\<And>t. chained (L(l := tl (L l))) t \<Longrightarrow> strip t = strip s \<Longrightarrow>
      Q (case L l of [] \<Rightarrow> None | p # _ \<Rightarrow> Some p) t"
  shows "wp (removeHead l) Q s"
proof (cases "L l")
  case Nil
  then have "L(l := tl (L l)) = L" by (auto simp: fun_eq_iff)
  then show ?thesis using Nil Q[of s] c v chainedD(2)[OF c v]
    by (simp add: removeHead_def wp_simps list_op_defs)
next
  case (Cons x xs)
  let ?nx = "(nexts s)(x := None)"
  have h: "head l s = Some x" "plist (nexts s) (nexts s x) xs" "x \<notin> set xs"
    using chainedD(2)[OF c v] chainedD(6)[OF c, of l] Cons by simp_all
  have "chained (L(l := tl (L l))) (upd_head l (nexts s x) (relink ?nx s))"
  proof (rule chained_relink[OF c v])
    show "set (tl (L l)) \<inter> set (L l') = {}" if "l' \<noteq> l" for l'
      using chainedD(4)[OF c, of _ l l'] that Cons by auto
    show "?nx q = nexts s q" if "l' \<noteq> l" "q \<in> set (L l')" for q l'
      using chainedD(4)[OF c, of x l l'] that Cons by auto
    show "plist ?nx (nexts s x) (tl (L l))" using h Cons by simp
    show "set (tl (L l)) \<subseteq> {..<NPROC}" using chainedD(5)[OF c, of _ l] Cons by auto
  qed
  then have "Q (Some x) (upd_head l (nexts s x) (relink ?nx s))" using Q Cons by simp
  then show ?thesis using v h
    by (simp add: removeHead_def wp_simps list_op_defs upd_next nexts_def[of s x, symmetric])
qed


section \<open>Separating the links from the rest of the state\<close>

text \<open>
  \<open>links_of s\<close> are the list heads and \<^verbatim>\<open>next\<close> pointers of \<open>s\<close>, and \<open>put_links K s\<close> replaces them.
  The list operations only put new links, and everything else commutes with that, so a proof about
  a kernel operation sees a term \<open>put_links K t\<close> whose \<open>t\<close> has the other changes in it.
\<close>

record links =
  k_next :: "nat \<Rightarrow> nat option"
  k_ready :: "nat option list"
  k_free :: "nat option"
  k_sleep :: "nat option"
  k_zombie :: "nat option"
  k_running :: "nat option"
  k_embryo :: "nat option"

definition links_of :: "'a pst_scheme \<Rightarrow> links" where
  "links_of s = \<lparr>k_next = nexts s, k_ready = ready s, k_free = lfree s, k_sleep = lsleep s,
    k_zombie = lzombie s, k_running = lrunning s, k_embryo = lembryo s\<rparr>"

definition put_links :: "links \<Rightarrow> 'a pst_scheme \<Rightarrow> 'a pst_scheme" where
  "put_links K s = (relink (k_next K) s)\<lparr>ready := k_ready K, lfree := k_free K,
    lsleep := k_sleep K, lzombie := k_zombie K, lrunning := k_running K, lembryo := k_embryo K\<rparr>"

fun k_head :: "lref \<Rightarrow> links \<Rightarrow> nat option" where
  "k_head (LReady i) K = k_ready K ! i"
| "k_head LFree K = k_free K"
| "k_head LSleep K = k_sleep K"
| "k_head LZombie K = k_zombie K"
| "k_head LRunning K = k_running K"
| "k_head LEmbryo K = k_embryo K"

definition rep :: "(lref \<Rightarrow> nat list) \<Rightarrow> links \<Rightarrow> bool" where
  "rep L K \<longleftrightarrow>
    length (k_ready K) = MAXPRIO + 1 \<and>
    (\<forall>l. if lvalid l then plist (k_next K) (k_head l K) (L l) else L l = []) \<and>
    (\<forall>l l'. l \<noteq> l' \<longrightarrow> set (L l) \<inter> set (L l') = {}) \<and>
    (\<forall>l. set (L l) \<subseteq> {..<NPROC})"

lemma k_head_links_of [simp]: "k_head l (links_of s) = head l s"
  by (cases l) (simp_all add: links_of_def)

lemma chained_rep: "chained L s = rep L (links_of s)"
  by (simp add: chained_def rep_def) (simp add: links_of_def)

lemma put_links_put_links [simp]: "put_links K (put_links K' s) = put_links K s"
  by (simp add: put_links_def relink_def)

lemma put_links_of [simp]: "put_links (links_of s) s = s"
  by (simp add: put_links_def links_of_def)

lemma links_of_put_links [simp]: "links_of (put_links K s) = K"
  by (simp add: put_links_def links_of_def) (simp add: nexts_def[abs_def] relink_def)

lemma put_links_strip: "put_links K (strip s) = put_links K s"
  by (simp add: put_links_def strip_def relink_def)

lemma strip_eq_put: "strip t = strip s \<Longrightarrow> t = put_links (links_of t) s"
  by (metis put_links_of put_links_strip)

section \<open>Rules for the list operations\<close>

lemma remove_rule:
  assumes "rep L (links_of s)" "p \<in> set (L l)"
    "\<And>K. rep (L(l := remove1 p (L l))) K \<Longrightarrow> Q 0 (put_links K s)"
  shows "wp (removeFromStateList l (Some p)) Q s"
  using assms by (intro wp_removeFromStateList[of L]) (auto simp: chained_rep dest: strip_eq_put, metis strip_eq_put)

lemma addHead_rule:
  assumes "rep L (links_of s)" "lvalid l" "offlist p L"
    "\<And>K. rep (L(l := p # L l)) K \<Longrightarrow> Q 0 (put_links K s)"
  shows "wp (addToStateListHead l (Some p)) Q s"
  using assms by (intro wp_addToStateListHead[of L]) (auto simp: chained_rep, metis strip_eq_put)

lemma addEnd_rule:
  assumes "rep L (links_of s)" "lvalid l" "offlist p L"
    "\<And>K. rep (L(l := L l @ [p])) K \<Longrightarrow> Q 0 (put_links K s)"
  shows "wp (addToStateListEnd l (Some p)) Q s"
  using assms by (intro wp_addToStateListEnd[of L]) (auto simp: chained_rep, metis strip_eq_put)

lemma removeHead_rule:
  assumes "rep L (links_of s)" "lvalid l"
    "\<And>K. rep (L(l := tl (L l))) K \<Longrightarrow>
      Q (case L l of [] \<Rightarrow> None | p # _ \<Rightarrow> Some p) (put_links K s)"
  shows "wp (removeHead l) Q s"
  using assms by (intro wp_removeHead[of L]) (auto simp: chained_rep, metis strip_eq_put)

lemma wp_assertState [wp_simps]:
  "wp (assertState (Some p) st) Q s \<longleftrightarrow> state (procs s p) = st \<and> Q () s"
  by (simp add: assertState_def wp_simps)

lemma repD:
  assumes "rep L K"
  shows "lvalid l \<Longrightarrow> plist (k_next K) (k_head l K) (L l)"
    and "p \<in> set (L l) \<Longrightarrow> lvalid l"
    and "p \<in> set (L l) \<Longrightarrow> p \<in> set (L l') \<Longrightarrow> l = l'"
    and "p \<in> set (L l) \<Longrightarrow> p < NPROC"
    and "distinct (L l)"
    and "length (L l) \<le> NPROC"
  using assms chainedD[of L "put_links K undefined"] by (auto simp: chained_rep) (auto simp: rep_def)

definition hd_opt :: "'b list \<Rightarrow> 'b option" where
  "hd_opt xs = (case xs of [] \<Rightarrow> None | x # _ \<Rightarrow> Some x)"

lemma hd_opt_simps [simp]: "hd_opt [] = None" "hd_opt (x # xs) = Some x"
  by (simp_all add: hd_opt_def)

lemma plist_hd: "plist nx h xs \<Longrightarrow> h = hd_opt xs"
  by (cases xs) auto

lemma plist_next: "plist nx h (pre @ x # xs) \<Longrightarrow> nx x = hd_opt xs"
  by (induction pre arbitrary: h) (auto dest: plist_hd)

lemma rep_head: "rep L K \<Longrightarrow> lvalid l \<Longrightarrow> k_head l K = hd_opt (L l)"
  using repD(1) plist_hd by blast

lemma rep_next: "rep L K \<Longrightarrow> L l = pre @ x # xs \<Longrightarrow> k_next K x = hd_opt xs"
  using repD(1,2)[of L K] plist_next by (metis in_set_conv_decomp)

lemma k_next_links_of: "k_next (links_of s) q = nextp (procs s q)"
  by (simp add: links_of_def nexts_def)

subsection \<open>What the links do not touch\<close>

lemma put_links_sel [simp]:
  "procs (put_links K s) q = (procs s q)\<lparr>nextp := k_next K q\<rparr>"
  "promoteAtTime (put_links K s) = promoteAtTime s" "initproc (put_links K s) = initproc s"
  "nextpid (put_links K s) = nextpid s" "ticks (put_links K s) = ticks s"
  "curproc (put_links K s) = curproc s" "conslog (put_links K s) = conslog s"
  "cr3 (put_links K s) = cr3 s" "esp0 (put_links K s) = esp0 s" "kpgdir (put_links K s) = kpgdir s" "mem (put_links K s) = mem s"
  "freelist (put_links K s) = freelist s" "use_lock (put_links K s) = use_lock s"
  "locks (put_links K s) = locks s" "cpus (put_links K s) = cpus s"
  "iflag (put_links K s) = iflag s" "mycpu (put_links K s) = mycpu s"
  "head l (put_links K s) = k_head l K"
  by (simp_all add: put_links_def relink_def) (cases l; simp)

lemma upd_proc_sel [simp]:
  "procs (upd_proc p f s) q = (if q = p then f (procs s p) else procs s q)"
  "promoteAtTime (upd_proc p f s) = promoteAtTime s" "initproc (upd_proc p f s) = initproc s"
  "nextpid (upd_proc p f s) = nextpid s" "ticks (upd_proc p f s) = ticks s"
  "curproc (upd_proc p f s) = curproc s" "conslog (upd_proc p f s) = conslog s"
  "cr3 (upd_proc p f s) = cr3 s" "esp0 (upd_proc p f s) = esp0 s" "kpgdir (upd_proc p f s) = kpgdir s" "mem (upd_proc p f s) = mem s"
  "freelist (upd_proc p f s) = freelist s" "use_lock (upd_proc p f s) = use_lock s"
  "locks (upd_proc p f s) = locks s" "cpus (upd_proc p f s) = cpus s"
  "iflag (upd_proc p f s) = iflag s" "mycpu (upd_proc p f s) = mycpu s"
  "head l (upd_proc p f s) = head l s"
  by (simp_all add: upd_proc_def) (cases l; simp)

lemma upd_proc_put_links [simp]:
  "(\<And>r n. f (r\<lparr>nextp := n\<rparr>) = (f r)\<lparr>nextp := n\<rparr>) \<Longrightarrow>
    upd_proc p f (put_links K s) = put_links K (upd_proc p f s)"
  by (auto simp: upd_proc_def put_links_def relink_def fun_eq_iff intro!: pst.equality)

lemma links_of_upd_proc [simp]:
  "(\<And>r. nextp (f r) = nextp r) \<Longrightarrow> links_of (upd_proc p f s) = links_of s"
  by (simp add: links_of_def nexts_def[abs_def] fun_eq_iff) (simp add: upd_proc_def)

lemma put_links_upd [simp]:
  "(put_links K s)\<lparr>promoteAtTime := t\<rparr> = put_links K (s\<lparr>promoteAtTime := t\<rparr>)"
  "(put_links K s)\<lparr>esp0 := r0\<rparr> = put_links K (s\<lparr>esp0 := r0\<rparr>)"
  "(put_links K s)\<lparr>cr3 := r3\<rparr> = put_links K (s\<lparr>cr3 := r3\<rparr>)"
  "(put_links K s)\<lparr>conslog := cl\<rparr> = put_links K (s\<lparr>conslog := cl\<rparr>)"
  "(put_links K s)\<lparr>nextpid := t\<rparr> = put_links K (s\<lparr>nextpid := t\<rparr>)"
  "(put_links K s)\<lparr>curproc := cp\<rparr> = put_links K (s\<lparr>curproc := cp\<rparr>)"
  "(put_links K s)\<lparr>initproc := ip\<rparr> = put_links K (s\<lparr>initproc := ip\<rparr>)"
  "(put_links K s)\<lparr>cpus := cs\<rparr> = put_links K (s\<lparr>cpus := cs\<rparr>)"
  "(put_links K s)\<lparr>iflag := fl\<rparr> = put_links K (s\<lparr>iflag := fl\<rparr>)"
  "(put_links K s)\<lparr>mycpu := c\<rparr> = put_links K (s\<lparr>mycpu := c\<rparr>)"
  by (simp_all add: put_links_def relink_def)

lemma links_of_upd [simp]:
  "links_of (s\<lparr>promoteAtTime := t\<rparr>) = links_of s" "links_of (s\<lparr>nextpid := t\<rparr>) = links_of s"
  "links_of (s\<lparr>curproc := cp\<rparr>) = links_of s" "links_of (s\<lparr>initproc := ip\<rparr>) = links_of s"
  "links_of (s\<lparr>cpus := cs\<rparr>) = links_of s" "links_of (s\<lparr>iflag := fl\<rparr>) = links_of s"
  "links_of (s\<lparr>conslog := cl\<rparr>) = links_of s" "links_of (s\<lparr>cr3 := r3\<rparr>) = links_of s"
  "links_of (s\<lparr>esp0 := r0\<rparr>) = links_of s"
  "links_of (s\<lparr>mycpu := c\<rparr>) = links_of s" "links_of (acq lk s) = links_of s"
  "links_of (rel lk s) = links_of s"
  by (simp_all add: links_of_def nexts_def[abs_def] acq_def rel_def)

lemma acq_rel_put_links [simp]:
  "acq lk (put_links K s) = put_links K (acq lk s)"
  "rel lk (put_links K s) = put_links K (rel lk s)"
  by (simp_all add: acq_def rel_def put_links_def relink_def)

lemma acq_rel_upd_proc [simp]:
  "acq lk (upd_proc p f s) = upd_proc p f (acq lk s)"
  "rel lk (upd_proc p f s) = upd_proc p f (rel lk s)"
  by (simp_all add: acq_def rel_def upd_proc_def)

lemma mach_holds_pst [simp]:
  "mach_holds H ie (put_links K s) = mach_holds H ie s"
  "mach_holds H ie (upd_proc p f s) = mach_holds H ie s"
  "mach_holds H ie (s\<lparr>promoteAtTime := t\<rparr>) = mach_holds H ie s"
  "mach_holds H ie (s\<lparr>esp0 := r0\<rparr>) = mach_holds H ie s"
  "mach_holds H ie (s\<lparr>cr3 := r3\<rparr>) = mach_holds H ie s"
  "mach_holds H ie (s\<lparr>conslog := cl\<rparr>) = mach_holds H ie s"
  "mach_holds H ie (s\<lparr>nextpid := t\<rparr>) = mach_holds H ie s"
  "mach_holds H ie (s\<lparr>curproc := cp\<rparr>) = mach_holds H ie s"
  by (simp_all add: mach_holds_def)


subsection \<open>Loops over a list\<close>

definition upd_procs :: "nat set \<Rightarrow> (proc \<Rightarrow> proc) \<Rightarrow> 'a pst_scheme \<Rightarrow> 'a pst_scheme" where
  "upd_procs X f s = s\<lparr>procs := \<lambda>q. if q \<in> X then f (procs s q) else procs s q\<rparr>"

lemma each_from_upd:
  assumes "\<And>r. nextp (f r) = nextp r" "plist (nexts s) h xs" "length xs \<le> n"
  shows "each_from n (\<lambda>p. modify (upd_proc p f)) h s = Inr ((), upd_procs (set xs) f s)"
  using assms(2,3)
proof (induction xs arbitrary: n h s)
  case Nil
  then show ?case by (simp add: ret_def upd_procs_def)
next
  case (Cons x xs)
  then obtain n' where n: "n = Suc n'" by (cases n) auto
  have d: "x \<notin> set xs" using plist_distinct[OF Cons.prems(1)] by simp
  have "nexts (upd_proc x f s) = nexts s"
    using assms(1) by (simp add: nexts_def fun_eq_iff)
  then have "each_from n' (\<lambda>p. modify (upd_proc p f)) (nexts s x) (upd_proc x f s) =
      Inr ((), upd_procs (set xs) f (upd_proc x f s))"
    using Cons n by (intro Cons.IH) auto
  moreover have "upd_procs (set xs) f (upd_proc x f s) = upd_procs (set (x # xs)) f s"
    using d by (auto simp: upd_procs_def upd_proc_def fun_eq_iff)
  ultimately show ?case using n Cons.prems assms(1)
    by (simp add: kbind_run get_next_def nexts_def)
qed

lemma find_from_eq:
  assumes "plist (nexts s) h xs" "length xs \<le> n"
  shows "find_from n test h s = Inr (find (\<lambda>p. test (procs s p)) xs, s)"
  using assms
proof (induction xs arbitrary: n h)
  case (Cons x xs)
  then obtain n' where n: "n = Suc n'" by (cases n) auto
  then show ?case using Cons by (simp add: kmon_defs nexts_def)
qed (simp add: ret_def)

lemma each_saved_rule:
  assumes "J xs s" "length xs \<le> n" "h = hd_opt xs"
    and "\<And>x xs s. J (x # xs) s \<Longrightarrow> nextp (procs s x) = hd_opt xs \<and> wp (body x) (\<lambda>_ t. J xs t) s"
    and "\<And>t. J [] t \<Longrightarrow> Q () t"
  shows "wp (each_saved n body h) Q s"
  using assms(1-3)
proof (induction xs arbitrary: n h s)
  case Nil
  then show ?case using assms(5) by (simp add: wp_simps)
next
  case (Cons x xs)
  then obtain n' where n: "n = Suc n'" by (cases n) auto
  then show ?case using assms(4)[OF Cons.prems(1)] Cons
    by (auto simp: wp_simps get_next_def elim!: wp_mono)
qed

lemma rep_loops:
  assumes "rep L (links_of s)" "lvalid l"
  shows "(\<And>r. nextp (f r) = nextp r) \<Longrightarrow>
      each_from NPROC (\<lambda>p. modify (upd_proc p f)) (head l s) s = Inr ((), upd_procs (set (L l)) f s)"
    and "find_from NPROC test (head l s) s = Inr (find (\<lambda>p. test (procs s p)) (L l), s)"
  using assms each_from_upd[of f s] find_from_eq[of s] repD(1,6)[OF assms(1), of l]
  by (simp_all add: links_of_def) (metis (no_types, lifting) k_head_links_of links_of_def)+

end
