(* ===== verification/Sched.thy ===== *)
theory Sched
  imports Plist "HOL-Library.Sublist"
begin

text \<open>
  The scheduler of \<^verbatim>\<open>proc.c\<close>: the multi-level feedback queue with budgets and promotion, sleep and
  wakeup, kill and \<^verbatim>\<open>setpriority\<close>, on top of the state lists. \<^verbatim>\<open>swtch\<close> saves the running context and
  continues another one, so an operation that calls \<^verbatim>\<open>sched\<close> is split there: \<open>yield_enter\<close> and
  \<open>sleep_enter\<close> run up to the switch and leave in the process what the saved stack would continue
  with, \<open>scheduler_back\<close> is the rest of the scheduler's iteration, \<open>scheduler_pick\<close> is an iteration
  up to its switch, and \<open>resume\<close> continues the chosen process.

  The lemmas give each operation's effect on the lists and on the processes, and that the table
  invariant \<open>pt_ok\<close> (every process is on exactly the list of its state) is preserved.
\<close>

section \<open>Operations\<close>

definition me :: "'a pst_scheme \<Rightarrow> nat option" where
  "me s = curproc s (mycpu s)"

text \<open>\<^verbatim>\<open>proc->...\<close> dereferences the CPU's current process, which may be null.\<close>

definition the_proc :: "('a pst_scheme, nat) kmon" where
  "the_proc = kbind (gets me) (\<lambda>o'. case o' of None \<Rightarrow> stop (Undef ''null proc'') | Some p \<Rightarrow> ret p)"

definition set_proc :: "nat \<Rightarrow> (proc \<Rightarrow> proc) \<Rightarrow> ('a pst_scheme, unit) kmon" where
  "set_proc p f = modify (upd_proc p f)"

definition warn :: "int \<Rightarrow> string \<Rightarrow> ('a pst_scheme, unit) kmon" where
  "warn r msg = kwhen (r < 0) (cprintf msg)"

text \<open>\<^verbatim>\<open>&ptable.pLists.ready[p->priority]\<close>\<close>

definition ready_ref :: "nat \<Rightarrow> ('a pst_scheme, lref) kmon" where
  "ready_ref p = gets (\<lambda>s. LReady (unat (priority (procs s p))))"

definition switchuvm :: "nat \<Rightarrow> ('a pst_scheme, unit) kmon" where
  "switchuvm p =
    kseq pushcli (
    kbind the_proc (\<lambda>cur.
    kseq (modify (\<lambda>s. s\<lparr>esp0 := (esp0 s)(mycpu s := kstack (procs s cur) + KSTACKSIZE)\<rparr>)) (
    kbind (gets (\<lambda>s. pgdir (procs s p))) (\<lambda>pd.
    if pd = 0 then panic ''switchuvm: no pgdir''
    else kseq (modify (\<lambda>s. s\<lparr>cr3 := (cr3 s)(mycpu s := v2p pd)\<rparr>)) popcli))))"

definition switchkvm :: "('a pst_scheme, unit) kmon" where
  "switchkvm = modify (\<lambda>s. s\<lparr>cr3 := (cr3 s)(mycpu s := v2p (kpgdir s))\<rparr>)"

text \<open>
  The budget accounting that \<^verbatim>\<open>yield\<close> and \<^verbatim>\<open>sleep\<close> share: the signed budget goes down by the ticks
  spent on the CPU; when it is used up the process drops one priority level and gets a new budget.
\<close>

definition charge :: "uint \<Rightarrow> proc \<Rightarrow> proc" where
  "charge now r =
    (let b = budget r - (now - cpu_ticks_in r) in
     if sint b \<le> 0
     then r\<lparr>budget := BUDGET,
       priority := (if unat (priority r) < MAXPRIO then priority r + 1 else priority r)\<rparr>
     else r\<lparr>budget := b\<rparr>)"

definition charge_budget :: "nat \<Rightarrow> ('a pst_scheme, unit) kmon" where
  "charge_budget p = kbind (gets ticks) (\<lambda>now. set_proc p (charge now))"

definition sched_enter :: "('a pst_scheme, bool) kmon" where
  "sched_enter =
    kbind (gets (holding PtableLock)) (\<lambda>h.
    if \<not> h then panic ''sched ptable.lock'' else
    kbind (gets (\<lambda>s. ncli (cpus s (mycpu s)))) (\<lambda>n.
    if n \<noteq> 1 then panic ''sched locks'' else
    kbind the_proc (\<lambda>p.
    kbind (gets (\<lambda>s. state (procs s p))) (\<lambda>st.
    if st = RUNNING then panic ''sched running'' else
    kbind (gets readeflags) (\<lambda>fl.
    if fl then panic ''sched interruptible'' else
    kbind (gets (\<lambda>s. intena (cpus s (mycpu s)))) (\<lambda>i.
    kbind (gets ticks) (\<lambda>now.
    kseq (set_proc p (\<lambda>r. r\<lparr>cpu_ticks_total := cpu_ticks_total r + (now - cpu_ticks_in r)\<rparr>)) (
    ret i))))))))"

definition sched_leave :: "bool \<Rightarrow> ('a pst_scheme, unit) kmon" where
  "sched_leave i = set_cpu (\<lambda>c. c\<lparr>intena := i\<rparr>)"

definition yield_enter :: "('a pst_scheme, unit) kmon" where
  "yield_enter =
    kseq (acquire PtableLock) (
    kbind the_proc (\<lambda>p.
    kseq (assertState (Some p) RUNNING) (
    kbind (removeFromStateList LRunning (Some p)) (\<lambda>r.
    kseq (warn r ''Failed to remove RUNNING proc to list (yeild).'') (
    kseq (set_proc p (\<lambda>r. r\<lparr>state := RUNNABLE\<rparr>)) (
    kseq (charge_budget p) (
    kbind (ready_ref p) (\<lambda>l.
    kbind (addToStateListEnd l (Some p)) (\<lambda>r.
    kseq (warn r ''Failed to add RUNNABLE proc to list (yeild).'') (
    kbind sched_enter (\<lambda>i.
    set_proc p (\<lambda>r. r\<lparr>ctxt := Some (InYield i)\<rparr>))))))))))))"

definition sleep_enter :: "chan \<Rightarrow> lockid option \<Rightarrow> ('a pst_scheme, unit) kmon" where
  "sleep_enter ch lk =
    kbind (gets me) (\<lambda>po. case po of
      None \<Rightarrow> panic ''sleep''
    | Some p \<Rightarrow>
    kseq (kwhen (lk \<noteq> Some PtableLock)
      (kseq (acquire PtableLock) (case lk of None \<Rightarrow> ret () | Some l \<Rightarrow> release l))) (
    kseq (set_proc p (\<lambda>r. r\<lparr>chan_of := Some ch\<rparr>)) (
    kseq (assertState (Some p) RUNNING) (
    kbind (removeFromStateList LRunning (Some p)) (\<lambda>r.
    kseq (warn r ''Could not remove RUNNING proc from list (sleep()).'') (
    kseq (set_proc p (\<lambda>r. r\<lparr>state := SLEEPING\<rparr>)) (
    kseq (charge_budget p) (
    kbind (addToStateListEnd LSleep (Some p)) (\<lambda>r.
    kseq (warn r ''Could not add SLEEPING proc to list (sleep()).'') (
    kbind sched_enter (\<lambda>i.
    set_proc p (\<lambda>r. r\<lparr>ctxt := Some (InSleep lk i)\<rparr>))))))))))))"

definition resume :: "('a pst_scheme, unit) kmon" where
  "resume =
    kbind the_proc (\<lambda>p.
    kbind (gets (\<lambda>s. ctxt (procs s p))) (\<lambda>c. case c of
      None \<Rightarrow> stop (Undef ''no saved context'')
    | Some AtForkret \<Rightarrow> release PtableLock
    | Some (InYield i) \<Rightarrow> kseq (sched_leave i) (release PtableLock)
    | Some (InSleep lk i) \<Rightarrow>
        kseq (sched_leave i) (
        kseq (set_proc p (\<lambda>r. r\<lparr>chan_of := None\<rparr>)) (
        kwhen (lk \<noteq> Some PtableLock)
          (kseq (release PtableLock) (case lk of None \<Rightarrow> ret () | Some l \<Rightarrow> acquire l))))
    | Some (InExit i) \<Rightarrow> kseq (sched_leave i) (panic ''zombie exit'')))"

definition wakeup1_body :: "chan \<Rightarrow> nat \<Rightarrow> ('a pst_scheme, unit) kmon" where
  "wakeup1_body ch p =
    kseq (assertState (Some p) SLEEPING) (
    kbind (gets (\<lambda>s. chan_of (procs s p))) (\<lambda>c.
    kwhen (c = Some ch) (
      kbind (removeFromStateList LSleep (Some p)) (\<lambda>r.
      kseq (warn r ''Failed to remove SLEEPING proc to list (wakeup1).'') (
      kseq (set_proc p (\<lambda>r. r\<lparr>state := RUNNABLE\<rparr>)) (
      kbind (ready_ref p) (\<lambda>l.
      kbind (addToStateListEnd l (Some p)) (\<lambda>r.
      warn r ''Failed to add RUNNABLE proc to list (wakeup1).''))))))))"

definition wakeup1 :: "chan \<Rightarrow> ('a pst_scheme, unit) kmon" where
  "wakeup1 ch = kbind (get_head LSleep) (each_saved NPROC (wakeup1_body ch))"

definition wakeup :: "chan \<Rightarrow> ('a pst_scheme, unit) kmon" where
  "wakeup ch = kseq (acquire PtableLock) (kseq (wakeup1 ch) (release PtableLock))"

text \<open>
  \<^verbatim>\<open>kill\<close> looks for the process on the sleep list, then on the other lists in a fixed order; only
  a sleeping process changes its list. The identifier is compared as an unsigned word.
\<close>

definition find_pid :: "uint \<Rightarrow> lref \<Rightarrow> ('a pst_scheme, nat option) kmon" where
  "find_pid n l = kbind (get_head l) (find_from NPROC (\<lambda>r. pid r = n))"

definition mark_killed :: "nat \<Rightarrow> ('a pst_scheme, unit) kmon" where
  "mark_killed p = set_proc p (\<lambda>r. r\<lparr>killed := True\<rparr>)"

fun kill_scan :: "uint \<Rightarrow> lref list \<Rightarrow> ('a pst_scheme, int) kmon" where
  "kill_scan n [] = kseq (release PtableLock) (ret (- 1))"
| "kill_scan n (l # ls) =
    kbind (find_pid n l) (\<lambda>po. case po of
      None \<Rightarrow> kill_scan n ls
    | Some p \<Rightarrow> kseq (mark_killed p) (kseq (release PtableLock) (ret 0)))"

definition kill :: "uint \<Rightarrow> ('a pst_scheme, int) kmon" where
  "kill n =
    kseq (acquire PtableLock) (
    kbind (find_pid n LSleep) (\<lambda>po. case po of
      None \<Rightarrow> kill_scan n [LReady 0, LReady 1, LReady 2, LRunning, LFree, LZombie, LEmbryo]
    | Some p \<Rightarrow>
        kseq (mark_killed p) (
        kseq (assertState (Some p) SLEEPING) (
        kbind (removeFromStateList LSleep (Some p)) (\<lambda>r.
        kseq (warn r ''Could not remove SLEEPING proc from list (kill).'') (
        kseq (set_proc p (\<lambda>r. r\<lparr>state := RUNNABLE\<rparr>)) (
        kbind (ready_ref p) (\<lambda>l.
        kbind (addToStateListEnd l (Some p)) (\<lambda>r.
        kseq (warn r ''Could not add RUNNABLE proc to list (kill).'') (
        kseq (release PtableLock) (ret 0)))))))))))"

definition set_ready_priority :: "nat \<Rightarrow> uint \<Rightarrow> ('a pst_scheme, unit) kmon" where
  "set_ready_priority p prio =
    kbind (ready_ref p) (\<lambda>l.
    kbind (removeFromStateList l (Some p)) (\<lambda>r.
    kseq (warn r ''setpriority: remove from ready list[%d] failed.'') (
    kseq (set_proc p (\<lambda>r. r\<lparr>priority := prio\<rparr>)) (
    kbind (ready_ref p) (\<lambda>l'.
    kbind (addToStateListEnd l' (Some p)) (\<lambda>r.
    kseq (warn r ''setpriority: add to ready list[%d] failed.'') (
    set_proc p (\<lambda>r. r\<lparr>budget := BUDGET\<rparr>))))))))"

fun setpriority_scan :: "uint \<Rightarrow> uint \<Rightarrow> lref list \<Rightarrow> ('a pst_scheme, int) kmon" where
  "setpriority_scan n prio [] = kseq (release PtableLock) (ret (- 1))"
| "setpriority_scan n prio (l # ls) =
    kbind (find_pid n l) (\<lambda>po. case po of
      None \<Rightarrow> setpriority_scan n prio ls
    | Some p \<Rightarrow>
        kseq (case l of
            LReady _ \<Rightarrow> set_ready_priority p prio
          | _ \<Rightarrow> set_proc p (\<lambda>r. r\<lparr>priority := prio, budget := BUDGET\<rparr>)) (
        kseq (release PtableLock) (ret 0)))"

definition setpriority :: "uint \<Rightarrow> uint \<Rightarrow> ('a pst_scheme, int) kmon" where
  "setpriority n prio =
    kseq (acquire PtableLock) (
    setpriority_scan n prio [LReady 0, LReady 1, LReady 2, LRunning, LSleep])"

definition promote :: "proc \<Rightarrow> proc" where
  "promote r = (if priority r > 0 then r\<lparr>priority := priority r - 1\<rparr> else r)"

definition promote_body :: "nat \<Rightarrow> ('a pst_scheme, unit) kmon" where
  "promote_body p =
    kseq (assertState (Some p) RUNNABLE) (
    kbind (ready_ref p) (\<lambda>l.
    kbind (removeFromStateList l (Some p)) (\<lambda>r.
    kseq (warn r ''promoteAll: Could not remove from ready list.'') (
    kseq (set_proc p promote) (
    kbind (ready_ref p) (\<lambda>l'.
    kbind (addToStateListEnd l' (Some p)) (\<lambda>r.
    warn r ''promoteAll: Could not add to ready list.'')))))))"

definition promote_level :: "nat \<Rightarrow> ('a pst_scheme, unit) kmon" where
  "promote_level i = kbind (get_head (LReady i)) (each_saved NPROC promote_body)"

definition promote_list :: "lref \<Rightarrow> ('a pst_scheme, unit) kmon" where
  "promote_list l = kbind (get_head l) (each_from NPROC (\<lambda>p. modify (upd_proc p promote)))"

definition promoteAll :: "('a pst_scheme, unit) kmon" where
  "promoteAll =
    kseq (kfor promote_level [1..<MAXPRIO + 1]) (kseq (promote_list LSleep) (promote_list LRunning))"

definition pick_from :: "nat \<Rightarrow> ('a pst_scheme, nat option) kmon" where
  "pick_from i =
    kbind (get_head (LReady i)) (\<lambda>h. case h of
      None \<Rightarrow> ret None
    | Some p \<Rightarrow>
        kseq (assertState (Some p) RUNNABLE) (
        kbind (ready_ref p) (\<lambda>l.
        kbind (removeHead l) (\<lambda>po. case po of
          None \<Rightarrow> panic ''Scheduler: removeHead failed.''
        | Some p \<Rightarrow>
            kseq (modify (\<lambda>s. s\<lparr>curproc := (curproc s)(mycpu s := Some p)\<rparr>)) (
            kseq (switchuvm p) (
            kseq (set_proc p (\<lambda>r. r\<lparr>state := RUNNING\<rparr>)) (
            kbind (addToStateListEnd LRunning (Some p)) (\<lambda>r.
            kseq (warn r ''Failed to add RUNNING proc to list (scheduler).'') (
            kbind (gets ticks) (\<lambda>now.
            kseq (set_proc p (\<lambda>r. r\<lparr>cpu_ticks_in := now\<rparr>)) (
            ret (Some p))))))))))))"

definition promote_timer :: "('a pst_scheme, unit) kmon" where
  "promote_timer =
    kbind (gets ticks) (\<lambda>now.
    kbind (gets promoteAtTime) (\<lambda>at.
    kwhen (at = now) (
      kseq promoteAll (modify (\<lambda>s. s\<lparr>promoteAtTime := now + TIME_TO_PROMOTE\<rparr>)))))"

text \<open>
  One iteration of \<^verbatim>\<open>scheduler\<close>: up to the call of \<^verbatim>\<open>swtch\<close> when a process was found, and the whole
  iteration, up to \<^verbatim>\<open>hlt\<close>, when there was none.
\<close>

definition scheduler_pick :: "('a pst_scheme, nat option) kmon" where
  "scheduler_pick =
    kseq sti (
    kseq (acquire PtableLock) (
    kseq promote_timer (
    kbind (kfind pick_from [0..<MAXPRIO + 1]) (\<lambda>po. case po of
      Some p \<Rightarrow> ret (Some p)
    | None \<Rightarrow> kseq (release PtableLock) (kseq sti (ret None))))))"

definition scheduler_back :: "('a pst_scheme, unit) kmon" where
  "scheduler_back =
    kseq switchkvm (
    kseq (modify (\<lambda>s. s\<lparr>curproc := (curproc s)(mycpu s := None)\<rparr>)) (
    release PtableLock))"

section \<open>The table invariant\<close>

text \<open>
  The list on which a process belongs, and the invariant of the table: every process that is not
  in \<open>X\<close> is on the list of its state, and on no other. \<open>X\<close> is empty except in the middle of an
  operation.
\<close>

definition home :: "proc \<Rightarrow> lref" where
  "home r = (case state r of UNUSED \<Rightarrow> LFree | EMBRYO \<Rightarrow> LEmbryo | SLEEPING \<Rightarrow> LSleep
    | RUNNABLE \<Rightarrow> LReady (unat (priority r)) | RUNNING \<Rightarrow> LRunning | ZOMBIE \<Rightarrow> LZombie)"

definition homed :: "nat set \<Rightarrow> (lref \<Rightarrow> nat list) \<Rightarrow> 'a pst_scheme \<Rightarrow> bool" where
  "homed X L s \<longleftrightarrow>
    (\<forall>l q. q \<in> set (L l) \<longleftrightarrow> q < NPROC \<and> q \<notin> X \<and> home (procs s q) = l) \<and>
    (\<forall>q < NPROC. unat (priority (procs s q)) \<le> MAXPRIO)"

definition pt_ok :: "(lref \<Rightarrow> nat list) \<Rightarrow> 'a pst_scheme \<Rightarrow> bool" where
  "pt_ok L s \<longleftrightarrow> rep L (links_of s) \<and> homed {} L s"

lemma upd_proc_twice [simp]: "upd_proc p f (upd_proc p g s) = upd_proc p (f \<circ> g) s"
  by (simp add: upd_proc_def)

lemma home_simps [simp]:
  "home (r\<lparr>nextp := n\<rparr>) = home r" "home (r\<lparr>ctxt := c\<rparr>) = home r" "home (r\<lparr>killed := b\<rparr>) = home r"
  "home (r\<lparr>chan_of := ch\<rparr>) = home r" "home (r\<lparr>cpu_ticks_total := w\<rparr>) = home r"
  "home (r\<lparr>cpu_ticks_in := w\<rparr>) = home r" "home (r\<lparr>budget := w\<rparr>) = home r"
  "home (r\<lparr>parent := q\<rparr>) = home r"
  by (simp_all add: home_def split: procstate.split)

lemma homed_frame:
  assumes "\<And>q. home (procs t q) = home (procs s q)" "\<And>q. priority (procs t q) = priority (procs s q)"
  shows "homed X L t = homed X L s"
  by (simp add: homed_def assms)

lemma homed_simps [simp]:
  "homed X L (put_links K s) = homed X L s" "homed X L (acq lk s) = homed X L s"
  "homed X L (rel lk s) = homed X L s" "homed X L (s\<lparr>curproc := cp\<rparr>) = homed X L s"
  "homed X L (s\<lparr>cr3 := r3\<rparr>) = homed X L s" "homed X L (s\<lparr>esp0 := r0\<rparr>) = homed X L s"
  "homed X L (s\<lparr>promoteAtTime := w\<rparr>) = homed X L s" "homed X L (s\<lparr>cpus := cs\<rparr>) = homed X L s"
  "homed X L (s\<lparr>iflag := fl\<rparr>) = homed X L s" "homed X L (s\<lparr>mycpu := c\<rparr>) = homed X L s"
  by (rule homed_frame; simp add: acq_def rel_def)+

lemma homed_upd_frame [simp]:
  assumes "\<And>r. home (f r) = home r" "\<And>r. priority (f r) = priority r"
  shows "homed X L (upd_proc p f s) = homed X L s"
  by (rule homed_frame) (simp_all add: assms)

lemma homedD:
  assumes "homed X L s"
  shows "q \<in> set (L l) \<Longrightarrow> home (procs s q) = l" "q \<in> set (L l) \<Longrightarrow> q < NPROC"
    "q < NPROC \<Longrightarrow> q \<notin> X \<Longrightarrow> q \<in> set (L (home (procs s q)))"
    "q < NPROC \<Longrightarrow> unat (priority (procs s q)) \<le> MAXPRIO"
  using assms by (auto simp: homed_def)

lemma homed_offlist: "homed X L s \<Longrightarrow> p \<in> X \<Longrightarrow> p < NPROC \<Longrightarrow> offlist p L"
  by (auto simp: homed_def offlist_def)

lemma homed_remove:
  assumes "homed X L s" "p \<in> set (L l)" "distinct (L l)"
  shows "homed (insert p X) (L(l := remove1 p (L l))) s"
  using assms by (auto simp: homed_def)

lemma homed_add:
  assumes "homed (insert p X) L s" "p \<notin> X" "p < NPROC" "home (procs s p) = l"
    "set xs = insert p (set (L l))"
  shows "homed X (L(l := xs)) s"
  using assms by (auto simp: homed_def)

lemma homed_upd:
  assumes "homed X L s" "p \<in> X" "unat (priority (f (procs s p))) \<le> MAXPRIO"
  shows "homed X L (upd_proc p f s)"
  using assms by (auto simp: homed_def)

lemma lvalid_home: "homed X L s \<Longrightarrow> q < NPROC \<Longrightarrow> lvalid (home (procs s q))"
  by (auto simp: home_def homedD split: procstate.split)

text \<open>Moving one process to another list.\<close>

lemma homed_move:
  assumes "homed {} L s" "p \<in> set (L l)" "distinct (L l)"
    "unat (priority (f (procs s p))) \<le> MAXPRIO" "home (f (procs s p)) = l'"
    "set xs = insert p (set ((L(l := remove1 p (L l))) l'))"
  shows "homed {} (L(l := remove1 p (L l), l' := xs)) (upd_proc p f s)"
proof (rule homed_add)
  show "homed {p} (L(l := remove1 p (L l))) (upd_proc p f s)"
    using homed_remove[OF assms(1-3)] assms(4) by (intro homed_upd) auto
  show "p < NPROC" using homedD(2)[OF assms(1,2)] .
qed (use assms in auto)

section \<open>Leaving the processor\<close>

text \<open>What \<^verbatim>\<open>yield\<close> and \<^verbatim>\<open>sleep\<close> make of the process that leaves the processor.\<close>

definition left_cpu :: "uint \<Rightarrow> procstate \<Rightarrow> kcontext \<Rightarrow> proc \<Rightarrow> proc" where
  "left_cpu now st c r = (charge now (r\<lparr>state := st\<rparr>))\<lparr>
    cpu_ticks_total := cpu_ticks_total r + (now - cpu_ticks_in r), ctxt := Some c\<rparr>"

lemma charge_sel [simp]:
  "state (charge now r) = state r" "nextp (charge now r) = nextp r"
  "cpu_ticks_total (charge now r) = cpu_ticks_total r" "cpu_ticks_in (charge now r) = cpu_ticks_in r"
  "charge now (r\<lparr>nextp := n\<rparr>) = (charge now r)\<lparr>nextp := n\<rparr>"
  by (simp_all add: charge_def Let_def)

lemma charge_priority: "unat (priority r) \<le> MAXPRIO \<Longrightarrow> unat (priority (charge now r)) \<le> MAXPRIO"
  by (auto simp: charge_def Let_def layout unat_word_ariths)

lemma sched_enter_eq:
  assumes "mach_holds {PtableLock} ie s" "me s = Some p" "state (procs s p) \<noteq> RUNNING"
  shows "sched_enter s = Inr (ie, upd_proc p (\<lambda>r. r\<lparr>cpu_ticks_total :=
    cpu_ticks_total r + (ticks s - cpu_ticks_in r)\<rparr>) s)"
  using assms mach_holds_holding[OF assms(1), of PtableLock]
  by (simp add: sched_enter_def kmon_defs the_proc_def set_proc_def readeflags_def mach_holds_def)

lemma me_simps [simp]:
  "me (put_links K s) = me s" "me (upd_proc p f s) = me s" "me (acq lk s) = me s"
  "me (rel lk s) = me s" "me (s\<lparr>cr3 := r3\<rparr>) = me s" "me (s\<lparr>esp0 := r0\<rparr>) = me s"
  "me (s\<lparr>promoteAtTime := w\<rparr>) = me s"
  by (simp_all add: me_def acq_def rel_def)

lemma acq_rel_sel [simp]:
  "procs (acq lk s) = procs s" "ticks (acq lk s) = ticks s" "curproc (acq lk s) = curproc s"
  "mycpu (acq lk s) = mycpu s" "procs (rel lk s) = procs s" "ticks (rel lk s) = ticks s"
  "curproc (rel lk s) = curproc s" "mycpu (rel lk s) = mycpu s" "conslog (acq lk s) = conslog s"
  "conslog (rel lk s) = conslog s" "head l (acq lk s) = head l s" "head l (rel lk s) = head l s"
  "promoteAtTime (acq lk s) = promoteAtTime s" "initproc (acq lk s) = initproc s"
  by (simp_all add: acq_def rel_def) (cases l; simp)+

lemma wp_the_proc [wp_simps]: "wp the_proc Q s \<longleftrightarrow> (\<exists>p. me s = Some p \<and> Q p s)"
  by (cases "me s") (simp_all add: the_proc_def wp_simps)

lemmas op_wp = wp_simps set_proc_def warn_def ready_ref_def charge_budget_def

lemma wp_sched_enter:
  assumes "mach_holds {PtableLock} ie s" "me s = Some p" "state (procs s p) \<noteq> RUNNING"
  shows "wp sched_enter Q s \<longleftrightarrow> Q ie (upd_proc p (\<lambda>r. r\<lparr>cpu_ticks_total :=
    cpu_ticks_total r + (ticks s - cpu_ticks_in r)\<rparr>) s)"
  by (simp add: wp_def sched_enter_eq[OF assms])

text \<open>The lists after process \<open>p\<close> moved from list \<open>l\<close> to the end of \<open>l'\<close>.\<close>

definition moved :: "nat \<Rightarrow> lref \<Rightarrow> lref \<Rightarrow> (lref \<Rightarrow> nat list) \<Rightarrow> lref \<Rightarrow> nat list" where
  "moved p l l' L = L(l := remove1 p (L l), l' := (L(l := remove1 p (L l))) l' @ [p])"

lemma pt_ok_moved:
  assumes ok: "pt_ok L s" and p: "p \<in> set (L l)" and K: "rep (moved p l l' L) K"
    and f: "unat (priority (f (procs s p))) \<le> MAXPRIO" "home (f (procs s p)) = l'"
  shows "pt_ok (moved p l l' L) (put_links K (upd_proc p f s))"
proof -
  have "rep L (links_of s)" "homed {} L s" using ok by (simp_all add: pt_ok_def)
  then have "homed {} (moved p l l' L) (upd_proc p f s)"
    unfolding moved_def using p f repD(5) by (intro homed_move) auto
  then show ?thesis using K by (simp add: pt_ok_def)
qed

lemma wp_yield_enter:
  assumes h: "mach_holds {} ie s" and ok: "pt_ok L s" and p: "me s = Some p" "p < NPROC"
    "state (procs s p) = RUNNING"
  defines "f \<equiv> left_cpu (ticks s) RUNNABLE (InYield ie)"
  defines "l' \<equiv> LReady (unat (priority (f (procs s p))))"
  assumes Q: "\<And>K. rep (moved p LRunning l' L) K \<Longrightarrow>
    Q () (put_links K (upd_proc p f (acq PtableLock s)))"
  shows "wp yield_enter Q s"
proof -
  let ?s1 = "acq PtableLock s"
  have rep: "rep L (links_of ?s1)" and hm: "homed {} L s" using ok by (auto simp: pt_ok_def)
  have in': "p \<in> set (L LRunning)"
    using homedD(3)[OF hm p(2)] p(3) by (simp add: home_def)
  have h1: "mach_holds {PtableLock} ie ?s1" using mach_holds_acq[OF h] by simp
  have off: "offlist p (L(LRunning := remove1 p (L LRunning)))"
    using homed_offlist[OF homed_remove[OF hm in' repD(5)[OF rep]], of p] p by simp
  show ?thesis
    unfolding yield_enter_def
    apply (simp add: op_wp wp_acquire[OF h] p)
    apply (rule remove_rule[OF rep in'])
    apply (simp add: op_wp p comp_def)
    apply (rule addEnd_rule[OF _ _ off])
      apply simp
     apply (simp add: charge_priority homedD(4)[OF hm p(2)])
    apply (simp add: op_wp)
    apply (subst wp_sched_enter[where ie = ie and p = p])
       apply (simp_all add: h1 p op_wp comp_def)
    using Q by (simp add: f_def l'_def left_cpu_def[abs_def] moved_def)
qed

definition locks_of :: "lockid option \<Rightarrow> lockid set" where
  "locks_of lk = (case lk of None \<Rightarrow> {} | Some l \<Rightarrow> {l})"

text \<open>The machine after \<^verbatim>\<open>sleep\<close> took the table lock and released the caller's lock.\<close>

definition sleep_locks :: "lockid option \<Rightarrow> 'a pst_scheme \<Rightarrow> 'a pst_scheme" where
  "sleep_locks lk s = (case lk of None \<Rightarrow> acq PtableLock s
    | Some l \<Rightarrow> if l = PtableLock then s else rel l (acq PtableLock s))"

lemma sleep_locks_simps [simp]:
  "procs (sleep_locks lk s) = procs s" "me (sleep_locks lk s) = me s"
  "ticks (sleep_locks lk s) = ticks s" "links_of (sleep_locks lk s) = links_of s"
  "homed X L (sleep_locks lk s) = homed X L s" "conslog (sleep_locks lk s) = conslog s"
  "pt_ok L (sleep_locks lk s) = pt_ok L s"
  by (auto simp: sleep_locks_def pt_ok_def split: option.split)

lemma sleep_locks_rule:
  assumes h: "mach_holds (locks_of lk) ie s"
  shows "mach_holds {PtableLock} ie (sleep_locks lk s)"
    and "wp (kwhen (lk \<noteq> Some PtableLock)
      (kseq (acquire PtableLock) (case lk of None \<Rightarrow> ret () | Some l \<Rightarrow> release l))) Q s
      \<longleftrightarrow> Q () (sleep_locks lk s)"
proof -
  consider "lk = None" | "lk = Some PtableLock" | l where "lk = Some l" "l \<noteq> PtableLock"
    by (cases lk) auto
  then have "mach_holds {PtableLock} ie (sleep_locks lk s) \<and>
    (wp (kwhen (lk \<noteq> Some PtableLock)
      (kseq (acquire PtableLock) (case lk of None \<Rightarrow> ret () | Some l \<Rightarrow> release l))) Q s
      \<longleftrightarrow> Q () (sleep_locks lk s))"
  proof cases
    case 1
    then show ?thesis using h mach_holds_acq[of "{}" ie s PtableLock]
      by (simp add: sleep_locks_def locks_of_def wp_simps wp_acquire)
  next
    case 2
    then show ?thesis using h by (simp add: sleep_locks_def locks_of_def wp_simps)
  next
    case 3
    then have a: "mach_holds {PtableLock, l} ie (acq PtableLock s)"
      using h mach_holds_acq[of "{l}" ie s PtableLock] by (simp add: locks_of_def)
    then have "mach_holds {PtableLock} ie (rel l (acq PtableLock s))"
      using mach_holds_rel[of "{PtableLock, l}" ie "acq PtableLock s" l] 3 by (simp add: insert_Diff_if)
    then show ?thesis using 3 h wp_release[OF a, of l Q]
      by (simp add: sleep_locks_def locks_of_def wp_simps wp_acquire[of "{l}" ie])
  qed
  then show "mach_holds {PtableLock} ie (sleep_locks lk s)"
    and "wp (kwhen (lk \<noteq> Some PtableLock)
      (kseq (acquire PtableLock) (case lk of None \<Rightarrow> ret () | Some l \<Rightarrow> release l))) Q s
      \<longleftrightarrow> Q () (sleep_locks lk s)" by blast+
qed

lemma wp_sleep_enter:
  fixes ch :: chan
  assumes h: "mach_holds (locks_of lk) ie s" and ok: "pt_ok L s"
    and p: "me s = Some p" "p < NPROC" "state (procs s p) = RUNNING"
  defines "f \<equiv> \<lambda>r. left_cpu (ticks s) SLEEPING (InSleep lk ie) (r\<lparr>chan_of := Some ch\<rparr>)"
  assumes Q: "\<And>K. rep (moved p LRunning LSleep L) K \<Longrightarrow>
    Q () (put_links K (upd_proc p f (sleep_locks lk s)))"
  shows "wp (sleep_enter ch lk) Q s"
proof -
  let ?s1 = "sleep_locks lk s"
  have rep: "rep L (links_of (upd_proc p (\<lambda>r. r\<lparr>chan_of := Some ch\<rparr>) ?s1))" and hm: "homed {} L s"
    using ok by (auto simp: pt_ok_def)
  have in': "p \<in> set (L LRunning)"
    using homedD(3)[OF hm p(2)] p(3) by (simp add: home_def)
  have off: "offlist p (L(LRunning := remove1 p (L LRunning)))"
    using homed_offlist[OF homed_remove[OF hm in' repD(5)[OF rep]], of p] p by simp
  show ?thesis
    unfolding sleep_enter_def
    apply (simp add: wp_kbind wp_gets p)
    apply (subst sleep_locks_rule(2)[OF h])
    apply (simp add: op_wp p)
    apply (rule remove_rule[OF rep in'])
    apply (simp add: op_wp p comp_def)
    apply (rule addEnd_rule[OF _ _ off])
      apply simp
     apply simp
    apply (simp add: op_wp)
    apply (subst wp_sched_enter[where ie = ie and p = p])
       apply (simp_all add: sleep_locks_rule(1)[OF h] p op_wp comp_def)
    using Q by (simp add: f_def left_cpu_def[abs_def] moved_def)
qed

text \<open>The state after the scheduler took the processor back.\<close>

definition off_cpu :: "'a pst_scheme \<Rightarrow> 'a pst_scheme" where
  "off_cpu s = rel PtableLock (s\<lparr>cr3 := (cr3 s)(mycpu s := v2p (kpgdir s)),
    curproc := (curproc s)(mycpu s := None)\<rparr>)"

lemma off_cpu_simps [simp]:
  "procs (off_cpu s) = procs s" "me (off_cpu s) = None" "conslog (off_cpu s) = conslog s"
  "links_of (off_cpu s) = links_of s" "homed X L (off_cpu s) = homed X L s"
  "pt_ok L (off_cpu s) = pt_ok L s" "ticks (off_cpu s) = ticks s" "mycpu (off_cpu s) = mycpu s"
  "curproc (off_cpu s) = (curproc s)(mycpu s := None)"
  by (simp_all add: off_cpu_def pt_ok_def) (simp add: rel_def me_def)

lemma wp_scheduler_back:
  assumes "mach_holds {PtableLock} ie s"
  shows "wp scheduler_back Q s \<longleftrightarrow> Q () (off_cpu s)"
  by (simp add: scheduler_back_def switchkvm_def wp_simps wp_release[where H = "{PtableLock}" and ie = ie]
      assms off_cpu_def)

lemma mach_holds_off_cpu: "mach_holds {PtableLock} ie s \<Longrightarrow> mach_holds {} ie (off_cpu s)"
  unfolding off_cpu_def by (rule mach_holds_rel_insert) simp_all

section \<open>Waking up\<close>

definition woken :: "chan \<Rightarrow> (nat \<Rightarrow> proc) \<Rightarrow> nat \<Rightarrow> bool" where
  "woken ch ps p \<longleftrightarrow> chan_of (ps p) = Some ch"

text \<open>
  The lists after a wakeup: the sleepers on the channel leave the sleep list and join, in the order
  in which they fell asleep, the ends of the ready lists of their priorities.
\<close>

definition woken_lists :: "(nat \<Rightarrow> bool) \<Rightarrow> (nat \<Rightarrow> proc) \<Rightarrow> nat list \<Rightarrow> (lref \<Rightarrow> nat list) \<Rightarrow>
    lref \<Rightarrow> nat list" where
  "woken_lists W ps xs L l = (case l of
      LReady i \<Rightarrow> L l @ filter (\<lambda>p. W p \<and> unat (priority (ps p)) = i) xs
    | LSleep \<Rightarrow> filter (\<lambda>p. \<not> (p \<in> set xs \<and> W p)) (L l)
    | _ \<Rightarrow> L l)"

lemma woken_lists_Nil [simp]: "woken_lists W ps [] L = L"
  by (auto simp: woken_lists_def fun_eq_iff split: lref.split)

lemma woken_lists_Cons:
  assumes "distinct (L LSleep)" "x \<notin> set xs"
  shows "woken_lists W ps (x # xs) L =
    woken_lists W ps xs (if W x then moved x LSleep (LReady (unat (priority (ps x)))) L else L)"
proof (rule ext)
  fix l
  show "woken_lists W ps (x # xs) L l =
    woken_lists W ps xs (if W x then moved x LSleep (LReady (unat (priority (ps x)))) L else L) l"
    using assms(1,2)
    by (cases l) (auto simp: woken_lists_def moved_def distinct_remove1_removeAll removeAll_filter_not_eq
      intro!: filter_cong)
qed

lemma home_iff [simp]:
  "home r = LSleep \<longleftrightarrow> state r = SLEEPING" "home r = LRunning \<longleftrightarrow> state r = RUNNING"
  "home r = LFree \<longleftrightarrow> state r = UNUSED" "home r = LZombie \<longleftrightarrow> state r = ZOMBIE"
  "home r = LEmbryo \<longleftrightarrow> state r = EMBRYO"
  "home r = LReady i \<longleftrightarrow> state r = RUNNABLE \<and> unat (priority r) = i"
  by (auto simp: home_def split: procstate.split)

lemma pt_okD:
  assumes "pt_ok L s"
  shows "rep L (links_of s)" "p \<in> set (L l) \<Longrightarrow> p < NPROC" "p \<in> set (L l) \<Longrightarrow> home (procs s p) = l"
    "p \<in> set (L l) \<Longrightarrow> unat (priority (procs s p)) \<le> MAXPRIO" "distinct (L l)"
    "p < NPROC \<Longrightarrow> p \<in> set (L (home (procs s p)))"
    "lvalid l \<Longrightarrow> head l s = hd_opt (L l)" "p \<in> set (L l) \<Longrightarrow> lvalid l"
  using assms homedD[of "{}" L s] repD(2,5)[of L "links_of s"] rep_head[of L "links_of s"]
  unfolding pt_ok_def by auto

lemma pt_ok_offlist:
  "pt_ok L s \<Longrightarrow> p \<in> set (L l) \<Longrightarrow> offlist p (L(l := remove1 p (L l)))"
  using homed_offlist[OF homed_remove, of "{}" L s p l p] homedD(2) repD(5)
  unfolding pt_ok_def by blast

lemma wp_wakeup1_body:
  assumes ok: "pt_ok L s" and p: "p \<in> set (L LSleep)"
    and W: "\<And>K. chan_of (procs s p) = Some ch \<Longrightarrow>
      rep (moved p LSleep (LReady (unat (priority (procs s p)))) L) K \<Longrightarrow>
      Q () (put_links K (upd_proc p (\<lambda>r. r\<lparr>state := RUNNABLE\<rparr>) s))"
    and N: "chan_of (procs s p) \<noteq> Some ch \<Longrightarrow> Q () s"
  shows "wp (wakeup1_body ch p) Q s"
proof -
  have rep: "rep L (links_of s)" and hm: "homed {} L s" using ok by (auto simp: pt_ok_def)
  have st: "state (procs s p) = SLEEPING" using homedD(1)[OF hm p] by simp
  have lt: "unat (priority (procs s p)) \<le> MAXPRIO" using homedD(4)[OF hm homedD(2)[OF hm p]] .
  show ?thesis
  proof (cases "chan_of (procs s p) = Some ch")
    case True
    show ?thesis unfolding wakeup1_body_def
      apply (simp add: op_wp st True)
      apply (rule remove_rule[OF rep p])
      apply (simp add: op_wp)
      apply (rule addEnd_rule[OF _ _ pt_ok_offlist[OF ok p]])
        apply (simp_all add: lt op_wp)
      using W[OF True] by (simp add: moved_def)
  qed (use N st in \<open>simp add: wakeup1_body_def op_wp\<close>)
qed

lemma upd_procs_insert:
  "p \<notin> A \<Longrightarrow> upd_proc p f (upd_procs A f s) = upd_procs (insert p A) f s"
  by (auto simp: upd_procs_def upd_proc_def fun_eq_iff)

lemma upd_procs_empty [simp]: "upd_procs {} f s = s"
  by (simp add: upd_procs_def)

lemma procs_upd_procs [simp]:
  "procs (upd_procs A f s) q = (if q \<in> A then f (procs s q) else procs s q)"
  by (simp add: upd_procs_def)

definition wakeup1_inv :: "chan \<Rightarrow> (lref \<Rightarrow> nat list) \<Rightarrow> 'a pst_scheme \<Rightarrow> nat list \<Rightarrow>
    'a pst_scheme \<Rightarrow> bool" where
  "wakeup1_inv ch L s xs t \<longleftrightarrow> (\<exists>L' K A.
    t = put_links K (upd_procs A (\<lambda>r. r\<lparr>state := RUNNABLE\<rparr>) s) \<and> pt_ok L' t \<and>
    suffix xs (L' LSleep) \<and> A \<inter> set xs = {} \<and>
    woken_lists (woken ch (procs s)) (procs s) xs L' =
      woken_lists (woken ch (procs s)) (procs s) (L LSleep) L \<and>
    A \<union> {p \<in> set xs. woken ch (procs s) p} = {p \<in> set (L LSleep). woken ch (procs s) p})"

lemma wakeup1_step:
  assumes "wakeup1_inv ch L s (x # xs) t"
  shows "nextp (procs t x) = hd_opt xs \<and> wp (wakeup1_body ch x) (\<lambda>_. wakeup1_inv ch L s xs) t"
proof -
  let ?f = "\<lambda>r :: proc. r\<lparr>state := RUNNABLE\<rparr>" and ?W = "woken ch (procs s)"
  obtain L' K A pre where t: "t = put_links K (upd_procs A ?f s)" "pt_ok L' t"
    "L' LSleep = pre @ x # xs" "A \<inter> set (x # xs) = {}"
    "woken_lists ?W (procs s) (x # xs) L' = woken_lists ?W (procs s) (L LSleep) L"
    "A \<union> {p \<in> set (x # xs). ?W p} = {p \<in> set (L LSleep). ?W p}"
    using assms unfolding wakeup1_inv_def suffix_def by blast
  have rep: "rep L' K" using t(1,2) by (simp add: pt_ok_def)
  have d: "distinct (pre @ x # xs)" using repD(5)[OF rep, of LSleep] t(3) by simp
  have x: "procs t x = (procs s x)\<lparr>nextp := k_next K x\<rparr>" using t(1,4) by simp
  have nx: "nextp (procs t x) = hd_opt xs" using x rep_next[OF rep t(3)] by simp
  have lists: "woken_lists ?W (procs s) xs
      (if ?W x then moved x LSleep (LReady (unat (priority (procs s x)))) L' else L') =
      woken_lists ?W (procs s) (L LSleep) L"
    using woken_lists_Cons[of L' x xs ?W "procs s"] t(3,5) d by auto
  have "wp (wakeup1_body ch x) (\<lambda>_. wakeup1_inv ch L s xs) t"
  proof (rule wp_wakeup1_body[OF t(2)])
    show "x \<in> set (L' LSleep)" using t(3) by simp
    show "wakeup1_inv ch L s xs t" if "chan_of (procs t x) \<noteq> Some ch"
      using that t x lists unfolding wakeup1_inv_def woken_def
      by (intro exI[of _ L'] exI[of _ K] exI[of _ A]) (auto simp: suffix_def)
  next
    fix K'
    let ?L = "moved x LSleep (LReady (unat (priority (procs t x)))) L'"
    assume c: "chan_of (procs t x) = Some ch" and K': "rep ?L K'"
    let ?u = "put_links K' (upd_proc x ?f t)"
    have u: "?u = put_links K' (upd_procs (insert x A) ?f s)"
      using t(1,4) by (simp add: upd_procs_insert)
    have "unat (priority (procs t x)) \<le> MAXPRIO"
      using pt_okD(4)[OF t(2), of x LSleep] t(3) by simp
    then have ok: "pt_ok ?L ?u"
      using t(3) K' by (intro pt_ok_moved[OF t(2)]) (simp_all add: home_def)
    have "?L LSleep = pre @ xs" using t(3) d by (simp add: moved_def remove1_append)
    then show "wakeup1_inv ch L s xs ?u"
      using ok t x c lists d unfolding wakeup1_inv_def woken_def u
      by (intro exI[of _ ?L] exI[of _ K'] exI[of _ "insert x A"]) (auto simp: suffix_def)
  qed
  then show ?thesis using nx by simp
qed

lemma wp_wakeup1:
  fixes ch :: chan
  assumes ok: "pt_ok L s"
  defines "W \<equiv> woken ch (procs s)"
  defines "L' \<equiv> woken_lists W (procs s) (L LSleep) L"
  assumes Q: "\<And>K. pt_ok L' (put_links K (upd_procs {p \<in> set (L LSleep). W p}
      (\<lambda>r. r\<lparr>state := RUNNABLE\<rparr>) s)) \<Longrightarrow>
    Q () (put_links K (upd_procs {p \<in> set (L LSleep). W p} (\<lambda>r. r\<lparr>state := RUNNABLE\<rparr>) s))"
  shows "wp (wakeup1 ch) Q s"
proof -
  have rep: "rep L (links_of s)" using ok by (simp add: pt_ok_def)
  have "wp (each_saved NPROC (wakeup1_body ch) (head LSleep s)) Q s"
  proof (rule each_saved_rule[where J = "wakeup1_inv ch L s"])
    show "wakeup1_inv ch L s (L LSleep) s"
      unfolding wakeup1_inv_def using ok
      by (intro exI[of _ L] exI[of _ "links_of s"] exI[of _ "{}"]) auto
    show "length (L LSleep) \<le> NPROC" using repD(6)[OF rep] .
    show "head LSleep s = hd_opt (L LSleep)" using rep_head[OF rep, of LSleep] by simp
    show "Q () t" if "wakeup1_inv ch L s [] t" for t
      using that Q unfolding wakeup1_inv_def W_def L'_def by auto
    show "nextp (procs t x) = hd_opt xs \<and> wp (wakeup1_body ch x) (\<lambda>_ t. wakeup1_inv ch L s xs t) t"
      if "wakeup1_inv ch L s (x # xs) t" for x xs t using wakeup1_step[OF that] .
  qed
  then show ?thesis by (simp add: wakeup1_def wp_simps get_head_def)
qed

section \<open>Promotion\<close>

lemma upd_procs_put_links [simp]:
  "(\<And>r n. f (r\<lparr>nextp := n\<rparr>) = (f r)\<lparr>nextp := n\<rparr>) \<Longrightarrow>
    upd_procs A f (put_links K s) = put_links K (upd_procs A f s)"
  by (auto simp: upd_procs_def put_links_def relink_def fun_eq_iff intro!: pst.equality)

lemma links_of_upd_procs [simp]:
  "(\<And>r. nextp (f r) = nextp r) \<Longrightarrow> links_of (upd_procs A f s) = links_of s"
  by (simp add: links_of_def nexts_def[abs_def] fun_eq_iff) (simp add: upd_procs_def)

lemma upd_procs_Un:
  "A \<inter> B = {} \<Longrightarrow> upd_procs A f (upd_procs B f s) = upd_procs (A \<union> B) f s"
  by (rule pst.equality) (auto simp: upd_procs_def fun_eq_iff)

lemma upd_procs_sel [simp]:
  "ticks (upd_procs A f s) = ticks s" "me (upd_procs A f s) = me s"
  "conslog (upd_procs A f s) = conslog s" "mycpu (upd_procs A f s) = mycpu s"
  "curproc (upd_procs A f s) = curproc s" "promoteAtTime (upd_procs A f s) = promoteAtTime s"
  "head l (upd_procs A f s) = head l s" "mach_holds H ie (upd_procs A f s) = mach_holds H ie s"
  "acq lk (upd_procs A f s) = upd_procs A f (acq lk s)"
  "rel lk (upd_procs A f s) = upd_procs A f (rel lk s)"
  by (simp_all add: upd_procs_def me_def mach_holds_def acq_def rel_def cong: if_cong)
    (cases l; simp)

lemma promote_sel [simp]:
  "state (promote r) = state r" "nextp (promote r) = nextp r"
  "promote (r\<lparr>nextp := n\<rparr>) = (promote r)\<lparr>nextp := n\<rparr>"
  by (simp_all add: promote_def)

lemma promote_priority: "unat (priority (promote r)) = unat (priority r) - 1"
  by (simp add: promote_def unat_minus_one word_gt_0)

lemma promote_0: "priority r = 0 \<Longrightarrow> promote r = r"
  by (simp add: promote_def)

lemma wp_promote_body:
  assumes ok: "pt_ok L s" and p: "p \<in> set (L (LReady i))"
    and Q: "\<And>K. rep (moved p (LReady i) (LReady (i - 1)) L) K \<Longrightarrow>
      Q () (put_links K (upd_proc p promote s))"
  shows "wp (promote_body p) Q s"
proof -
  have st: "state (procs s p) = RUNNABLE" "unat (priority (procs s p)) = i" "i \<le> MAXPRIO"
    using pt_okD(3,4)[OF ok p] by auto
  show ?thesis unfolding promote_body_def
    apply (simp add: op_wp st)
    apply (rule remove_rule[OF pt_okD(1)[OF ok] p])
    apply (simp add: op_wp)
    apply (rule addEnd_rule[OF _ _ pt_ok_offlist[OF ok p]])
      apply (use st in \<open>simp_all add: promote_priority op_wp\<close>)
    using Q by (simp add: moved_def)
qed

definition promoted_level :: "nat \<Rightarrow> (lref \<Rightarrow> nat list) \<Rightarrow> lref \<Rightarrow> nat list" where
  "promoted_level i L = L(LReady (i - 1) := L (LReady (i - 1)) @ L (LReady i), LReady i := [])"

definition promote_inv :: "nat \<Rightarrow> (lref \<Rightarrow> nat list) \<Rightarrow> 'a pst_scheme \<Rightarrow> nat list \<Rightarrow>
    'a pst_scheme \<Rightarrow> bool" where
  "promote_inv i L s xs t \<longleftrightarrow> (\<exists>L' K A.
    t = put_links K (upd_procs A promote s) \<and> pt_ok L' t \<and> L' (LReady i) = xs \<and>
    A \<inter> set xs = {} \<and> promoted_level i L' = promoted_level i L \<and> A \<union> set xs = set (L (LReady i)))"

lemma promote_step:
  assumes "promote_inv i L s (x # xs) t" "0 < i"
  shows "nextp (procs t x) = hd_opt xs \<and> wp (promote_body x) (\<lambda>_. promote_inv i L s xs) t"
proof -
  obtain L' K A where t: "t = put_links K (upd_procs A promote s)" "pt_ok L' t"
    "L' (LReady i) = x # xs" "A \<inter> set (x # xs) = {}"
    "promoted_level i L' = promoted_level i L" "A \<union> set (x # xs) = set (L (LReady i))"
    using assms(1) unfolding promote_inv_def by blast
  have rep: "rep L' K" using t(1,2) by (simp add: pt_ok_def)
  have nx: "nextp (procs t x) = hd_opt xs"
    using t(1,4) rep_next[OF rep, of "LReady i" "[]" x xs] t(3) by simp
  have x: "x \<in> set (L' (LReady i))" using t(3) by simp
  have prio: "unat (priority (procs t x)) = i" "state (procs t x) = RUNNABLE" "i \<le> MAXPRIO"
    using pt_okD(3,4)[OF t(2) x] by auto
  have "wp (promote_body x) (\<lambda>_. promote_inv i L s xs) t"
  proof (rule wp_promote_body[OF t(2) x])
    fix K'
    let ?L = "moved x (LReady i) (LReady (i - 1)) L'"
    assume K': "rep ?L K'"
    let ?u = "put_links K' (upd_proc x promote t)"
    have u: "?u = put_links K' (upd_procs (insert x A) promote s)"
      using t(1,4) by (simp add: upd_procs_insert)
    have ok: "pt_ok ?L ?u"
      using x K' prio by (intro pt_ok_moved[OF t(2)]) (simp_all add: promote_priority)
    have "promoted_level i ?L = promoted_level i L"
      unfolding t(5)[symmetric] using t(3) assms(2)
      by (auto simp: promoted_level_def moved_def fun_eq_iff)
    then show "promote_inv i L s xs ?u"
      using ok t assms(2) pt_okD(5)[OF t(2), of "LReady i"] unfolding promote_inv_def u
      by (intro exI[of _ ?L] exI[of _ K'] exI[of _ "insert x A"]) (auto simp: moved_def)
  qed
  then show ?thesis using nx by simp
qed

lemma wp_promote_level:
  assumes ok: "pt_ok L s" and i: "0 < i" "i \<le> MAXPRIO"
    and Q: "\<And>K. pt_ok (promoted_level i L) (put_links K (upd_procs (set (L (LReady i))) promote s)) \<Longrightarrow>
      Q () (put_links K (upd_procs (set (L (LReady i))) promote s))"
  shows "wp (promote_level i) Q s"
proof -
  have rep: "rep L (links_of s)" using ok by (simp add: pt_ok_def)
  have "wp (each_saved NPROC promote_body (head (LReady i) s)) Q s"
  proof (rule each_saved_rule[where J = "promote_inv i L s"])
    show "promote_inv i L s (L (LReady i)) s"
      unfolding promote_inv_def using ok
      by (intro exI[of _ L] exI[of _ "links_of s"] exI[of _ "{}"]) auto
    show "length (L (LReady i)) \<le> NPROC" using repD(6)[OF rep] .
    show "head (LReady i) s = hd_opt (L (LReady i))" using pt_okD(7)[OF ok, of "LReady i"] i by simp
    show "nextp (procs t x) = hd_opt xs \<and> wp (promote_body x) (\<lambda>_. promote_inv i L s xs) t"
      if "promote_inv i L s (x # xs) t" for x xs t using promote_step[OF that i(1)] .
    show "Q () t" if J: "promote_inv i L s [] t" for t
    proof -
      obtain L' K where t: "t = put_links K (upd_procs (set (L (LReady i))) promote s)" "pt_ok L' t"
        "L' (LReady i) = []" "promoted_level i L' = promoted_level i L"
        using J unfolding promote_inv_def by auto
      have "promoted_level i L' = L'" using t(3) by (auto simp: promoted_level_def fun_eq_iff)
      then show ?thesis using Q[of K] t by simp
    qed
  qed
  then show ?thesis using i by (simp add: promote_level_def wp_simps get_head_def)
qed


definition promoted :: "(lref \<Rightarrow> nat list) \<Rightarrow> lref \<Rightarrow> nat list" where
  "promoted L = L(LReady 0 := L (LReady 0) @ L (LReady 1), LReady 1 := L (LReady 2), LReady 2 := [])"

definition active :: "proc \<Rightarrow> bool" where
  "active r \<longleftrightarrow> state r = RUNNABLE \<or> state r = RUNNING \<or> state r = SLEEPING"

lemma homed_promote:
  assumes "homed X L s" "A \<subseteq> set (L LSleep) \<union> set (L LRunning)"
  shows "homed X L (upd_procs A promote s)"
proof -
  have "home (promote (procs s q)) = home (procs s q)" if "q \<in> A" for q
  proof -
    have "q \<in> set (L LSleep) \<or> q \<in> set (L LRunning)" using assms(2) that by auto
    then have "state (procs s q) = SLEEPING \<or> state (procs s q) = RUNNING"
      using homedD(1)[OF assms(1), of q LSleep] homedD(1)[OF assms(1), of q LRunning] by auto
    then show ?thesis by (auto simp: home_def)
  qed
  moreover have "unat (priority (promote (procs s q))) \<le> MAXPRIO" if "q < NPROC" for q
    using homedD(4)[OF assms(1) that] promote_priority[of "procs s q"] by linarith
  ultimately show ?thesis using assms(1) by (simp add: homed_def)
qed

lemma upd_procs_promote_all:
  assumes "pt_ok L s"
  shows "upd_procs (set (L LRunning) \<union> set (L LSleep) \<union> set (L (LReady 2)) \<union> set (L (LReady 1))) promote s =
    upd_procs {p. p < NPROC \<and> active (procs s p)} promote s"
proof -
  have hm: "homed {} L s" using assms by (simp add: pt_ok_def)
  have "promote (procs s q) = procs s q"
    if "active (procs s q)" "q < NPROC"
      "q \<notin> set (L LRunning) \<union> set (L LSleep) \<union> set (L (LReady 2)) \<union> set (L (LReady 1))" for q
  proof -
    have "q \<in> set (L (home (procs s q)))" "unat (priority (procs s q)) \<le> 2"
      using homedD(3,4)[OF hm that(2)] by (simp_all add: layout)
    moreover have "unat (priority (procs s q)) \<in> {0, 1, 2}" using calculation(2) by auto
    ultimately have "unat (priority (procs s q)) = 0"
      using that by (auto simp: active_def home_def split: procstate.splits)
    then show ?thesis by (simp add: promote_0 unat_eq_0)
  qed
  moreover have "active (procs s q) \<and> q < NPROC"
    if "q \<in> set (L LRunning) \<union> set (L LSleep) \<union> set (L (LReady 2)) \<union> set (L (LReady 1))" for q
    using that by (auto simp: active_def dest: homedD(1)[OF hm] homedD(2)[OF hm])
  ultimately show ?thesis unfolding upd_procs_def by (auto simp: fun_eq_iff)
qed

lemma wp_promote_list:
  assumes ok: "pt_ok L s" and l: "l = LSleep \<or> l = LRunning"
    and Q: "pt_ok L (upd_procs (set (L l)) promote s) \<Longrightarrow> Q () (upd_procs (set (L l)) promote s)"
  shows "wp (promote_list l) Q s"
proof -
  have rep: "rep L (links_of s)" "lvalid l" using ok l by (auto simp: pt_ok_def)
  have "pt_ok L (upd_procs (set (L l)) promote s)"
    using ok l by (auto simp: pt_ok_def intro!: homed_promote)
  then show ?thesis using Q rep_loops(1)[OF rep, of promote] rep(2)
    by (auto simp: promote_list_def kbind_run get_head_def wp_def)
qed

lemma wp_promoteAll:
  assumes ok: "pt_ok L s"
    and Q: "\<And>K. pt_ok (promoted L) (put_links K (upd_procs {p. p < NPROC \<and> active (procs s p)} promote s)) \<Longrightarrow>
      Q () (put_links K (upd_procs {p. p < NPROC \<and> active (procs s p)} promote s))"
  shows "wp promoteAll Q s"
proof -
  let ?L1 = "promoted_level 1 L" let ?L2 = "promoted_level 2 ?L1"
  have L2: "?L2 = promoted L" "?L1 (LReady 2) = L (LReady 2)" "promoted L LSleep = L LSleep"
    "promoted L LRunning = L LRunning"
    by (auto simp: promoted_level_def promoted_def fun_eq_iff)
  have dj: "set (L l) \<inter> set (L l') = {}" if "l \<noteq> l'" for l l'
    using repD(3)[OF pt_okD(1)[OF ok], of _ l l'] that by blast
  have ups: "[1..<MAXPRIO + 1] = [1, 2]" by (simp add: layout upt_rec)
  let ?u = "\<lambda>A K. put_links K (upd_procs A promote s)"
  let ?A2 = "set (L (LReady 2)) \<union> set (L (LReady 1))"
  have 4: "wp (promote_list LRunning) Q (?u (set (L LSleep) \<union> ?A2) K)"
    if "pt_ok (promoted L) (?u (set (L LSleep) \<union> ?A2) K)" for K
    using that by (rule wp_promote_list) (use Q[of K] dj L2 upd_procs_promote_all[OF ok] in
      \<open>simp_all add: upd_procs_Un Int_Un_distrib Un_assoc\<close>)
  have 3: "wp (kseq (promote_list LSleep) (promote_list LRunning)) Q (?u ?A2 K)"
    if "pt_ok (promoted L) (?u ?A2 K)" for K
    unfolding wp_kbind using that by (rule wp_promote_list) (use 4[of K] dj L2 in
      \<open>simp_all add: upd_procs_Un Int_Un_distrib Un_assoc\<close>)
  have 2: "wp (kseq (promote_level 2) (kseq (promote_list LSleep) (promote_list LRunning))) Q
      (?u (set (L (LReady 1))) K)" if "pt_ok ?L1 (?u (set (L (LReady 1))) K)" for K
    unfolding wp_kbind[of "promote_level 2"] using that
    by (rule wp_promote_level) (use 3 dj L2 in \<open>simp_all add: upd_procs_Un layout\<close>)
  have "wp (kseq (promote_level 1) (kseq (promote_level 2)
      (kseq (promote_list LSleep) (promote_list LRunning)))) Q s"
    unfolding wp_kbind[of "promote_level 1"] using ok
    by (rule wp_promote_level) (use 2 in \<open>simp_all add: layout\<close>)
  then show ?thesis unfolding promoteAll_def ups by (simp add: kbind_assoc)
qed


section \<open>Choosing the next process\<close>

lemma pushcli_popcli:
  assumes "mach_holds H ie s" "H \<noteq> {}"
  shows "pushcli s = Inr ((), s\<lparr>cpus := (cpus s)(mycpu s := (cpus s (mycpu s))\<lparr>ncli := int (card H) + 1\<rparr>)\<rparr>)"
    and "cpus t (mycpu t) = (cpus s (mycpu s))\<lparr>ncli := int (card H) + 1\<rparr> \<Longrightarrow> \<not> iflag t (mycpu t) \<Longrightarrow>
      popcli t = Inr ((), t\<lparr>cpus := (cpus t)(mycpu t := cpus s (mycpu s))\<rparr>)"
proof -
  have c: "0 < card H" "ncli (cpus s (mycpu s)) = int (card H)" "\<not> iflag s (mycpu s)"
    using assms by (auto simp: mach_holds_def card_gt_0_iff)
  have "(iflag s)(mycpu s := False) = iflag s" using c(3) by (auto simp: fun_eq_iff)
  then show "pushcli s = Inr ((), s\<lparr>cpus := (cpus s)(mycpu s := (cpus s (mycpu s))\<lparr>ncli := int (card H) + 1\<rparr>)\<rparr>)"
    using c by (auto simp: pushcli_def kmon_defs readeflags_def cli_def set_cpu_def)
  show "popcli t = Inr ((), t\<lparr>cpus := (cpus t)(mycpu t := cpus s (mycpu s))\<rparr>)"
    if "cpus t (mycpu t) = (cpus s (mycpu s))\<lparr>ncli := int (card H) + 1\<rparr>" "\<not> iflag t (mycpu t)"
    using c that
    by (cases "cpus s (mycpu s)") (auto simp: popcli_def kmon_defs readeflags_def sti_def set_cpu_def)
qed

definition on_cpu :: "nat \<Rightarrow> 'a pst_scheme \<Rightarrow> 'a pst_scheme" where
  "on_cpu p s = s\<lparr>esp0 := (esp0 s)(mycpu s := kstack (procs s p) + KSTACKSIZE),
    cr3 := (cr3 s)(mycpu s := v2p (pgdir (procs s p)))\<rparr>"

lemma switchuvm_eq:
  assumes "mach_holds H ie s" "H \<noteq> {}" "me s = Some p" "pgdir (procs s p) \<noteq> 0"
  shows "switchuvm p s = Inr ((), on_cpu p s)"
proof -
  let ?c = "(cpus s)(mycpu s := (cpus s (mycpu s))\<lparr>ncli := int (card H) + 1\<rparr>)"
  have "popcli (on_cpu p (s\<lparr>cpus := ?c\<rparr>)) = Inr ((), on_cpu p s)"
    using pushcli_popcli(2)[OF assms(1,2), of "on_cpu p (s\<lparr>cpus := ?c\<rparr>)"] assms(1,2)
    by (auto simp: on_cpu_def mach_holds_def)
  then show ?thesis
    using pushcli_popcli(1)[OF assms(1,2)] assms(3,4)
    by (simp add: switchuvm_def kbind_def modify_def gets_def the_proc_def ret_def me_def on_cpu_def)
qed

lemma on_cpu_simps [simp]:
  "procs (on_cpu p s) = procs s" "links_of (on_cpu p s) = links_of s" "ticks (on_cpu p s) = ticks s"
  "homed X L (on_cpu p s) = homed X L s" "mach_holds H ie (on_cpu p s) = mach_holds H ie s"
  "on_cpu p (put_links K s) = put_links K (on_cpu p s)" "me (on_cpu p s) = me s"
  "conslog (on_cpu p s) = conslog s" "mycpu (on_cpu p s) = mycpu s" "curproc (on_cpu p s) = curproc s"
  by (simp_all add: on_cpu_def)

definition dispatched :: "nat \<Rightarrow> 'a pst_scheme \<Rightarrow> 'a pst_scheme" where
  "dispatched p s = upd_proc p (\<lambda>r. r\<lparr>state := RUNNING, cpu_ticks_in := ticks s\<rparr>)
    (on_cpu p (s\<lparr>curproc := (curproc s)(mycpu s := Some p)\<rparr>))"

lemma wp_pick_from:
  assumes ok: "pt_ok L s" and h: "mach_holds {PtableLock} ie s" and i: "i \<le> MAXPRIO"
    and pg: "\<And>p. p \<in> set (L (LReady i)) \<Longrightarrow> pgdir (procs s p) \<noteq> 0"
    and Q: "\<And>p ps K. L (LReady i) = p # ps \<Longrightarrow>
      rep (moved p (LReady i) LRunning L) K \<Longrightarrow> Q (Some p) (put_links K (dispatched p s))"
    and N: "L (LReady i) = [] \<Longrightarrow> Q None s"
  shows "wp (pick_from i) Q s"
proof (cases "L (LReady i)")
  case Nil
  then show ?thesis using N i pt_okD(7)[OF ok, of "LReady i"]
    by (simp add: pick_from_def wp_simps get_head_def)
next
  case (Cons p ps)
  have p: "p \<in> set (L (LReady i))" using Cons by simp
  have st: "state (procs s p) = RUNNABLE" "unat (priority (procs s p)) = i" "ready s ! i = Some p"
    using pt_okD(3)[OF ok p] pt_okD(7)[OF ok, of "LReady i"] Cons i by auto
  have off: "offlist p (L(LReady i := tl (L (LReady i))))" using pt_ok_offlist[OF ok p] Cons by simp
  show ?thesis unfolding pick_from_def
    apply (simp add: op_wp get_head_def st i)
    apply (rule removeHead_rule[OF pt_okD(1)[OF ok]])
     apply (simp_all add: i Cons op_wp)
    apply (subst wp_eq[OF switchuvm_eq[where H = "{PtableLock}" and ie = ie]])
        apply (simp_all add: h me_def pg[OF p] op_wp comp_def)
    apply (rule addEnd_rule[OF _ _ off])
      apply (simp_all add: Cons op_wp comp_def)
    using Q[OF Cons] Cons by (simp add: moved_def dispatched_def)
qed

lemma wp_kfind_pick:
  assumes ok: "pt_ok L s" and h: "mach_holds {PtableLock} ie s" and i: "\<forall>i \<in> set is. i \<le> MAXPRIO"
    and pg: "\<And>p i. p \<in> set (L (LReady i)) \<Longrightarrow> pgdir (procs s p) \<noteq> 0"
    and Q: "\<And>i p ps K. find (\<lambda>i. L (LReady i) \<noteq> []) is = Some i \<Longrightarrow> L (LReady i) = p # ps \<Longrightarrow>
      rep (moved p (LReady i) LRunning L) K \<Longrightarrow> Q (Some p) (put_links K (dispatched p s))"
    and N: "find (\<lambda>i. L (LReady i) \<noteq> []) is = None \<Longrightarrow> Q None s"
  shows "wp (kfind pick_from is) Q s"
  using i Q N
proof (induction "is")
  case Nil
  then show ?case by (simp add: wp_simps)
next
  case (Cons i "is")
  show ?case
    unfolding kfind.simps wp_kbind
    by (rule wp_pick_from[OF ok h]) (use Cons pg in \<open>auto simp: wp_simps\<close>)
qed

lemma pt_ok_dispatched:
  assumes ok: "pt_ok L s" and p: "p \<in> set (L (LReady i))" and K: "rep (moved p (LReady i) LRunning L) K"
  shows "pt_ok (moved p (LReady i) LRunning L) (put_links K (dispatched p s))"
proof -
  have "pt_ok L (on_cpu p (s\<lparr>curproc := (curproc s)(mycpu s := Some p)\<rparr>))"
    using ok by (simp add: pt_ok_def)
  then show ?thesis unfolding dispatched_def
    using p K pt_okD(4)[OF ok p] by (intro pt_ok_moved) (simp_all add: home_def)
qed

definition pgdirs_ok :: "'a pst_scheme \<Rightarrow> bool" where
  "pgdirs_ok s \<longleftrightarrow> (\<forall>p < NPROC. state (procs s p) \<noteq> UNUSED \<longrightarrow> state (procs s p) \<noteq> EMBRYO \<longrightarrow>
    pgdir (procs s p) \<noteq> 0)"

text \<open>The lists and the state after the promotion timer was looked at.\<close>

definition timer_lists :: "'a pst_scheme \<Rightarrow> (lref \<Rightarrow> nat list) \<Rightarrow> lref \<Rightarrow> nat list" where
  "timer_lists s L = (if promoteAtTime s = ticks s then promoted L else L)"

definition timer_state :: "'a pst_scheme \<Rightarrow> 'a pst_scheme" where
  "timer_state s = (if promoteAtTime s = ticks s
    then (upd_procs {p. p < NPROC \<and> active (procs s p)} promote s)\<lparr>promoteAtTime := ticks s + TIME_TO_PROMOTE\<rparr>
    else s)"

lemma pt_ok_promoteAtTime [simp]: "pt_ok L (s\<lparr>promoteAtTime := w\<rparr>) = pt_ok L s"
  by (simp add: pt_ok_def)

lemma wp_promote_timer:
  assumes ok: "pt_ok L s"
    and Q: "\<And>K. pt_ok (timer_lists s L) (put_links K (timer_state s)) \<Longrightarrow> Q () (put_links K (timer_state s))"
  shows "wp promote_timer Q s"
proof (cases "promoteAtTime s = ticks s")
  case True
  show ?thesis unfolding promote_timer_def
    apply (simp add: wp_simps True)
    apply (rule wp_promoteAll[OF ok])
    using Q by (simp add: wp_simps timer_state_def timer_lists_def True flip: put_links_upd)
next
  case False
  then show ?thesis using Q[of "links_of s"] ok
    by (simp add: promote_timer_def wp_simps timer_state_def timer_lists_def)
qed

lemma timer_state_simps [simp]:
  "ticks (timer_state s) = ticks s" "me (timer_state s) = me s" "mycpu (timer_state s) = mycpu s"
  "curproc (timer_state s) = curproc s" "mach_holds H ie (timer_state s) = mach_holds H ie s"
  "state (procs (timer_state s) p) = state (procs s p)"
  "pgdir (procs (timer_state s) p) = pgdir (procs s p)"
  by (simp_all add: timer_state_def promote_def)

lemma dispatched_put [simp]: "dispatched p (put_links K s) = put_links K (dispatched p s)"
  by (simp add: dispatched_def)

lemma mach_holds_dispatched [simp]: "mach_holds H ie (dispatched p s) = mach_holds H ie s"
  by (simp add: dispatched_def)

definition next_level :: "(lref \<Rightarrow> nat list) \<Rightarrow> nat option" where
  "next_level L = find (\<lambda>i. L (LReady i) \<noteq> []) [0..<MAXPRIO + 1]"

lemma wp_sti: "wp sti Q s \<longleftrightarrow> Q () (s\<lparr>iflag := (iflag s)(mycpu s := True)\<rparr>)"
  by (simp add: sti_def wp_modify)

lemma mach_holds_sti: "mach_holds {} ie s \<Longrightarrow>
    mach_holds {} True (s\<lparr>iflag := (iflag s)(mycpu s := True)\<rparr>)"
  by (simp add: mach_holds_def)

lemma wp_scheduler_pick:
  assumes h: "mach_holds {} ie s" and ok: "pt_ok L s" and pg: "pgdirs_ok s"
  defines "s1 \<equiv> timer_state (acq PtableLock (s\<lparr>iflag := (iflag s)(mycpu s := True)\<rparr>))"
  defines "L1 \<equiv> timer_lists s L"
  assumes Q: "\<And>i p ps K. next_level L1 = Some i \<Longrightarrow> L1 (LReady i) = p # ps \<Longrightarrow>
      pt_ok (moved p (LReady i) LRunning L1) (put_links K (dispatched p s1)) \<Longrightarrow>
      mach_holds {PtableLock} True (put_links K (dispatched p s1)) \<Longrightarrow>
      Q (Some p) (put_links K (dispatched p s1))"
    and N: "\<And>K. next_level L1 = None \<Longrightarrow> pt_ok L1 (put_links K (rel PtableLock s1)) \<Longrightarrow>
      mach_holds {} True (put_links K (rel PtableLock s1)) \<Longrightarrow>
      Q None (put_links K (rel PtableLock s1))"
  shows "wp scheduler_pick Q s"
proof -
  let ?s0 = "s\<lparr>iflag := (iflag s)(mycpu s := True)\<rparr>"
  have h0: "mach_holds {} True ?s0" using h by (rule mach_holds_sti)
  have h1: "mach_holds {PtableLock} True (acq PtableLock ?s0)" using mach_holds_acq[OF h0] by simp
  have ok1: "pt_ok L (acq PtableLock ?s0)" using ok by (simp add: pt_ok_def)
  have L1: "timer_lists (acq PtableLock ?s0) L = L1" by (simp add: L1_def timer_lists_def)
  have h2: "mach_holds {PtableLock} True (put_links K s1)" for K using h1 by (simp add: s1_def)
  have pg1: "pgdir (procs (put_links K s1) p) \<noteq> 0"
    if "pt_ok L1 (put_links K s1)" "p \<in> set (L1 (LReady i))" for K p i
    using pg pt_okD(2,3)[OF that] by (simp add: pgdirs_ok_def s1_def)
  have A: "wp (kfind pick_from [0..<MAXPRIO + 1]) (\<lambda>po. wp (case po of
      None \<Rightarrow> kseq (release PtableLock) (kseq sti (ret None)) | Some p \<Rightarrow> ret (Some p)) Q) (put_links K s1)"
    if ok2: "pt_ok L1 (put_links K s1)" for K
  proof (rule wp_kfind_pick[OF ok2 h2 _ pg1[OF ok2]], goal_cases)
    case (3 i p ps K')
    then show ?case
      using Q[of i p ps K'] pt_ok_dispatched[OF ok2 _ 3(3)] h2[of K]
      by (simp add: wp_simps next_level_def dispatched_put)
  next
    case 4
    have "mach_holds {} True (rel PtableLock (put_links K s1))"
      using mach_holds_rel_insert[OF h2] by simp
    moreover from this have "iflag (rel PtableLock (put_links K s1)) (mycpu (rel PtableLock (put_links K s1)))"
      by (simp add: mach_holds_def)
    moreover have "pt_ok L1 (rel PtableLock (put_links K s1))" using ok2 by (simp add: pt_ok_def)
    ultimately show ?case using N[of K] 4
      by (simp add: wp_simps wp_release[OF h2] sti_def next_level_def fun_upd_idem)
  qed auto
  have "wp promote_timer (\<lambda>_. wp (kbind (kfind pick_from [0..<MAXPRIO + 1]) (\<lambda>po. case po of
      None \<Rightarrow> kseq (release PtableLock) (kseq sti (ret None)) | Some p \<Rightarrow> ret (Some p))) Q)
      (acq PtableLock ?s0)"
    by (rule wp_promote_timer[OF ok1]) (use A in \<open>simp add: L1 s1_def wp_kbind\<close>)
  then show ?thesis
    by (simp add: scheduler_pick_def wp_simps wp_sti wp_acquire[OF h0])
qed


section \<open>Resuming a process\<close>

lemma mach_holds_intena:
  "mach_holds {PtableLock} ie s \<Longrightarrow> mach_holds {PtableLock} i
    (s\<lparr>cpus := (cpus s)(mycpu s := (cpus s (mycpu s))\<lparr>intena := i\<rparr>)\<rparr>)"
  by (simp add: mach_holds_def)

fun resumed_locks :: "kcontext \<Rightarrow> lockid set" where
  "resumed_locks (InSleep lk i) = locks_of lk"
| "resumed_locks c = {}"

fun resumed_flag :: "bool \<Rightarrow> kcontext \<Rightarrow> bool" where
  "resumed_flag ie AtForkret = ie"
| "resumed_flag ie (InYield i) = i"
| "resumed_flag ie (InSleep lk i) = i"
| "resumed_flag ie (InExit i) = i"

fun resumed_proc :: "kcontext \<Rightarrow> proc \<Rightarrow> proc" where
  "resumed_proc (InSleep lk i) r = r\<lparr>chan_of := None\<rparr>"
| "resumed_proc c r = r"

text \<open>
  Whatever the interrupt flag was on the CPU that switches, the process gets back the flag it had
  when it gave the CPU up, and holds the lock it went to sleep with.
\<close>

definition put_mach :: "mach \<Rightarrow> 'a pst_scheme \<Rightarrow> 'a pst_scheme" where
  "put_mach m s = s\<lparr>locks := locks m, cpus := cpus m, iflag := iflag m\<rparr>"

lemma put_mach_simps [simp]:
  "procs (put_mach m s) = procs s" "links_of (put_mach m s) = links_of s"
  "me (put_mach m s) = me s" "curproc (put_mach m s) = curproc s" "ticks (put_mach m s) = ticks s"
  "mycpu (put_mach m s) = mycpu s" "conslog (put_mach m s) = conslog s"
  "homed X L (put_mach m s) = homed X L s" "pt_ok L (put_mach m s) = pt_ok L s"
  "promoteAtTime (put_mach m s) = promoteAtTime s" "initproc (put_mach m s) = initproc s"
  by (simp_all add: put_mach_def me_def pt_ok_def homed_def links_of_def nexts_def[abs_def])

lemma put_mach_mach:
  "\<exists>m. rel lk s = put_mach m s" "\<exists>m. acq lk s = put_mach m s"
  "\<exists>m. s\<lparr>cpus := c\<rparr> = put_mach m s" "\<exists>m''. put_mach m (put_mach m' s) = put_mach m'' s"
  "\<exists>m. put_mach m s = s"
  by (rule exI[of _ "mach.truncate (rel lk s)"] exI[of _ "mach.truncate (acq lk s)"]
      exI[of _ "mach.truncate (s\<lparr>cpus := c\<rparr>)"] exI[of _ m] exI[of _ "mach.truncate s"];
    simp add: put_mach_def rel_def acq_def mach.defs)+

lemma resumed_proc_eta [simp]:
  "resumed_proc AtForkret = (\<lambda>r. r)" "resumed_proc (InYield i) = (\<lambda>r. r)"
  "resumed_proc (InSleep lk i) = (\<lambda>r. r\<lparr>chan_of := None\<rparr>)"
  by (rule ext, simp)+

lemma resume_eq:
  assumes h: "mach_holds {PtableLock} ie s" and p: "me s = Some p" "ctxt (procs s p) = Some c"
    and c: "\<And>i. c \<noteq> InExit i"
  shows "\<exists>m. resume s = Inr ((), upd_proc p (resumed_proc c) (put_mach m s)) \<and>
    mach_holds (resumed_locks c) (resumed_flag ie c) (put_mach m s)"
proof -
  let ?u = "\<lambda>i. s\<lparr>cpus := (cpus s)(mycpu s := (cpus s (mycpu s))\<lparr>intena := i\<rparr>)\<rparr>"
  have u: "mach_holds {PtableLock} i (?u i)" for i using mach_holds_intena[OF h] .
  have r: "mach_holds {} i (rel PtableLock (?u i))" for i using mach_holds_rel_insert[OF u] by simp
  have rs: "mach_holds {} ie (rel PtableLock s)" using mach_holds_rel_insert[OF h] by simp
  note run = resume_def the_proc_def kmon_defs sched_leave_def set_cpu_def set_proc_def
    release_eq[OF h] p
  have fr: "\<exists>m. ?u i = put_mach m s" "\<exists>m. rel PtableLock (?u i) = put_mach m s"
    "\<exists>m. acq lk (rel PtableLock (?u i)) = put_mach m s" for i lk
    using put_mach_mach by metis+
  have id: "upd_proc p (\<lambda>r. r) t = t" for t :: "'a pst_scheme" by (simp add: upd_proc_def)
  show ?thesis
  proof (cases c)
    case AtForkret
    then show ?thesis using rs put_mach_mach(1)[of PtableLock s] id by (auto simp: run)
  next
    case (InYield i)
    then show ?thesis using r[of i] release_eq[OF u[of i]] fr(2)[of i] id
      by (auto simp: run)
  next
    case (InSleep lk i)
    consider "lk = None" | "lk = Some PtableLock" | l where "lk = Some l" "l \<noteq> PtableLock"
      by (cases lk) auto
    then show ?thesis
    proof cases
      case 1
      then show ?thesis
        using InSleep r[of i] fr(2)[of i] release_eq[of "{PtableLock}" i "upd_proc p (\<lambda>r. r\<lparr>chan_of := None\<rparr>) (?u i)" PtableLock] u[of i]
        by (auto simp: run locks_of_def)
    next
      case 2
      then show ?thesis using InSleep fr(1)[of i] u[of i] by (auto simp: run locks_of_def)
    next
      case 3
      then show ?thesis
        using InSleep fr(3)[of l i] u[of i] r[of i] mach_holds_acq[OF r[of i], of l]
          release_eq[of "{PtableLock}" i "upd_proc p (\<lambda>r. r\<lparr>chan_of := None\<rparr>) (?u i)" PtableLock]
          acquire_eq[of "{}" i "upd_proc p (\<lambda>r. r\<lparr>chan_of := None\<rparr>) (rel PtableLock (?u i))" l]
        by (auto simp: run locks_of_def)
    qed
  qed (use c in simp)
qed

section \<open>Kill and setpriority\<close>

abbreviation cycled :: "'a pst_scheme \<Rightarrow> 'a pst_scheme" where
  "cycled s \<equiv> rel PtableLock (acq PtableLock s)"

lemma mach_holds_cycled: "mach_holds {} ie s \<Longrightarrow> mach_holds {} ie (cycled s)"
  using mach_holds_rel_insert[OF mach_holds_acq, of "{}" ie s PtableLock] by simp

lemma wp_find_pid:
  assumes "pt_ok L s" "lvalid l"
  shows "wp (find_pid n l) Q s \<longleftrightarrow> Q (find (\<lambda>p. pid (procs s p) = n) (L l)) s"
  using rep_loops(2)[OF pt_okD(1)[OF assms(1)] assms(2), of "\<lambda>r. pid r = n"] assms(2)
  by (simp add: find_pid_def wp_simps get_head_def wp_eq)

lemma find_append: "find P (xs @ ys) = (case find P xs of None \<Rightarrow> find P ys | Some x \<Rightarrow> Some x)"
  by (induction xs) auto

lemma pt_ok_acq_rel [simp]: "pt_ok L (acq lk s) = pt_ok L s" "pt_ok L (rel lk s) = pt_ok L s"
  by (simp_all add: pt_ok_def)

definition kill_order :: "lref list" where
  "kill_order = [LSleep, LReady 0, LReady 1, LReady 2, LRunning, LFree, LZombie, LEmbryo]"

lemma wp_kill_scan:
  assumes ok: "pt_ok L s" and h: "mach_holds {PtableLock} ie s" and ls: "list_all lvalid ls"
    and Q: "\<And>p. find (\<lambda>p. pid (procs s p) = n) (concat (map L ls)) = Some p \<Longrightarrow>
      Q 0 (upd_proc p (\<lambda>r. r\<lparr>killed := True\<rparr>) (rel PtableLock s))"
    and N: "find (\<lambda>p. pid (procs s p) = n) (concat (map L ls)) = None \<Longrightarrow> Q (- 1) (rel PtableLock s)"
  shows "wp (kill_scan n ls) Q s"
  using ls Q N
proof (induction ls)
  case Nil
  then show ?case by (simp add: wp_simps wp_release[OF h])
next
  case (Cons l ls)
  then show ?case
    by (cases "find (\<lambda>p. pid (procs s p) = n) (L l)")
      (auto simp: wp_simps wp_find_pid[OF ok] mark_killed_def set_proc_def find_append
        wp_release[where H = "{PtableLock}" and ie = ie] h)
qed

lemma wp_kill:
  fixes n :: uint
  assumes ok: "pt_ok L s" and h: "mach_holds {} ie s"
  defines "f \<equiv> find (\<lambda>p. pid (procs s p) = n) (concat (map L kill_order))"
  assumes W: "\<And>p K. f = Some p \<Longrightarrow> p \<in> set (L LSleep) \<Longrightarrow>
      rep (moved p LSleep (LReady (unat (priority (procs s p)))) L) K \<Longrightarrow>
      Q 0 (put_links K (upd_proc p (\<lambda>r. r\<lparr>killed := True, state := RUNNABLE\<rparr>) (cycled s)))"
    and M: "\<And>p. f = Some p \<Longrightarrow> p \<notin> set (L LSleep) \<Longrightarrow>
      Q 0 (upd_proc p (\<lambda>r. r\<lparr>killed := True\<rparr>) (cycled s))"
    and N: "f = None \<Longrightarrow> Q (- 1) (cycled s)"
  shows "wp (kill n) Q s"
proof -
  have h1: "mach_holds {PtableLock} ie (acq PtableLock s)" using mach_holds_acq[OF h] by simp
  have ok1: "pt_ok L (acq PtableLock s)" using ok by simp
  have nin: "p \<notin> set (L LSleep)" if "find (\<lambda>p. pid (procs s p) = n) (L LSleep) = None"
    "find (\<lambda>p. pid (procs s p) = n) xs = Some p" for p xs
    using that by (auto simp: find_None_iff find_Some_iff)
  show ?thesis
  proof (cases "find (\<lambda>p. pid (procs s p) = n) (L LSleep)")
    case None
    define ls where "ls = [LReady 0, LReady 1, LReady 2, LRunning, LFree, LZombie, LEmbryo]"
    have v: "list_all lvalid ls" by (simp add: ls_def layout)
    have "f = find (\<lambda>p. pid (procs s p) = n) (concat (map L ls))"
      using None by (simp add: f_def kill_order_def ls_def find_append[of _ "L LSleep"])
    then have "wp (kill_scan n ls) Q (acq PtableLock s)"
      by (intro wp_kill_scan[OF ok1 h1 v]) (use M N None nin in auto)
    then show ?thesis using None unfolding ls_def
      by (simp add: kill_def wp_simps wp_acquire[OF h] wp_find_pid[OF ok1])
  next
    case (Some p)
    then have p: "p \<in> set (L LSleep)" by (auto simp: find_Some_iff)
    then have st: "state (procs s p) = SLEEPING" "unat (priority (procs s p)) \<le> MAXPRIO"
      using pt_okD(3)[OF ok p] pt_okD(4)[OF ok p] by simp_all
    have f: "f = Some p" using Some by (simp add: f_def kill_order_def find_append[of _ "L LSleep"])
    show ?thesis unfolding kill_def
      apply (simp add: op_wp wp_acquire[OF h] wp_find_pid[OF ok1] Some mark_killed_def st)
      apply (rule remove_rule[where L = L and l = LSleep, OF _ p])
       apply (simp add: pt_okD(1)[OF ok])
      apply (simp add: op_wp comp_def)
      apply (rule addEnd_rule[OF _ _ pt_ok_offlist[OF ok p]])
        apply (simp_all add: st op_wp wp_release[where H = "{PtableLock}" and ie = ie] h1)
      using W[OF f p] by (simp add: moved_def)
  qed
qed


definition setpriority_order :: "lref list" where
  "setpriority_order = [LReady 0, LReady 1, LReady 2, LRunning, LSleep]"

lemma wp_set_ready_priority:
  assumes ok: "pt_ok L s" and p: "p \<in> set (L (LReady i))" and prio: "unat prio \<le> MAXPRIO"
    and Q: "\<And>K. rep (moved p (LReady i) (LReady (unat prio)) L) K \<Longrightarrow>
      Q () (put_links K (upd_proc p (\<lambda>r. r\<lparr>priority := prio, budget := BUDGET\<rparr>) s))"
  shows "wp (set_ready_priority p prio) Q s"
proof -
  have st: "unat (priority (procs s p)) = i" using pt_okD(3)[OF ok p] by simp
  show ?thesis unfolding set_ready_priority_def
    apply (simp add: op_wp st)
    apply (rule remove_rule[OF pt_okD(1)[OF ok] p])
    apply (simp add: op_wp)
    apply (rule addEnd_rule[OF _ _ pt_ok_offlist[OF ok p]])
      apply (simp_all add: prio op_wp comp_def)
    using Q by (simp add: moved_def)
qed

lemma wp_setpriority_scan:
  assumes ok: "pt_ok L s" and h: "mach_holds {PtableLock} ie s" and prio: "unat prio \<le> MAXPRIO"
    and ls: "list_all lvalid ls"
    and R: "\<And>p i K. find (\<lambda>p. pid (procs s p) = n) (concat (map L ls)) = Some p \<Longrightarrow>
      p \<in> set (L (LReady i)) \<Longrightarrow> rep (moved p (LReady i) (LReady (unat prio)) L) K \<Longrightarrow>
      Q 0 (put_links K (upd_proc p (\<lambda>r. r\<lparr>priority := prio, budget := BUDGET\<rparr>) (rel PtableLock s)))"
    and M: "\<And>p. find (\<lambda>p. pid (procs s p) = n) (concat (map L ls)) = Some p \<Longrightarrow>
      state (procs s p) \<noteq> RUNNABLE \<Longrightarrow>
      Q 0 (upd_proc p (\<lambda>r. r\<lparr>priority := prio, budget := BUDGET\<rparr>) (rel PtableLock s))"
    and N: "find (\<lambda>p. pid (procs s p) = n) (concat (map L ls)) = None \<Longrightarrow> Q (- 1) (rel PtableLock s)"
  shows "wp (setpriority_scan n prio ls) Q s"
  using ls R M N
proof (induction ls)
  case Nil
  then show ?case by (simp add: wp_simps wp_release[OF h])
next
  case (Cons l ls)
  show ?case
  proof (cases "find (\<lambda>p. pid (procs s p) = n) (L l)")
    case None
    then show ?thesis using Cons by (simp add: wp_simps wp_find_pid[OF ok] find_append[of _ "L l"])
  next
    case (Some p)
    then have p: "p \<in> set (L l)" by (auto simp: find_Some_iff)
    have f: "find (\<lambda>p. pid (procs s p) = n) (concat (map L (l # ls))) = Some p"
      using Some by (simp add: find_append)
    have nr: "state (procs s p) \<noteq> RUNNABLE" if "\<And>i. l \<noteq> LReady i"
      using pt_okD(3)[OF ok p] that by (metis home_iff(6))
    have "wp (case l of LReady i \<Rightarrow> set_ready_priority p prio
        | _ \<Rightarrow> set_proc p (\<lambda>r. r\<lparr>priority := prio, budget := BUDGET\<rparr>))
        (\<lambda>_. wp (kseq (release PtableLock) (ret 0)) Q) s"
    proof (cases l)
      case (LReady i)
      then have p': "p \<in> set (L (LReady i))" using p by simp
      have "wp (set_ready_priority p prio) (\<lambda>_. wp (kseq (release PtableLock) (ret 0)) Q) s"
        using wp_set_ready_priority[OF ok p' prio] Cons.prems(2)[OF f p']
        by (rule_tac wp_set_ready_priority[OF ok p' prio])
          (simp add: wp_simps wp_release[where H = "{PtableLock}" and ie = ie] h)
      then show ?thesis using LReady by simp
    qed (use nr Cons.prems(3)[OF f] in
      \<open>simp_all add: op_wp wp_release[where H = "{PtableLock}" and ie = ie] h\<close>)
    then show ?thesis using Some Cons.prems(1) by (simp add: wp_simps wp_find_pid[OF ok])
  qed
qed

section \<open>A concrete table\<close>

text \<open>
  Process 0 runs on CPU 0, process 1 is ready, process 2 sleeps on \<^verbatim>\<open>&ticks\<close>, the other slots are
  free. The hypotheses of the properties are checked on this state.
\<close>

definition tf0 :: trapframe where
  "tf0 = \<lparr>tf_edi = 0, tf_esi = 0, tf_ebp = 0, tf_oesp = 0, tf_ebx = 0, tf_edx = 0, tf_ecx = 0,
    tf_eax = 0, tf_gs = 0, tf_fs = 0, tf_es = 0, tf_ds = 0, tf_trapno = 0, tf_err = 0, tf_eip = 0,
    tf_cs = 0, tf_eflags = 0, tf_esp = 0, tf_ss = 0\<rparr>"

definition free_slot :: proc where
  "free_slot = \<lparr>sz = 0, pgdir = 0, kstack = 0, state = UNUSED, pid = 0, parent = None, tf = tf0,
    ctxt = None, chan_of = None, killed = False, ofile = replicate 16 None, cwd = None,
    pname = [], start_ticks = 0, uid = 0, gid = 0, cpu_ticks_total = 0, cpu_ticks_in = 0,
    nextp = None, priority = 0, budget = 0\<rparr>"

definition live_slot :: "procstate \<Rightarrow> uint \<Rightarrow> proc" where
  "live_slot st n = free_slot\<lparr>state := st, pid := n, pgdir := 0x80400000, parent := Some 0,
    budget := BUDGET\<rparr>"

definition pst1 :: pst where
  "pst1 = \<lparr>locks = \<lambda>_. \<lparr>locked = 0, lcpu = None\<rparr>, cpus = \<lambda>_. \<lparr>ncli = 0, intena = False\<rparr>,
    iflag = \<lambda>_. True, mycpu = 0, mem = \<lambda>_. 0, use_lock = True, freelist = 0,
    procs = \<lambda>q. if q = 0 then live_slot RUNNING 1
      else if q = 1 then (live_slot RUNNABLE 2)\<lparr>ctxt := Some AtForkret\<rparr>
      else if q = 2 then (live_slot SLEEPING 3)\<lparr>chan_of := Some ChTicks, ctxt := Some (InSleep None True)\<rparr>
      else free_slot\<lparr>nextp := (if q < 63 then Some (q + 1) else None)\<rparr>,
    ready = [Some 1, None, None], lfree = Some 3, lsleep = Some 2, lzombie = None,
    lrunning = Some 0, lembryo = None, promoteAtTime = 270, initproc = Some 0, nextpid = 4,
    ticks = 7, curproc = \<lambda>c. if c = 0 then Some 0 else None, conslog = [], cr3 = \<lambda>_. 0,
    esp0 = \<lambda>_. 0, kpgdir = 0x803ff000\<rparr>"

fun lists1 :: "lref \<Rightarrow> nat list" where
  "lists1 (LReady i) = (if i = 0 then [1] else [])"
| "lists1 LFree = [3..<NPROC]"
| "lists1 LSleep = [2]"
| "lists1 LZombie = []"
| "lists1 LRunning = [0]"
| "lists1 LEmbryo = []"

lemma plist_upt:
  assumes "\<And>q. i \<le> q \<Longrightarrow> q < n \<Longrightarrow> nx q = (if Suc q < n then Some (Suc q) else None)" "i < n"
  shows "plist nx (Some i) [i..<n]"
  using assms
proof (induction "n - i" arbitrary: i)
  case (Suc k)
  have "plist nx (nx i) [Suc i..<n]"
  proof (cases "Suc i < n")
    case True
    then show ?thesis using Suc.prems(1)[of i] Suc.prems Suc.hyps(2) by (auto intro!: Suc.hyps(1))
  qed (use Suc.prems in auto)
  then show ?case using Suc.prems(2) by (simp add: upt_conv_Cons)
qed simp

lemma pst1_ok: "pt_ok lists1 pst1"
proof -
  have nx: "nexts pst1 q = (if 3 \<le> q \<and> q < 63 then Some (Suc q) else None)" for q
    by (simp add: nexts_def pst1_def live_slot_def free_slot_def)
  have pl: "plist (nexts pst1) (head l pst1) (lists1 l)" if "lvalid l" for l
  proof (cases l)
    case (LReady i)
    then have "i = 0 \<or> i = 1 \<or> i = 2" using that by (auto simp: layout)
    then show ?thesis using LReady nx[of 1] by (auto simp: pst1_def)
  next
    case LFree
    have "plist (nexts pst1) (Some 3) [3..<NPROC]" by (rule plist_upt) (auto simp: nx layout)
    then show ?thesis using LFree by (simp add: pst1_def)
  next
    case LSleep
    then show ?thesis using nx[of 2] by (simp add: pst1_def)
  next
    case LRunning
    then show ?thesis using nx[of 0] by (simp add: pst1_def)
  qed (simp_all add: pst1_def)
  have N: "0 < NPROC" "1 < NPROC" "2 < NPROC" by (simp_all add: layout)
  have nl: "lists1 l = []" if "\<not> lvalid l" for l using that by (cases l) (auto simp: layout)
  have dj: "set (lists1 l) \<inter> set (lists1 l') = {}" if "l \<noteq> l'" for l l'
    using that by (cases l; cases l') auto
  have lt: "set (lists1 l) \<subseteq> {..<NPROC}" for l using N by (cases l) auto
  have "length (ready pst1) = MAXPRIO + 1" by (simp add: pst1_def layout)
  then have "chained lists1 pst1" using pl nl dj lt unfolding chained_def by presburger
  moreover have "homed {} lists1 pst1"
  proof -
    have "q \<in> set (lists1 l) \<longleftrightarrow> q < NPROC \<and> home (procs pst1 q) = l" for l q
      using N by (cases l) (auto simp: pst1_def live_slot_def free_slot_def)
    then show ?thesis by (simp add: homed_def) (simp add: pst1_def live_slot_def free_slot_def)
  qed
  ultimately show ?thesis by (simp add: pt_ok_def chained_rep)
qed

lemma pst1_holds: "mach_holds {} True pst1"
  by (simp add: mach_holds_def pst1_def)

lemma pst1_proc: "me pst1 = Some 0" "state (procs pst1 0) = RUNNING" "(0::nat) < NPROC"
  by (simp_all add: me_def pst1_def live_slot_def layout)

section \<open>Properties\<close>

text \<open>A process without its list link.\<close>

definition pview :: "'a pst_scheme \<Rightarrow> nat \<Rightarrow> proc" where
  "pview s p = (procs s p)\<lparr>nextp := None\<rparr>"

lemma pview_sel [simp]:
  "state (pview s p) = state (procs s p)" "chan_of (pview s p) = chan_of (procs s p)"
  "priority (pview s p) = priority (procs s p)" "pid (pview s p) = pid (procs s p)"
  "killed (pview s p) = killed (procs s p)" "budget (pview s p) = budget (procs s p)"
  "ctxt (pview s p) = ctxt (procs s p)" "pgdir (pview s p) = pgdir (procs s p)"
  "cpu_ticks_in (pview s p) = cpu_ticks_in (procs s p)" "parent (pview s p) = parent (procs s p)"
  by (simp_all add: pview_def)

lemma homed_upd_procs_frame [simp]:
  "homed X L (upd_procs A f (rel lk s)) = homed X L (upd_procs A f s)"
  "homed X L (upd_procs A f (acq lk s)) = homed X L (upd_procs A f s)"
  by (rule homed_frame; simp)+

text \<open>
  C2. \<^verbatim>\<open>yield\<close> and the end of the scheduler's iteration return with no lock held, the interrupt flag as
  before and no process on the CPU; the process is \<^verbatim>\<open>RUNNABLE\<close> at the end of the ready list of its
  priority; its budget went down by the ticks it ran, and if that used the budget up it dropped one
  priority level (but not below the lowest) and has a full budget. The table invariant holds.
\<close>

theorem yield_correct:
  assumes "mach_holds {} ie s" "pt_ok L s" "me s = Some p" "p < NPROC" "state (procs s p) = RUNNING"
  shows "wp (kseq yield_enter scheduler_back) (\<lambda>_ t.
    let r = procs s p; r' = procs t p; left = sint (budget r - (ticks s - cpu_ticks_in r)) in
    mach_holds {} ie t \<and> me t = None \<and> conslog t = conslog s \<and>
    state r' = RUNNABLE \<and> ctxt r' = Some (InYield ie) \<and>
    cpu_ticks_total r' = cpu_ticks_total r + (ticks s - cpu_ticks_in r) \<and>
    (if left \<le> 0
     then budget r' = BUDGET \<and> unat (priority r') = min MAXPRIO (unat (priority r) + 1)
     else sint (budget r') = left \<and> priority r' = priority r) \<and>
    (\<forall>q. q \<noteq> p \<longrightarrow> pview t q = pview s q) \<and>
    pt_ok (moved p LRunning (LReady (unat (priority r'))) L) t) s"
proof -
  let ?f = "left_cpu (ticks s) RUNNABLE (InYield ie)"
  have pr: "unat (priority (procs s p)) \<le> MAXPRIO" "p \<in> set (L LRunning)"
    using assms(2,4,5) pt_okD(6)[OF assms(2,4)] homedD(4)[of "{}" L s p]
    by (simp_all add: pt_ok_def home_def)
  have f: "unat (priority (?f (procs s p))) \<le> MAXPRIO" "state (?f (procs s p)) = RUNNABLE"
    using pr charge_priority by (simp_all add: left_cpu_def)
  show ?thesis
    unfolding wp_kbind
  proof (rule wp_yield_enter[OF assms], goal_cases)
    case (1 K)
    let ?u = "put_links K (upd_proc p ?f (acq PtableLock s))"
    have h: "mach_holds {PtableLock} ie ?u" using mach_holds_acq[OF assms(1)] by simp
    have "pt_ok (moved p LRunning (LReady (unat (priority (?f (procs s p))))) L) ?u"
      using assms(2) pr f 1 by (intro pt_ok_moved) simp_all
    then show ?case
      unfolding wp_scheduler_back[OF h] Let_def
      using mach_holds_off_cpu[OF h] f pr(1)
      by (auto simp: left_cpu_def charge_def Let_def layout unat_word_ariths pview_def)
  qed
qed

theorem yield_correct_witness:
  "\<exists>t. kseq yield_enter scheduler_back pst1 = Inr ((), t) \<and> state (procs t 0) = RUNNABLE"
  using yield_correct[OF pst1_holds pst1_ok pst1_proc(1,3,2)] by (auto simp: wp_def Let_def)

text \<open>
  C4. \<^verbatim>\<open>sleep(chan, lk)\<close>, called with exactly \<open>lk\<close> held, gives up the CPU with no lock held and the
  interrupt flag as before; the process is \<^verbatim>\<open>SLEEPING\<close> on \<open>chan\<close> at the end of the sleep list and
  remembers \<open>lk\<close>; no other process changes and the table invariant holds.
\<close>

theorem sleep_correct:
  assumes "mach_holds (locks_of lk) ie s" "pt_ok L s" "me s = Some p" "p < NPROC"
    "state (procs s p) = RUNNING"
  shows "wp (kseq (sleep_enter ch lk) scheduler_back) (\<lambda>_ t.
    mach_holds {} ie t \<and> me t = None \<and> conslog t = conslog s \<and>
    state (procs t p) = SLEEPING \<and> chan_of (procs t p) = Some ch \<and>
    ctxt (procs t p) = Some (InSleep lk ie) \<and>
    (\<forall>q. q \<noteq> p \<longrightarrow> pview t q = pview s q) \<and>
    pt_ok (moved p LRunning LSleep L) t) s"
proof -
  let ?f = "\<lambda>r. left_cpu (ticks s) SLEEPING (InSleep lk ie) (r\<lparr>chan_of := Some ch\<rparr>)"
  have pr: "unat (priority (procs s p)) \<le> MAXPRIO" "p \<in> set (L LRunning)"
    using assms(2,4,5) pt_okD(6)[OF assms(2,4)] homedD(4)[of "{}" L s p]
    by (simp_all add: pt_ok_def home_def)
  have f: "unat (priority (?f (procs s p))) \<le> MAXPRIO" "state (?f (procs s p)) = SLEEPING"
    using pr charge_priority by (simp_all add: left_cpu_def)
  show ?thesis
    unfolding wp_kbind
  proof (rule wp_sleep_enter[OF assms], goal_cases)
    case (1 K)
    let ?u = "put_links K (upd_proc p ?f (sleep_locks lk s))"
    have h: "mach_holds {PtableLock} ie ?u" using sleep_locks_rule(1)[OF assms(1)] by simp
    have "pt_ok (moved p LRunning LSleep L) ?u"
      using assms(2) pr f 1 by (intro pt_ok_moved) simp_all
    then show ?case
      unfolding wp_scheduler_back[OF h]
      using mach_holds_off_cpu[OF h] f
      by (auto simp: left_cpu_def charge_def Let_def pview_def)
  qed
qed

theorem sleep_correct_witness:
  "\<exists>t. kseq (sleep_enter ChInput None) scheduler_back pst1 = Inr ((), t) \<and>
    state (procs t 0) = SLEEPING"
  using sleep_correct[of None True pst1 lists1 0 ChInput] pst1_holds pst1_ok pst1_proc
  by (auto simp: wp_def locks_of_def)

text \<open>
  C3. \<^verbatim>\<open>wakeup(chan)\<close> makes exactly the processes that sleep on \<open>chan\<close> \<^verbatim>\<open>RUNNABLE\<close>; they leave the sleep
  list and join the ready lists of their priorities in the order in which they went to sleep, every
  other process and list is as before, and no lock stays held.
\<close>

theorem wakeup_correct:
  assumes "mach_holds {} ie s" "pt_ok L s"
  shows "wp (wakeup ch) (\<lambda>_ t.
    mach_holds {} ie t \<and> conslog t = conslog s \<and> curproc t = curproc s \<and>
    (\<forall>p < NPROC. pview t p = (if state (procs s p) = SLEEPING \<and> chan_of (procs s p) = Some ch
       then (pview s p)\<lparr>state := RUNNABLE\<rparr> else pview s p)) \<and>
    pt_ok (woken_lists (\<lambda>p. chan_of (procs s p) = Some ch) (procs s) (L LSleep) L) t) s"
proof -
  have h1: "mach_holds {PtableLock} ie (acq PtableLock s)" using mach_holds_acq[OF assms(1)] by simp
  have ok1: "pt_ok L (acq PtableLock s)" using assms(2) by simp
  have sl: "p \<in> set (L LSleep) \<longleftrightarrow> p < NPROC \<and> state (procs s p) = SLEEPING" for p
    using assms(2) by (simp add: pt_ok_def homed_def)
  have W: "woken ch (procs s) = (\<lambda>p. chan_of (procs s p) = Some ch)"
    by (simp add: woken_def fun_eq_iff)
  have "wp (wakeup1 ch) (\<lambda>_. wp (release PtableLock) (\<lambda>_ t.
    mach_holds {} ie t \<and> conslog t = conslog s \<and> curproc t = curproc s \<and>
    (\<forall>p < NPROC. pview t p = (if state (procs s p) = SLEEPING \<and> chan_of (procs s p) = Some ch
       then (pview s p)\<lparr>state := RUNNABLE\<rparr> else pview s p)) \<and>
    pt_ok (woken_lists (\<lambda>p. chan_of (procs s p) = Some ch) (procs s) (L LSleep) L) t)) (acq PtableLock s)"
  proof (rule wp_wakeup1[OF ok1], goal_cases)
    case (1 K)
    then show ?case
      using mach_holds_cycled[OF assms(1)]
      by (auto simp: wp_release[where H = "{PtableLock}" and ie = ie] h1 W sl pt_ok_def pview_def)
  qed
  then show ?thesis by (simp add: wakeup_def wp_simps wp_acquire[OF assms(1)])
qed

theorem wakeup_correct_witness:
  "\<exists>t. wakeup ChTicks pst1 = Inr ((), t) \<and> state (pview t 2) = RUNNABLE"
proof -
  have "state (procs pst1 2) = SLEEPING \<and> chan_of (procs pst1 2) = Some ChTicks \<and> (2::nat) < NPROC"
    by (simp add: pst1_def live_slot_def layout)
  then show ?thesis
    using wakeup_correct[OF pst1_holds pst1_ok, of ChTicks] unfolding wp_def
    by (fastforce simp del: pview_sel)
qed

text \<open>
  C1. One iteration of the scheduler, with the promotion of all processes first when the timer is
  due, picks the process at the head of the first non-empty ready list, so one of the highest
  priority that waited longest; it is then \<^verbatim>\<open>RUNNING\<close>, the CPU's current process, in its own address
  space, with the table lock held. When every ready list is empty no lock stays held.
\<close>

theorem scheduler_pick_correct:
  assumes "mach_holds {} ie s" "pt_ok L s" "pgdirs_ok s"
  shows "wp scheduler_pick (\<lambda>r t. let L1 = timer_lists s L in
    case next_level L1 of
      None \<Rightarrow> r = None \<and> mach_holds {} True t \<and> pt_ok L1 t
    | Some i \<Rightarrow> let p = hd (L1 (LReady i)) in
        r = Some p \<and> me t = Some p \<and> mach_holds {PtableLock} True t \<and>
        state (procs t p) = RUNNING \<and> cpu_ticks_in (procs t p) = ticks s \<and>
        cr3 t (mycpu s) = v2p (pgdir (procs s p)) \<and>
        pt_ok (moved p (LReady i) LRunning L1) t) s"
  using assms
proof (rule wp_scheduler_pick, goal_cases)
  case (1 i p ps K)
  have m: "mycpu (acq PtableLock (s\<lparr>iflag := fl\<rparr>)) = mycpu s" for fl by simp
  show ?case
    unfolding Let_def 1(1) option.case
    using 1 by (simp add: dispatched_def on_cpu_def me_def timer_state_def promote_def m)
next
  case (2 K)
  then show ?case by (simp add: Let_def)
qed

theorem scheduler_pick_correct_witness:
  "\<exists>t. scheduler_pick pst1 = Inr (Some 1, t) \<and> state (procs t 1) = RUNNING"
proof -
  have "pgdirs_ok pst1" by (simp add: pgdirs_ok_def pst1_def live_slot_def free_slot_def)
  moreover have "timer_lists pst1 lists1 = lists1" by (simp add: timer_lists_def pst1_def)
  moreover have "next_level lists1 = Some 0" by (simp add: next_level_def layout upt_rec)
  ultimately show ?thesis
    using scheduler_pick_correct[OF pst1_holds pst1_ok] by (auto simp: wp_def Let_def)
qed

text \<open>
  C5. \<^verbatim>\<open>promoteAll\<close> raises every active (ready, running or sleeping) process by one priority level
  and leaves the others alone; ready level 1 is appended, in order, to level 0, level 2 becomes
  level 1 and level 2 is empty.
\<close>

theorem promoteAll_correct:
  assumes "pt_ok L s"
  shows "wp promoteAll (\<lambda>_ t.
    pt_ok (L(LReady 0 := L (LReady 0) @ L (LReady 1), LReady 1 := L (LReady 2), LReady 2 := [])) t \<and>
    (\<forall>p < NPROC. unat (priority (procs t p)) =
      (if state (procs s p) \<in> {RUNNABLE, RUNNING, SLEEPING}
       then unat (priority (procs s p)) - 1 else unat (priority (procs s p)))) \<and>
    (\<forall>p. (pview t p)\<lparr>priority := 0\<rparr> = (pview s p)\<lparr>priority := 0\<rparr>)) s"
  using assms
proof (rule wp_promoteAll, goal_cases)
  case (1 K)
  then show ?case
    by (auto simp: promoted_def active_def promote_priority pview_def) (auto simp: promote_def)
qed

theorem promoteAll_correct_witness:
  "\<exists>t. promoteAll pst1 = Inr ((), t) \<and> unat (priority (procs t 2)) = 0"
proof -
  have "unat (priority (procs pst1 2)) = 0" "(2::nat) < NPROC"
    by (simp_all add: pst1_def live_slot_def free_slot_def layout)
  then show ?thesis using promoteAll_correct[OF pst1_ok] by (fastforce simp: wp_def)
qed

lemma find_in_set: "find P xs = Some x \<Longrightarrow> x \<in> set xs"
  by (induction xs) (auto split: if_splits)

text \<open>
  C6. \<^verbatim>\<open>kill(pid)\<close> marks the first process with that identifier, in the order sleep list, ready
  lists, running, free, zombie, embryo list, and returns 0; if that process sleeps it becomes
  \<^verbatim>\<open>RUNNABLE\<close> and moves to the end of its ready list. With no such process it returns -1 and changes
  nothing. No lock stays held.
\<close>

theorem kill_correct:
  assumes "mach_holds {} ie s" "pt_ok L s"
  shows "wp (kill n) (\<lambda>r t. mach_holds {} ie t \<and>
    (case find (\<lambda>p. pid (procs s p) = n) (concat (map L kill_order)) of
      None \<Rightarrow> r = - 1 \<and> pt_ok L t \<and> pview t = pview s
    | Some p \<Rightarrow> r = 0 \<and> (\<forall>q. q \<noteq> p \<longrightarrow> pview t q = pview s q) \<and>
        (if state (procs s p) = SLEEPING
         then pview t p = (pview s p)\<lparr>killed := True, state := RUNNABLE\<rparr> \<and>
           pt_ok (moved p LSleep (LReady (unat (priority (procs s p)))) L) t
         else pview t p = (pview s p)\<lparr>killed := True\<rparr> \<and> pt_ok L t))) s"
  using assms(2,1)
proof (rule wp_kill, goal_cases)
  case (1 p K)
  have st: "state (procs s p) = SLEEPING" "unat (priority (procs s p)) \<le> MAXPRIO"
    using pt_okD(3)[OF assms(2) 1(2)] pt_okD(4)[OF assms(2) 1(2)] by simp_all
  have "pt_ok L (cycled s)" using assms(2) by simp
  from pt_ok_moved[OF this 1(2,3), of "\<lambda>r. r\<lparr>killed := True, state := RUNNABLE\<rparr>"]
  show ?case using 1 st mach_holds_cycled[OF assms(1)] by (simp add: pview_def)
next
  case (2 p)
  then have "p \<in> set (concat (map L kill_order))" by (simp only: acq_rel_sel find_in_set)
  then obtain l where "p \<in> set (L l)" by auto
  then have p: "p < NPROC" using pt_okD(2)[OF assms(2)] by blast
  then have "state (procs s p) \<noteq> SLEEPING" using 2(2) pt_okD(6)[OF assms(2) p] by (auto simp: home_def)
  then show ?case using 2 assms(2) mach_holds_cycled[OF assms(1)] by (simp add: pview_def pt_ok_def)
next
  case 3
  then show ?case using assms(2) mach_holds_cycled[OF assms(1)] by (simp add: pview_def fun_eq_iff)
qed

theorem kill_correct_witness:
  "\<exists>t. kill 3 pst1 = Inr (0, t) \<and> pview t 2 = (pview pst1 2)\<lparr>killed := True, state := RUNNABLE\<rparr>"
proof -
  have "find (\<lambda>p. pid (procs pst1 p) = 3) (concat (map lists1 kill_order)) = Some 2"
    "state (procs pst1 2) = SLEEPING"
    by (simp_all add: kill_order_def pst1_def live_slot_def)
  then show ?thesis using kill_correct[OF pst1_holds pst1_ok, of 3] by (auto simp: wp_def)
qed

text \<open>
  C8. \<^verbatim>\<open>kill(0)\<close> succeeds whenever a slot with identifier 0 is on the free list and no process with
  identifier 0 is active: it marks the first such free slot as killed. \<^verbatim>\<open>allocproc\<close> does not clear the
  mark, so the next process in that slot starts out killed.
\<close>

theorem kill_zero_marks_free:
  assumes "mach_holds {} ie s" "pt_ok L s" "L LFree = p # ps" "pid (procs s p) = 0"
    "\<forall>q < NPROC. state (procs s q) \<in> {SLEEPING, RUNNABLE, RUNNING} \<longrightarrow> pid (procs s q) \<noteq> 0"
  shows "wp (kill 0) (\<lambda>r t. r = 0 \<and> state (procs t p) = UNUSED \<and> killed (procs t p)) s"
proof -
  have no: "find (\<lambda>q. pid (procs s q) = 0) (L l) = None"
    if "l = LSleep \<or> l = LRunning \<or> (\<exists>i. l = LReady i)" for l
    unfolding find_None_iff using that assms(5) pt_okD(2,3)[OF assms(2)]
    by (metis home_iff insertI1 insertI2)
  have f: "find (\<lambda>q. pid (procs s q) = 0) (concat (map L kill_order)) = Some p"
    using assms(3,4) no by (simp add: kill_order_def find_append[of _ "L _"])
  have st: "state (procs s p) = UNUSED" using pt_okD(3)[OF assms(2), of p LFree] assms(3) by simp
  show ?thesis
    using assms(2,1)
  proof (rule wp_kill, goal_cases)
    case (1 q K)
    then show ?case using f st pt_okD(3)[OF assms(2) 1(2)] by simp
  qed (use f st in simp_all)
qed

theorem kill_zero_marks_free_witness:
  "\<exists>t. kill 0 pst1 = Inr (0, t) \<and> state (procs t 3) = UNUSED \<and> killed (procs t 3)"
proof -
  have "lists1 LFree = 3 # [4..<NPROC]" by (simp add: upt_conv_Cons layout)
  moreover have "pid (procs pst1 3) = 0" by (simp add: pst1_def free_slot_def)
  moreover have "\<forall>q < NPROC. state (procs pst1 q) \<in> {SLEEPING, RUNNABLE, RUNNING} \<longrightarrow> pid (procs pst1 q) \<noteq> 0"
    by (simp add: pst1_def live_slot_def free_slot_def)
  ultimately show ?thesis using kill_zero_marks_free[OF pst1_holds pst1_ok] by (auto simp: wp_def)
qed

text \<open>
  C7. \<^verbatim>\<open>setpriority(pid, prio)\<close> with a priority in range gives the first ready, running or sleeping
  process with that identifier the new priority and a full budget, moves it to the end of the ready
  list of its new priority if it is ready, and returns 0; otherwise it returns -1 and changes
  nothing.
\<close>

theorem setpriority_correct:
  assumes "mach_holds {} ie s" "pt_ok L s" "unat prio \<le> MAXPRIO"
  shows "wp (setpriority n prio) (\<lambda>r t. mach_holds {} ie t \<and>
    (case find (\<lambda>p. pid (procs s p) = n) (concat (map L setpriority_order)) of
      None \<Rightarrow> r = - 1 \<and> pt_ok L t \<and> pview t = pview s
    | Some p \<Rightarrow> r = 0 \<and> pview t p = (pview s p)\<lparr>priority := prio, budget := BUDGET\<rparr> \<and>
        (\<forall>q. q \<noteq> p \<longrightarrow> pview t q = pview s q) \<and>
        pt_ok (if state (procs s p) = RUNNABLE
          then moved p (LReady (unat (priority (procs s p)))) (LReady (unat prio)) L else L) t)) s"
proof -
  have h1: "mach_holds {PtableLock} ie (acq PtableLock s)" using mach_holds_acq[OF assms(1)] by simp
  have ok1: "pt_ok L (acq PtableLock s)" using assms(2) by simp
  have v: "list_all lvalid setpriority_order" by (simp add: setpriority_order_def layout)
  have "wp (setpriority_scan n prio setpriority_order) (\<lambda>r t. mach_holds {} ie t \<and>
    (case find (\<lambda>p. pid (procs s p) = n) (concat (map L setpriority_order)) of
      None \<Rightarrow> r = - 1 \<and> pt_ok L t \<and> pview t = pview s
    | Some p \<Rightarrow> r = 0 \<and> pview t p = (pview s p)\<lparr>priority := prio, budget := BUDGET\<rparr> \<and>
        (\<forall>q. q \<noteq> p \<longrightarrow> pview t q = pview s q) \<and>
        pt_ok (if state (procs s p) = RUNNABLE
          then moved p (LReady (unat (priority (procs s p)))) (LReady (unat prio)) L else L) t))
    (acq PtableLock s)"
    using ok1 h1 assms(3) v
  proof (rule wp_setpriority_scan, goal_cases)
    case (1 p i K)
    have st: "state (procs s p) = RUNNABLE" "unat (priority (procs s p)) = i"
      using pt_okD(3)[OF assms(2) 1(2)] by auto
    have "pt_ok L (cycled s)" using assms(2) by simp
    from pt_ok_moved[OF this 1(2,3), of "\<lambda>r. r\<lparr>priority := prio, budget := BUDGET\<rparr>"]
    show ?case using 1 st assms(3) mach_holds_cycled[OF assms(1)] by (simp add: pview_def)
  next
    case (2 p)
    then have "p \<in> set (concat (map L setpriority_order))" by (simp only: acq_rel_sel find_in_set)
    then obtain l where "p \<in> set (L l)" by auto
    then have p: "p < NPROC" using pt_okD(2)[OF assms(2)] by blast
    have "homed {} L (upd_proc p (\<lambda>r. r\<lparr>priority := prio, budget := BUDGET\<rparr>) (cycled s))"
      using assms(2,3) 2(2) unfolding pt_ok_def homed_def
      by (auto simp: home_def split: procstate.splits)
    then show ?case using 2 assms(2) mach_holds_cycled[OF assms(1)] by (simp add: pview_def pt_ok_def)
  next
    case 3
    then show ?case using assms(2) mach_holds_cycled[OF assms(1)] by (simp add: pview_def fun_eq_iff)
  qed
  then show ?thesis by (simp add: setpriority_def setpriority_order_def wp_simps wp_acquire[OF assms(1)])
qed

theorem setpriority_correct_witness:
  "\<exists>t. setpriority 2 1 pst1 = Inr (0, t) \<and> priority (pview t 1) = 1"
proof -
  have "find (\<lambda>p. pid (procs pst1 p) = 2) (concat (map lists1 setpriority_order)) = Some 1"
    by (simp add: setpriority_order_def pst1_def live_slot_def)
  then show ?thesis using setpriority_correct[OF pst1_holds pst1_ok, of 1 2]
    by (auto simp: wp_def layout simp del: pview_sel)
qed

end
