(* ===== verification/Kern.thy ===== *)
theory Kern
  imports Sched
begin

text \<open>
  The environment of the file system: its code runs on a CPU that holds known locks, over a
  consistent process table, and calls \<^verbatim>\<open>acquire\<close>, \<^verbatim>\<open>release\<close>, \<^verbatim>\<open>wakeup\<close> and \<^verbatim>\<open>sleep\<close>. \<open>kern_ok H s\<close>
  is what these calls need, \<open>kview\<close> is the part of the state they never change.
\<close>

section \<open>Sleeping\<close>

text \<open>
  \<^verbatim>\<open>sleep\<close> in code that runs on behalf of a process: it panics when there is no process, and in
  \<^verbatim>\<open>sched\<close> when another lock than the one given up is held; otherwise the process blocks.
\<close>

definition sleep :: "chan \<Rightarrow> lockid \<Rightarrow> ('a pst_scheme, 'b) kmon" where
  "sleep ch lk =
    kbind (gets me) (\<lambda>po. if po = None then panic ''sleep'' else
    kbind (gets (holding lk)) (\<lambda>h. if \<not> h then panic ''release'' else
    kbind (gets (\<lambda>s. ncli (cpus s (mycpu s)))) (\<lambda>n. if n \<noteq> 1 then panic ''sched locks''
    else stop (Sleep ch (Some lk)))))"

section \<open>The frame\<close>

definition pcore :: "proc \<Rightarrow> proc" where
  "pcore r = r\<lparr>state := UNUSED, nextp := None\<rparr>"

definition kview :: "'a pst_scheme \<Rightarrow> 'a pst_scheme" where
  "kview s = s\<lparr>locks := \<lambda>_. \<lparr>locked = 0, lcpu = None\<rparr>, cpus := \<lambda>_. \<lparr>ncli = 0, intena = False\<rparr>,
    iflag := \<lambda>_. False, procs := pcore \<circ> procs s, ready := [], lfree := None, lsleep := None,
    lzombie := None, lrunning := None, lembryo := None\<rparr>"

definition kern_ok :: "lockid set \<Rightarrow> 'a pst_scheme \<Rightarrow> bool" where
  "kern_ok H s \<longleftrightarrow> (\<exists>ie L. mach_holds H ie s \<and> pt_ok L s)"

lemma kview_eqD:
  assumes "kview t = kview s"
  shows "pst.more t = pst.more s" "curproc t = curproc s" "mycpu t = mycpu s" "me t = me s"
    "conslog t = conslog s" "mem t = mem s" "use_lock t = use_lock s" "freelist t = freelist s"
    "ticks t = ticks s" "initproc t = initproc s" "nextpid t = nextpid s"
    "killed (procs t p) = killed (procs s p)" "ofile (procs t p) = ofile (procs s p)"
    "cwd (procs t p) = cwd (procs s p)" "pid (procs t p) = pid (procs s p)"
    "sz (procs t p) = sz (procs s p)" "pgdir (procs t p) = pgdir (procs s p)"
    "parent (procs t p) = parent (procs s p)"
proof -
  have p: "pcore (procs t p) = pcore (procs s p)"
    using arg_cong[OF assms, of "\<lambda>s. procs s p"] by (simp add: kview_def)
  show "killed (procs t p) = killed (procs s p)" "ofile (procs t p) = ofile (procs s p)"
    "cwd (procs t p) = cwd (procs s p)" "pid (procs t p) = pid (procs s p)"
    "sz (procs t p) = sz (procs s p)" "pgdir (procs t p) = pgdir (procs s p)"
    "parent (procs t p) = parent (procs s p)"
    using arg_cong[OF p, of killed] arg_cong[OF p, of ofile] arg_cong[OF p, of cwd]
      arg_cong[OF p, of pid] arg_cong[OF p, of sz] arg_cong[OF p, of pgdir] arg_cong[OF p, of parent]
    by (simp_all add: pcore_def)
  show "pst.more t = pst.more s" "curproc t = curproc s" "mycpu t = mycpu s" "me t = me s"
    "conslog t = conslog s" "mem t = mem s" "use_lock t = use_lock s" "freelist t = freelist s"
    "ticks t = ticks s" "initproc t = initproc s" "nextpid t = nextpid s"
    using arg_cong[OF assms, of pst.more] arg_cong[OF assms, of curproc] arg_cong[OF assms, of mycpu]
      arg_cong[OF assms, of conslog] arg_cong[OF assms, of mem] arg_cong[OF assms, of use_lock]
      arg_cong[OF assms, of freelist] arg_cong[OF assms, of ticks] arg_cong[OF assms, of initproc]
      arg_cong[OF assms, of nextpid]
    by (simp_all add: kview_def me_def)
qed

lemma kview_mach [simp]: "kview (acq l s) = kview s" "kview (rel l s) = kview s"
  by (simp_all add: kview_def acq_def rel_def)

lemma wp_acquire_k:
  assumes "kern_ok H s" "l \<notin> H" "\<And>t. kern_ok (insert l H) t \<Longrightarrow> kview t = kview s \<Longrightarrow> Q () t"
  shows "wp (acquire l) Q s"
proof -
  obtain ie L where k: "mach_holds H ie s" "pt_ok L s" using assms(1) by (auto simp: kern_ok_def)
  have "kern_ok (insert l H) (acq l s)" unfolding kern_ok_def
    using mach_holds_acq[OF k(1) assms(2)] k(2) by auto
  then show ?thesis using assms(3)[of "acq l s"] by (simp add: wp_acquire[OF k(1) assms(2)])
qed

lemma wp_release_k:
  assumes "kern_ok H s" "l \<in> H" "\<And>t. kern_ok (H - {l}) t \<Longrightarrow> kview t = kview s \<Longrightarrow> Q () t"
  shows "wp (release l) Q s"
proof -
  obtain ie L where k: "mach_holds H ie s" "pt_ok L s" using assms(1) by (auto simp: kern_ok_def)
  have "kern_ok (H - {l}) (rel l s)" unfolding kern_ok_def
    using mach_holds_rel[OF k(1) assms(2)] k(2) by auto
  then show ?thesis using assms(3)[of "rel l s"] by (simp add: wp_release[OF k(1) assms(2)])
qed

lemma kview_woken: "kview (put_links K (upd_procs A (\<lambda>r. r\<lparr>state := RUNNABLE\<rparr>) s)) = kview s"
  by (auto simp: kview_def put_links_def relink_def upd_procs_def pcore_def fun_eq_iff)

lemma wp_wakeup_k:
  assumes "kern_ok H s" "PtableLock \<notin> H" "\<And>t. kern_ok H t \<Longrightarrow> kview t = kview s \<Longrightarrow> Q () t"
  shows "wp (wakeup ch) Q s"
proof -
  obtain ie L where k: "mach_holds H ie s" "pt_ok L s" using assms(1) by (auto simp: kern_ok_def)
  have h1: "mach_holds (insert PtableLock H) ie (acq PtableLock s)" using mach_holds_acq[OF k(1) assms(2)] .
  have ok1: "pt_ok L (acq PtableLock s)" using k(2) by simp
  have "wp (wakeup1 ch) (\<lambda>_. wp (release PtableLock) Q) (acq PtableLock s)"
  proof (rule wp_wakeup1[OF ok1])
    fix K
    let ?u = "put_links K (upd_procs {p \<in> set (L LSleep). woken ch (procs (acq PtableLock s)) p}
      (\<lambda>r. r\<lparr>state := RUNNABLE\<rparr>) (acq PtableLock s))"
    assume ok: "pt_ok (woken_lists (woken ch (procs (acq PtableLock s))) (procs (acq PtableLock s)) (L LSleep) L) ?u"
    have "mach_holds (insert PtableLock H) ie ?u" using h1 by simp
    then have "kern_ok (insert PtableLock H) ?u" using ok unfolding kern_ok_def by blast
    then show "wp (release PtableLock) Q ?u"
      by (rule wp_release_k) (use assms(2,3) in \<open>auto simp: kview_woken\<close>)
  qed
  then show ?thesis by (simp add: wakeup_def wp_simps wp_acquire[OF k(1) assms(2)])
qed

section \<open>States that differ in the kernel part\<close>

text \<open>
  \<open>put_kern k s\<close> replaces in \<open>s\<close> the locks and the links and states of the processes by those of \<open>k\<close>.
  The calls above end in such a state, and the updates of the file system commute with it, so that
  a proof about file system code sees one \<open>put_kern\<close> around the updates that the code makes.
\<close>

definition put_kern :: "pst \<Rightarrow> 'a pst_scheme \<Rightarrow> 'a pst_scheme" where
  "put_kern k s = s\<lparr>locks := locks k, cpus := cpus k, iflag := iflag k,
    procs := \<lambda>p. (procs s p)\<lparr>state := state (procs k p), nextp := nextp (procs k p)\<rparr>,
    ready := ready k, lfree := lfree k, lsleep := lsleep k, lzombie := lzombie k,
    lrunning := lrunning k, lembryo := lembryo k\<rparr>"

lemma put_kern_twice [simp]: "put_kern k (put_kern k' s) = put_kern k s"
  by (simp add: put_kern_def)

lemma put_kern_sel [simp]:
  "curproc (put_kern k s) = curproc s" "mycpu (put_kern k s) = mycpu s" "me (put_kern k s) = me s"
  "conslog (put_kern k s) = conslog s" "mem (put_kern k s) = mem s"
  "use_lock (put_kern k s) = use_lock s" "freelist (put_kern k s) = freelist s"
  "ticks (put_kern k s) = ticks s" "initproc (put_kern k s) = initproc s"
  "nextpid (put_kern k s) = nextpid s" "pst.more (put_kern k s) = pst.more s"
  "killed (procs (put_kern k s) p) = killed (procs s p)"
  "ofile (procs (put_kern k s) p) = ofile (procs s p)"
  "cwd (procs (put_kern k s) p) = cwd (procs s p)" "pid (procs (put_kern k s) p) = pid (procs s p)"
  "sz (procs (put_kern k s) p) = sz (procs s p)" "pgdir (procs (put_kern k s) p) = pgdir (procs s p)"
  by (simp_all add: put_kern_def me_def)

lemma kview_put_kern: "kview t = kview s \<Longrightarrow> \<exists>k. t = put_kern k s"
proof
  assume a: "kview t = kview s"
  have "procs t p = (procs s p)\<lparr>state := state (procs t p), nextp := nextp (procs t p)\<rparr>" for p
    using arg_cong[OF a, of "\<lambda>s. procs s p"] by (cases "procs s p"; cases "procs t p") (simp add: kview_def pcore_def)
  then show "t = put_kern (pst.truncate t) s"
    using a by (cases s; cases t) (simp add: kview_def put_kern_def pst.truncate_def fun_eq_iff)
qed

lemma wp_acquire_put:
  assumes "kern_ok H s" "l \<notin> H" "\<And>k. kern_ok (insert l H) (put_kern k s) \<Longrightarrow> Q () (put_kern k s)"
  shows "wp (acquire l) Q s"
  using assms kview_put_kern by (blast intro: wp_acquire_k)

lemma wp_release_put:
  assumes "kern_ok H s" "l \<in> H" "\<And>k. kern_ok (H - {l}) (put_kern k s) \<Longrightarrow> Q () (put_kern k s)"
  shows "wp (release l) Q s"
  using assms kview_put_kern by (blast intro: wp_release_k)

lemma wp_wakeup_put:
  assumes "kern_ok H s" "PtableLock \<notin> H" "\<And>k. kern_ok H (put_kern k s) \<Longrightarrow> Q () (put_kern k s)"
  shows "wp (wakeup ch) Q s"
  using assms kview_put_kern by (blast intro: wp_wakeup_k)

lemma nexts_fun: "nexts s = (\<lambda>p. nextp (procs s p))"
  by (simp add: nexts_def fun_eq_iff)

lemmas kern_frame = kern_ok_def mach_holds_def pt_ok_def homed_def links_of_def nexts_fun put_kern_def

section \<open>Who sleeps on what\<close>

definition sleepers :: "chan \<Rightarrow> 'a pst_scheme \<Rightarrow> nat set" where
  "sleepers ch s = {q. q < NPROC \<and> state (procs s q) = SLEEPING \<and> chan_of (procs s q) = Some ch}"

text \<open>The state of a process after its channel was woken.\<close>

definition woken_state :: "chan \<Rightarrow> 'a pst_scheme \<Rightarrow> nat \<Rightarrow> procstate" where
  "woken_state ch s q = (if q \<in> sleepers ch s then RUNNABLE else state (procs s q))"

lemma put_kern_chan [simp]:
  "chan_of (procs (put_kern k s) p) = chan_of (procs s p)" "state (procs (put_kern k s) p) = state (procs k p)"
  by (simp_all add: put_kern_def)

lemma sleepers_same:
  "(\<And>q. state (procs t q) = state (procs s q)) \<Longrightarrow> (\<And>q. chan_of (procs t q) = chan_of (procs s q)) \<Longrightarrow>
    sleepers ch t = sleepers ch s"
  by (simp add: sleepers_def)

lemma sleepers_woken:
  "(\<And>q. state (procs t q) = woken_state ch s q) \<Longrightarrow> (\<And>q. chan_of (procs t q) = chan_of (procs s q)) \<Longrightarrow>
    sleepers ch' t = (if ch' = ch then {} else sleepers ch' s)"
  by (auto simp: sleepers_def woken_state_def)

lemma wp_acquire_st:
  assumes "kern_ok H s" "l \<notin> H"
    "\<And>k. kern_ok (insert l H) (put_kern k s) \<Longrightarrow> (\<And>q. state (procs (put_kern k s) q) = state (procs s q)) \<Longrightarrow>
      Q () (put_kern k s)"
  shows "wp (acquire l) Q s"
proof -
  obtain ie L where k: "mach_holds H ie s" "pt_ok L s" using assms(1) by (auto simp: kern_ok_def)
  have ok: "kern_ok (insert l H) (acq l s)" unfolding kern_ok_def
    using mach_holds_acq[OF k(1) assms(2)] k(2) by auto
  obtain k' where k': "acq l s = put_kern k' s" using kview_put_kern[of "acq l s" s] by auto
  have "procs (acq l s) = procs s" by simp
  then show ?thesis using assms(3)[of k'] ok k' by (simp add: wp_acquire[OF k(1) assms(2)])
qed

lemma wp_release_st:
  assumes "kern_ok H s" "l \<in> H"
    "\<And>k. kern_ok (H - {l}) (put_kern k s) \<Longrightarrow> (\<And>q. state (procs (put_kern k s) q) = state (procs s q)) \<Longrightarrow>
      Q () (put_kern k s)"
  shows "wp (release l) Q s"
proof -
  obtain ie L where k: "mach_holds H ie s" "pt_ok L s" using assms(1) by (auto simp: kern_ok_def)
  have ok: "kern_ok (H - {l}) (rel l s)" unfolding kern_ok_def
    using mach_holds_rel[OF k(1) assms(2)] k(2) by auto
  obtain k' where k': "rel l s = put_kern k' s" using kview_put_kern[of "rel l s" s] by auto
  have "procs (rel l s) = procs s" by simp
  then show ?thesis using assms(3)[of k'] ok k' by (simp add: wp_release[OF k(1) assms(2)])
qed

lemma wp_wakeup_st:
  assumes "kern_ok H s" "PtableLock \<notin> H"
    "\<And>k. kern_ok H (put_kern k s) \<Longrightarrow> (\<And>q. state (procs (put_kern k s) q) = woken_state ch s q) \<Longrightarrow>
      Q () (put_kern k s)"
  shows "wp (wakeup ch) Q s"
proof -
  obtain ie L where k: "mach_holds H ie s" "pt_ok L s" using assms(1) by (auto simp: kern_ok_def)
  let ?s1 = "acq PtableLock s"
  have h1: "mach_holds (insert PtableLock H) ie ?s1" using mach_holds_acq[OF k(1) assms(2)] .
  have ok1: "pt_ok L ?s1" using k(2) by simp
  have sl: "q \<in> set (L LSleep) \<and> woken ch (procs s) q \<longleftrightarrow> q \<in> sleepers ch s" for q
    using k(2) by (auto simp: pt_ok_def homed_def sleepers_def woken_def)
  have "wp (wakeup1 ch) (\<lambda>_. wp (release PtableLock) Q) ?s1"
  proof (rule wp_wakeup1[OF ok1])
    fix K
    let ?u = "put_links K (upd_procs {p \<in> set (L LSleep). woken ch (procs ?s1) p} (\<lambda>r. r\<lparr>state := RUNNABLE\<rparr>) ?s1)"
    assume ok: "pt_ok (woken_lists (woken ch (procs ?s1)) (procs ?s1) (L LSleep) L) ?u"
    have "mach_holds (insert PtableLock H) ie ?u" using h1 by simp
    then have ku: "kern_ok (insert PtableLock H) ?u" using ok unfolding kern_ok_def by blast
    have st: "state (procs ?u q) = woken_state ch s q" for q using sl[of q] by (auto simp: woken_state_def)
    show "wp (release PtableLock) Q ?u"
    proof (rule wp_release_st[OF ku])
      fix k' assume k': "kern_ok (insert PtableLock H - {PtableLock}) (put_kern k' ?u)"
        "\<And>q. state (procs (put_kern k' ?u) q) = state (procs ?u q)"
      have "kview (put_kern k' ?u) = kview s" by (simp add: kview_def put_kern_def pcore_def put_links_def
            relink_def upd_procs_def fun_eq_iff acq_def)
      then obtain k'' where "put_kern k' ?u = put_kern k'' s" using kview_put_kern by blast
      then show "Q () (put_kern k' ?u)" using assms(2) assms(3)[of k''] k' st by simp
    qed simp
  qed
  then show ?thesis by (simp add: wakeup_def wp_simps wp_acquire[OF k(1) assms(2)])
qed

lemma wp_sleep_off:
  assumes "kern_ok {l} s" "me s = Some p" "p < NPROC" "state (procs s p) = RUNNING"
    "\<And>t. kern_ok {} t \<Longrightarrow> me t = None \<Longrightarrow> pst.more t = pst.more s \<Longrightarrow> mem t = mem s \<Longrightarrow>
      (\<And>ch'. sleepers ch' t = (if ch' = ch then insert p (sleepers ch s) else sleepers ch' s)) \<Longrightarrow> Q () t"
  shows "wp (kseq (sleep_enter ch (Some l)) scheduler_back) Q s"
proof -
  obtain ie L where k: "mach_holds {l} ie s" "pt_ok L s" using assms(1) by (auto simp: kern_ok_def)
  have h0: "mach_holds (locks_of (Some l)) ie s" using k(1) by (simp add: locks_of_def)
  let ?f = "\<lambda>r. left_cpu (ticks s) SLEEPING (InSleep (Some l) ie) (r\<lparr>chan_of := Some ch\<rparr>)"
  have pr: "unat (priority (procs s p)) \<le> MAXPRIO" "p \<in> set (L LRunning)"
    using k(2) assms(3,4) pt_okD(6)[OF k(2) assms(3)] homedD(4)[of "{}" L s p]
    by (simp_all add: pt_ok_def home_def)
  have f: "unat (priority (?f (procs s p))) \<le> MAXPRIO" "state (?f (procs s p)) = SLEEPING"
    using pr charge_priority by (simp_all add: left_cpu_def)
  have ch: "chan_of (?f (procs s p)) = Some ch" by (simp add: left_cpu_def charge_def Let_def)
  show ?thesis
    unfolding wp_kbind
  proof (rule wp_sleep_enter[OF h0 k(2) assms(2-4)])
    fix K assume K: "rep (moved p LRunning LSleep L) K"
    let ?u = "put_links K (upd_proc p ?f (sleep_locks (Some l) s))"
    have h: "mach_holds {PtableLock} ie ?u" using sleep_locks_rule(1)[OF h0] by simp
    have "pt_ok (moved p LRunning LSleep L) ?u"
      using k(2) pr f K by (intro pt_ok_moved) simp_all
    then have "kern_ok {} (off_cpu ?u)"
      unfolding kern_ok_def using mach_holds_off_cpu[OF h] by auto
    moreover have "pst.more (off_cpu ?u) = pst.more s" "mem (off_cpu ?u) = mem s"
      by (simp_all add: off_cpu_def rel_def put_links_def relink_def upd_proc_def sleep_locks_def acq_def)
    moreover have "sleepers ch' (off_cpu ?u) = (if ch' = ch then insert p (sleepers ch s) else sleepers ch' s)" for ch'
      using f ch assms(3,4) by (auto simp: sleepers_def)
    ultimately show "wp scheduler_back Q ?u"
      unfolding wp_scheduler_back[OF h] using assms(5)[of "off_cpu ?u"] by simp
  qed
qed

end
