(* ===== verification/Bio.thy ===== *)
theory Bio
  imports Kern
begin

text \<open>
  \<^verbatim>\<open>bio.c\<close> and \<^verbatim>\<open>ide.c\<close>: the buffer cache and the disk driver under it. The buffers are the slots
  \<open>0 ..< NBUF\<close> of a table, slot \<open>NBUF\<close> is \<^verbatim>\<open>bcache.head\<close>, and \<open>bprev\<close>/\<open>bnext\<close> are the links of the
  circular list in order of use. The three bits of \<^verbatim>\<open>flags\<close> are three Booleans.

  The disk is a store of blocks per drive with a history of the writes that reached it. A write
  command transfers its data when it is issued (\<open>idestart\<close>), a read delivers it when the drive
  interrupts (\<open>ideintr\<close>). The wait of \<open>iderw\<close> for its request runs the interrupt handler until the
  request is done.

  The lemmas show that the links always form one circle through all buffers, that no block has two
  buffers, and that \<open>bread\<close> returns a busy buffer with the block's current contents.
\<close>

section \<open>State\<close>

definition NBUF :: nat where [layout]: "NBUF = 30"
definition BSIZE :: nat where [layout]: "BSIZE = 512"
definition FSSIZE :: uint where [layout]: "FSSIZE = 2000"
definition ROOTDEV :: uint where [layout]: "ROOTDEV = 1"

record buf =
  bbusy :: bool
  bvalid :: bool
  bdirty :: bool
  bdev :: uint
  blockno :: uint
  bprev :: nat
  bnext :: nat
  qnext :: "nat option"
  bdata :: "uchar list"

record bst = pst +
  bufs :: "nat \<Rightarrow> buf"
  idequeue :: "nat option"
  havedisk1 :: bool
  disk :: "uint \<Rightarrow> uint \<Rightarrow> uchar list"
  dtrace :: "(uint \<times> uint \<times> uchar list) list"
  ide_err :: bool

definition buf_upd :: "nat \<Rightarrow> (buf \<Rightarrow> buf) \<Rightarrow> 'a bst_scheme \<Rightarrow> 'a bst_scheme" where
  "buf_upd b f s = s\<lparr>bufs := (bufs s)(b := f (bufs s b))\<rparr>"

definition set_buf :: "nat \<Rightarrow> (buf \<Rightarrow> buf) \<Rightarrow> ('a bst_scheme, unit) kmon" where
  "set_buf b f = modify (buf_upd b f)"

abbreviation get_buf :: "nat \<Rightarrow> ('a bst_scheme, buf) kmon" where
  "get_buf b \<equiv> gets (\<lambda>s. bufs s b)"

section \<open>The disk driver\<close>

text \<open>
  \<open>idewait\<close> polls until the drive is ready; with \<open>checkerr\<close> it reports the error bits.
\<close>

definition idewait :: "bool \<Rightarrow> 'a bst_scheme \<Rightarrow> int" where
  "idewait checkerr s = (if checkerr \<and> ide_err s then - 1 else 0)"

definition disk_put :: "uint \<Rightarrow> uint \<Rightarrow> uchar list \<Rightarrow> 'a bst_scheme \<Rightarrow> 'a bst_scheme" where
  "disk_put d n bs s = s\<lparr>disk := (disk s)(d := (disk s d)(n := bs)), dtrace := dtrace s @ [(d, n, bs)]\<rparr>"

definition idestart :: "nat option \<Rightarrow> ('a bst_scheme, unit) kmon" where
  "idestart bo = (case bo of
      None \<Rightarrow> panic ''idestart''
    | Some b \<Rightarrow>
      kbind (get_buf b) (\<lambda>r.
      if blockno r \<ge> FSSIZE then panic ''incorrect blockno''
      else kwhen (bdirty r) (modify (disk_put (bdev r AND 1) (blockno r) (bdata r)))))"

definition ideintr :: "('a bst_scheme, unit) kmon" where
  "ideintr =
    kseq (acquire IdeLock) (
    kbind (gets idequeue) (\<lambda>q. case q of
      None \<Rightarrow> release IdeLock
    | Some b \<Rightarrow>
      kbind (get_buf b) (\<lambda>r.
      kseq (modify (\<lambda>s. s\<lparr>idequeue := qnext r\<rparr>)) (
      kbind (gets (idewait True)) (\<lambda>w.
      kbind (gets disk) (\<lambda>d.
      kseq (kwhen (\<not> bdirty r \<and> w \<ge> 0) (set_buf b (\<lambda>r. r\<lparr>bdata := d (bdev r AND 1) (blockno r)\<rparr>))) (
      kseq (set_buf b (\<lambda>r. r\<lparr>bvalid := True\<rparr>)) (
      kseq (set_buf b (\<lambda>r. r\<lparr>bdirty := False\<rparr>)) (
      kseq (wakeup (ChBuf b)) (
      kbind (gets idequeue) (\<lambda>q'.
      kseq (kwhen (q' \<noteq> None) (idestart q')) (
      release IdeLock))))))))))))"

text \<open>The walk to the end of the request queue, at most \<open>NBUF\<close> requests long.\<close>

fun queue_last :: "nat \<Rightarrow> nat \<Rightarrow> ('a bst_scheme, nat) kmon" where
  "queue_last 0 b = stop Diverge"
| "queue_last (Suc n) b =
    kbind (get_buf b) (\<lambda>r. case qnext r of None \<Rightarrow> ret b | Some b' \<Rightarrow> queue_last n b')"

definition enqueue_req :: "nat \<Rightarrow> ('a bst_scheme, unit) kmon" where
  "enqueue_req b =
    kseq (set_buf b (\<lambda>r. r\<lparr>qnext := None\<rparr>)) (
    kbind (gets idequeue) (\<lambda>q. case q of
      None \<Rightarrow> modify (\<lambda>s. s\<lparr>idequeue := Some b\<rparr>)
    | Some h \<Rightarrow> kbind (queue_last NBUF h) (\<lambda>l. set_buf l (\<lambda>r. r\<lparr>qnext := Some b\<rparr>))))"

fun iderw_wait :: "nat \<Rightarrow> nat \<Rightarrow> ('a bst_scheme, unit) kmon" where
  "iderw_wait 0 b = stop Diverge"
| "iderw_wait (Suc n) b =
    kbind (get_buf b) (\<lambda>r.
    if bvalid r \<and> \<not> bdirty r then ret ()
    else kseq (release IdeLock) (kseq ideintr (kseq (acquire IdeLock) (iderw_wait n b))))"

definition iderw :: "nat \<Rightarrow> ('a bst_scheme, unit) kmon" where
  "iderw b =
    kbind (get_buf b) (\<lambda>r.
    if \<not> bbusy r then panic ''iderw: buf not busy''
    else if bvalid r \<and> \<not> bdirty r then panic ''iderw: nothing to do''
    else
      kbind (gets havedisk1) (\<lambda>h.
      if bdev r \<noteq> 0 \<and> \<not> h then panic ''iderw: ide disk 1 not present''
      else
        kseq (acquire IdeLock) (
        kseq (enqueue_req b) (
        kbind (gets idequeue) (\<lambda>q.
        kseq (kwhen (q = Some b) (idestart (Some b))) (
        kseq (iderw_wait (NBUF + 1) b) (
        release IdeLock)))))))"

section \<open>The buffer cache\<close>

abbreviation bhead :: nat where "bhead \<equiv> NBUF"

definition binit_step :: "nat \<Rightarrow> ('a bst_scheme, unit) kmon" where
  "binit_step b =
    kbind (get_buf bhead) (\<lambda>h.
    kseq (set_buf b (\<lambda>r. r\<lparr>bnext := bnext h\<rparr>)) (
    kseq (set_buf b (\<lambda>r. r\<lparr>bprev := bhead\<rparr>)) (
    kseq (set_buf b (\<lambda>r. r\<lparr>bdev := - 1\<rparr>)) (
    kseq (set_buf (bnext h) (\<lambda>r. r\<lparr>bprev := b\<rparr>)) (
    set_buf bhead (\<lambda>r. r\<lparr>bnext := b\<rparr>))))))"

definition binit :: "('a bst_scheme, unit) kmon" where
  "binit =
    kseq (initlock BcacheLock) (
    kseq (set_buf bhead (\<lambda>r. r\<lparr>bprev := bhead\<rparr>)) (
    kseq (set_buf bhead (\<lambda>r. r\<lparr>bnext := bhead\<rparr>)) (
    kfor binit_step [0..<NBUF])))"

text \<open>The two scans of \<^verbatim>\<open>bget\<close> follow the links from the head until they are back at it.\<close>

fun bscan :: "nat \<Rightarrow> (buf \<Rightarrow> nat) \<Rightarrow> (buf \<Rightarrow> bool) \<Rightarrow> nat \<Rightarrow> ('a bst_scheme, nat option) kmon" where
  "bscan 0 link P b = (if b = bhead then ret None else stop Diverge)"
| "bscan (Suc n) link P b =
    (if b = bhead then ret None
     else kbind (get_buf b) (\<lambda>r. if P r then ret (Some b) else bscan n link P (link r)))"

definition bget :: "uint \<Rightarrow> uint \<Rightarrow> ('a bst_scheme, nat) kmon" where
  "bget dev bno =
    kseq (acquire BcacheLock) (
    kbind (get_buf bhead) (\<lambda>h.
    kbind (bscan NBUF bnext (\<lambda>r. bdev r = dev \<and> blockno r = bno) (bnext h)) (\<lambda>c. case c of
      Some b \<Rightarrow>
        kbind (get_buf b) (\<lambda>r.
        if \<not> bbusy r then
          kseq (set_buf b (\<lambda>r. r\<lparr>bbusy := True\<rparr>)) (
          kseq (release BcacheLock) (
          ret b))
        else sleep (ChBuf b) BcacheLock)
    | None \<Rightarrow>
        kbind (bscan NBUF bprev (\<lambda>r. \<not> bbusy r \<and> \<not> bdirty r) (bprev h)) (\<lambda>c. case c of
          Some b \<Rightarrow>
            kseq (set_buf b (\<lambda>r. r\<lparr>bdev := dev, blockno := bno,
              bbusy := True, bvalid := False, bdirty := False\<rparr>)) (
            kseq (release BcacheLock) (
            ret b))
        | None \<Rightarrow> panic ''bget: no buffers''))))"

definition bread :: "uint \<Rightarrow> uint \<Rightarrow> ('a bst_scheme, nat) kmon" where
  "bread dev bno =
    kbind (bget dev bno) (\<lambda>b.
    kbind (get_buf b) (\<lambda>r.
    kseq (kwhen (\<not> bvalid r) (iderw b)) (
    ret b)))"

definition bwrite :: "nat \<Rightarrow> ('a bst_scheme, unit) kmon" where
  "bwrite b =
    kbind (get_buf b) (\<lambda>r.
    if \<not> bbusy r then panic ''bwrite''
    else kseq (set_buf b (\<lambda>r. r\<lparr>bdirty := True\<rparr>)) (iderw b))"

definition brelse :: "nat \<Rightarrow> ('a bst_scheme, unit) kmon" where
  "brelse b =
    kbind (get_buf b) (\<lambda>r.
    if \<not> bbusy r then panic ''brelse''
    else
      kseq (acquire BcacheLock) (
      kseq (set_buf (bnext r) (\<lambda>n. n\<lparr>bprev := bprev r\<rparr>)) (
      kbind (get_buf b) (\<lambda>r.
      kseq (set_buf (bprev r) (\<lambda>p. p\<lparr>bnext := bnext r\<rparr>)) (
      kbind (get_buf bhead) (\<lambda>h.
      kseq (set_buf b (\<lambda>r. r\<lparr>bnext := bnext h\<rparr>)) (
      kseq (set_buf b (\<lambda>r. r\<lparr>bprev := bhead\<rparr>)) (
      kbind (get_buf bhead) (\<lambda>h.
      kseq (set_buf (bnext h) (\<lambda>n. n\<lparr>bprev := b\<rparr>)) (
      kseq (set_buf bhead (\<lambda>h. h\<lparr>bnext := b\<rparr>)) (
      kseq (set_buf b (\<lambda>r. r\<lparr>bbusy := False\<rparr>)) (
      kseq (wakeup (ChBuf b)) (
      release BcacheLock)))))))))))))"

declare iderw_wait.simps [simp del]

section \<open>Updates and the kernel part\<close>

lemma put_kern_bst [simp]:
  "bufs (put_kern k s) = bufs s" "idequeue (put_kern k s) = idequeue s"
  "havedisk1 (put_kern k s) = havedisk1 s" "disk (put_kern k s) = disk s"
  "dtrace (put_kern k s) = dtrace s" "ide_err (put_kern k s) = ide_err s"
  "bst.more (put_kern k s) = bst.more s"
  "bufs_update f (put_kern k s) = put_kern k (bufs_update f s)"
  "idequeue_update g (put_kern k s) = put_kern k (idequeue_update g s)"
  "disk_update h (put_kern k s) = put_kern k (disk_update h s)"
  "dtrace_update d (put_kern k s) = put_kern k (dtrace_update d s)"
  by (simp_all add: put_kern_def)

lemma kern_ok_bst [simp]:
  "kern_ok H (bufs_update f s) = kern_ok H s" "kern_ok H (idequeue_update g s) = kern_ok H s"
  "kern_ok H (disk_update h s) = kern_ok H s" "kern_ok H (dtrace_update d s) = kern_ok H s"
  "kern_ok H (put_kern k (bufs_update f s)) = kern_ok H (put_kern k s)"
  "kern_ok H (put_kern k (idequeue_update g s)) = kern_ok H (put_kern k s)"
  "kern_ok H (put_kern k (disk_update h s)) = kern_ok H (put_kern k s)"
  "kern_ok H (put_kern k (dtrace_update d s)) = kern_ok H (put_kern k s)"
  by (simp_all add: kern_frame)

lemma wp_ret_fun [wp_simps]: "wp (ret x) Q = Q x"
  by (rule ext) (simp add: wp_ret)

lemma wp_set_buf [wp_simps]: "wp (set_buf b f) Q s \<longleftrightarrow> Q () (s\<lparr>bufs := (bufs s)(b := f (bufs s b))\<rparr>)"
  by (simp add: set_buf_def buf_upd_def wp_modify)

section \<open>The ring of buffers\<close>

definition linked :: "(nat \<Rightarrow> nat) \<Rightarrow> (nat \<Rightarrow> nat) \<Rightarrow> nat list \<Rightarrow> bool" where
  "linked nx pv = successively (\<lambda>u v. nx u = v \<and> pv v = u)"

lemma linked_simps [simp]:
  "linked nx pv []" "linked nx pv [x]"
  "linked nx pv (x # y # xs) \<longleftrightarrow> nx x = y \<and> pv y = x \<and> linked nx pv (y # xs)"
  by (simp_all add: linked_def)

lemma linked_append:
  "linked nx pv (xs @ ys) \<longleftrightarrow> linked nx pv xs \<and> linked nx pv ys \<and>
    (xs = [] \<or> ys = [] \<or> nx (last xs) = hd ys \<and> pv (hd ys) = last xs)"
  by (simp add: linked_def successively_append_iff)

lemma linked_upd:
  "u \<notin> set (butlast xs) \<Longrightarrow> v \<notin> set (tl xs) \<Longrightarrow> linked (nx(u := a)) (pv(v := b)) xs = linked nx pv xs"
proof (induction xs)
  case (Cons x xs)
  show ?case
  proof (cases xs)
    case (Cons y ys)
    have "v \<notin> set (tl xs)" using Cons.prems(2) Cons by (cases xs) auto
    then show ?thesis using Cons.IH Cons.prems Cons by simp
  qed simp
qed simp

text \<open>Taking a buffer out of the ring and putting one in behind the head.\<close>

lemma linked_unlink:
  assumes "linked nx pv (h # xs @ y # ys @ [h])" "distinct (h # xs @ y # ys)"
  shows "nx y = hd (ys @ [h])" "pv y = last (h # xs)"
    "linked (nx(pv y := nx y)) (pv(nx y := pv y)) (h # xs @ ys @ [h])"
proof -
  have l: "linked nx pv (h # xs)" "linked nx pv (ys @ [h])" "nx y = hd (ys @ [h])" "pv y = last (h # xs)"
    using assms(1) linked_append[of nx pv "h # xs" "y # ys @ [h]"] linked_append[of nx pv "[y]" "ys @ [h]"]
    by auto
  show "nx y = hd (ys @ [h])" "pv y = last (h # xs)" using l by auto
  have d: "distinct (h # xs)" "distinct (ys @ [h])" "set (h # xs) \<inter> set ys = {}" using assms(2) by auto
  have "last (h # xs) \<notin> set (butlast (h # xs))"
    using d(1) by (metis append_butlast_last_id distinct_butlast list.discI not_distinct_conv_prefix)
  moreover have "hd (ys @ [h]) \<notin> set xs" using d by (cases ys) auto
  moreover have "last (h # xs) \<notin> set ys" using d(3) last_in_set[of "h # xs"] by blast
  moreover have "hd (ys @ [h]) \<notin> set (tl (ys @ [h]))" using d(2) by (cases ys) auto
  ultimately have "linked (nx(last (h # xs) := hd (ys @ [h]))) (pv(hd (ys @ [h]) := last (h # xs))) (h # xs)"
    "linked (nx(last (h # xs) := hd (ys @ [h]))) (pv(hd (ys @ [h]) := last (h # xs))) (ys @ [h])"
    using l by (simp_all add: linked_upd del: last.simps butlast.simps)
  then show "linked (nx(pv y := nx y)) (pv(nx y := pv y)) (h # xs @ ys @ [h])"
    using linked_append[of "nx(pv y := nx y)" "pv(nx y := pv y)" "h # xs" "ys @ [h]"] l(3,4) by simp
qed

lemma linked_push:
  assumes "linked nx pv (h # xs @ [h])" "distinct (b # h # xs)"
  shows "linked (nx(b := nx h, h := b)) (pv(b := h, nx h := b)) (h # b # xs @ [h])"
proof -
  let ?f = "hd (xs @ [h])"
  have l: "nx h = ?f" "linked nx pv (xs @ [h])"
    using assms(1) linked_append[of nx pv "[h]" "xs @ [h]"] by auto
  have "?f \<noteq> b" using assms(2) by (cases xs) auto
  moreover have "linked (nx(b := ?f)) (pv(b := h)) (xs @ [h])"
    using assms(2) l by (subst linked_upd) (cases xs, auto simp: butlast_append)+
  then have "linked (nx(b := ?f, h := b)) (pv(b := h, ?f := b)) (xs @ [h])"
    using assms(2) by (subst linked_upd) (cases xs, auto simp: butlast_append)+
  ultimately show ?thesis using l assms(2)
    using linked_append[of "nx(b := nx h, h := b)" "pv(b := h, nx h := b)" "[h, b]" "xs @ [h]"]
    by auto
qed

definition ring :: "(nat \<Rightarrow> buf) \<Rightarrow> nat list \<Rightarrow> bool" where
  "ring B xs \<longleftrightarrow> linked (\<lambda>b. bnext (B b)) (\<lambda>b. bprev (B b)) (bhead # xs @ [bhead]) \<and> distinct xs \<and> set xs = {0..<NBUF}"

lemma ring_cong: "(\<And>b. bnext (B' b) = bnext (B b)) \<Longrightarrow> (\<And>b. bprev (B' b) = bprev (B b)) \<Longrightarrow> ring B' xs = ring B xs"
  by (simp add: ring_def comp_def)

lemma bscan_next:
  assumes "linked (\<lambda>b. bnext (bufs s b)) pv (a # xs @ [bhead])" "bhead \<notin> set xs" "length xs \<le> n"
  shows "bscan n bnext P (bnext (bufs s a)) s = Inr (find (\<lambda>b. P (bufs s b)) xs, s)"
  using assms
proof (induction xs arbitrary: a n)
  case Nil
  then show ?case by (cases n) (auto simp: ret_def)
next
  case (Cons x xs)
  then obtain m where "n = Suc m" by (cases n) auto
  then show ?case using Cons by (auto simp: kmon_defs)
qed

lemma bscan_prev:
  assumes "linked nx (\<lambda>b. bprev (bufs s b)) (bhead # xs @ [a])" "bhead \<notin> set xs" "length xs \<le> n"
  shows "bscan n bprev P (bprev (bufs s a)) s = Inr (find (\<lambda>b. P (bufs s b)) (rev xs), s)"
  using assms
proof (induction xs arbitrary: a n rule: rev_induct)
  case Nil
  then show ?case by (cases n) (auto simp: ret_def)
next
  case (snoc x xs)
  then obtain m where m: "n = Suc m" by (cases n) auto
  have "linked nx (\<lambda>b. bprev (bufs s b)) (bhead # xs @ [x])" "bprev (bufs s a) = x"
    using snoc.prems(1) linked_append[of nx "\<lambda>b. bprev (bufs s b)" "bhead # xs @ [x]" "[a]"] by auto
  then show ?case using snoc m by (auto simp: kmon_defs)
qed

section \<open>The driver\<close>

text \<open>
  With no other request queued, \<^verbatim>\<open>iderw\<close> transfers the buffer in the direction its flags ask for.
\<close>

definition ide_idle :: "'a bst_scheme \<Rightarrow> bool" where
  "ide_idle s \<longleftrightarrow> idequeue s = None \<and> havedisk1 s \<and> \<not> ide_err s"

abbreviation bst_buf :: "nat \<Rightarrow> (buf \<Rightarrow> buf) \<Rightarrow> 'a bst_scheme \<Rightarrow> 'a bst_scheme" where
  "bst_buf b f s \<equiv> s\<lparr>bufs := (bufs s)(b := f (bufs s b))\<rparr>"

lemma wp_ideintr_one:
  assumes k: "kern_ok H s" "IdeLock \<notin> H" "PtableLock \<notin> H"
    and q: "idequeue s = Some b" "qnext (bufs s b) = None" "\<not> ide_err s"
    and Q: "\<And>k. kern_ok H (put_kern k s) \<Longrightarrow> Q () (put_kern k (s\<lparr>idequeue := None, bufs := (bufs s)(b :=
      (if bdirty (bufs s b) then bufs s b else (bufs s b)\<lparr>bdata := disk s (bdev (bufs s b) AND 1) (blockno (bufs s b))\<rparr>)
        \<lparr>bvalid := True, bdirty := False\<rparr>)\<rparr>))"
  shows "wp ideintr Q s"
proof (cases "bdirty (bufs s b)")
  case True
  show ?thesis unfolding ideintr_def wp_kbind
    apply (rule wp_acquire_put[OF k(1,2)])
    apply (simp add: wp_simps idewait_def q True)
    apply (rule wp_wakeup_put[of "insert IdeLock H"], (simp add: k)+)
    apply (simp add: wp_simps)
    apply (rule wp_release_put[of "insert IdeLock H"], (simp add: k)+)
    using Q k True by simp
next
  case False
  show ?thesis unfolding ideintr_def wp_kbind
    apply (rule wp_acquire_put[OF k(1,2)])
    apply (simp add: wp_simps idewait_def q False)
    apply (rule wp_wakeup_put[of "insert IdeLock H"], (simp add: k)+)
    apply (simp add: wp_simps)
    apply (rule wp_release_put[of "insert IdeLock H"], (simp add: k)+)
    using Q k False by simp
qed

lemma iderw_wait_once:
  assumes k: "kern_ok H s" "IdeLock \<in> H" "PtableLock \<notin> H"
    and q: "idequeue s = Some b" "qnext (bufs s b) = None" "\<not> ide_err s"
      "\<not> (bvalid (bufs s b) \<and> \<not> bdirty (bufs s b))"
    and Q: "\<And>k. kern_ok H (put_kern k s) \<Longrightarrow> Q () (put_kern k (s\<lparr>idequeue := None, bufs := (bufs s)(b :=
      (if bdirty (bufs s b) then bufs s b else (bufs s b)\<lparr>bdata := disk s (bdev (bufs s b) AND 1) (blockno (bufs s b))\<rparr>)
        \<lparr>bvalid := True, bdirty := False\<rparr>)\<rparr>))"
  shows "wp (iderw_wait (NBUF + 1) b) Q s"
proof -
  have n: "NBUF + 1 = Suc (Suc 29)" by (simp add: layout)
  show ?thesis unfolding n iderw_wait.simps(2)
    apply (simp add: wp_simps q)
    apply (rule wp_release_put[OF k(1,2)])
    apply (simp add: wp_simps)
    apply (rule wp_ideintr_one[where H = "H - {IdeLock}" and b = b])
          apply (simp_all add: k q)
    apply (intro conjI impI)
     apply (simp_all only: wp_kbind)
     apply (rule_tac [!] wp_acquire_put[of "H - {IdeLock}"])
         apply (simp_all add: wp_simps)
    using Q by (simp_all add: insert_absorb[OF k(2)])
qed

lemma wp_iderw_read:
  assumes k: "kern_ok H s" "IdeLock \<notin> H" "PtableLock \<notin> H" "ide_idle s"
    and r: "bbusy (bufs s b)" "\<not> bvalid (bufs s b)" "\<not> bdirty (bufs s b)" "blockno (bufs s b) < FSSIZE"
    and Q: "\<And>k. kern_ok H (put_kern k s) \<Longrightarrow> Q () (put_kern k (s\<lparr>idequeue := None, bufs := (bufs s)(b :=
      (bufs s b)\<lparr>qnext := None, bdata := disk s (bdev (bufs s b) AND 1) (blockno (bufs s b)),
        bvalid := True, bdirty := False\<rparr>)\<rparr>))"
  shows "wp (iderw b) Q s"
  unfolding iderw_def using k(4) r
  apply (simp add: wp_simps ide_idle_def)
  apply (rule wp_acquire_put[OF k(1,2)])
  apply (simp add: enqueue_req_def wp_simps idestart_def)
  apply (simp add: wp_simps not_le)
  apply (rule iderw_wait_once[of "insert IdeLock H", unfolded Suc_eq_plus1[symmetric]])
  apply (simp_all add: k)
  apply (rule wp_release_put[of "insert IdeLock H"])
    apply (simp_all add: k)
  using Q by simp

lemma wp_iderw_write:
  assumes k: "kern_ok H s" "IdeLock \<notin> H" "PtableLock \<notin> H" "ide_idle s"
    and r: "bbusy (bufs s b)" "bdirty (bufs s b)" "blockno (bufs s b) < FSSIZE"
    and Q: "\<And>k. kern_ok H (put_kern k s) \<Longrightarrow> Q () (put_kern k
      ((disk_put (bdev (bufs s b) AND 1) (blockno (bufs s b)) (bdata (bufs s b)) s)\<lparr>idequeue := None,
        bufs := (bufs s)(b := (bufs s b)\<lparr>qnext := None, bvalid := True, bdirty := False\<rparr>)\<rparr>))"
  shows "wp (iderw b) Q s"
  unfolding iderw_def using k(4) r
  apply (simp add: wp_simps ide_idle_def)
  apply (rule wp_acquire_put[OF k(1,2)])
  apply (simp add: enqueue_req_def wp_simps idestart_def)
  apply (simp add: wp_simps not_le disk_put_def)
  apply (rule iderw_wait_once[of "insert IdeLock H", unfolded Suc_eq_plus1[symmetric]])
  apply (simp_all add: k)
  apply (rule wp_release_put[of "insert IdeLock H"])
    apply (simp_all add: k)
  using Q by (simp add: disk_put_def)

section \<open>The cache and the blocks it stands for\<close>

text \<open>
  \<open>cache V D F s\<close>: the contents of the blocks of the root disk are \<open>V\<close>, the blocks of \<open>D\<close> are pinned
  (dirty), and the busy buffers are those of \<open>F\<close>, which gives for a block the buffer that holds it.
  No block is in two buffers; a block that is neither pinned nor busy is the same on the disk.
\<close>

definition cached :: "'a bst_scheme \<Rightarrow> nat \<Rightarrow> uint \<Rightarrow> bool" where
  "cached s i n \<longleftrightarrow> i < NBUF \<and> bdev (bufs s i) = ROOTDEV \<and> blockno (bufs s i) = n"

definition slot_ok :: "(uint \<Rightarrow> uchar list) \<Rightarrow> uint set \<Rightarrow> (uint \<Rightarrow> nat option) \<Rightarrow> nat \<Rightarrow> buf \<Rightarrow> bool" where
  "slot_ok V D F i r \<longleftrightarrow>
    (bdev r = - 1 \<and> \<not> bbusy r \<and> \<not> bdirty r) \<or>
    (bdev r = ROOTDEV \<and> bvalid r \<and> bdata r = V (blockno r) \<and> (bdirty r \<longleftrightarrow> blockno r \<in> D) \<and>
      (bbusy r \<longleftrightarrow> F (blockno r) = Some i))"

definition cache :: "(uint \<Rightarrow> uchar list) \<Rightarrow> uint set \<Rightarrow> (uint \<Rightarrow> nat option) \<Rightarrow> 'a bst_scheme \<Rightarrow> bool" where
  "cache V D F s \<longleftrightarrow> ide_idle s \<and> (\<exists>xs. ring (bufs s) xs) \<and>
    (\<forall>i < NBUF. slot_ok V D F i (bufs s i)) \<and>
    (\<forall>i j n. cached s i n \<and> cached s j n \<longrightarrow> i = j) \<and>
    (\<forall>n \<in> D. \<exists>i. cached s i n) \<and> (\<forall>n i. F n = Some i \<longrightarrow> cached s i n) \<and>
    (\<forall>n. n \<notin> D \<and> F n = None \<longrightarrow> V n = disk s ROOTDEV n)"

lemma cached_bst [simp]:
  "cached (put_kern k s) = cached s" "cached (idequeue_update g s) = cached s"
  "cached (disk_update h s) = cached s" "cached (dtrace_update d s) = cached s"
  by (simp_all add: cached_def fun_eq_iff)

lemma cache_put_kern [simp]: "cache V D F (put_kern k s) = cache V D F s"
  by (simp add: cache_def ide_idle_def)

lemma slot_okD:
  assumes "slot_ok V D F i r" "bdev r = ROOTDEV"
  shows "bvalid r" "bdata r = V (blockno r)" "bdirty r \<longleftrightarrow> blockno r \<in> D"
    "bbusy r \<longleftrightarrow> F (blockno r) = Some i"
  using assms by (auto simp: slot_ok_def ROOTDEV_def)

text \<open>A buffer to recycle exists as long as pinned, busy and wanted blocks are at most \<open>NBUF\<close>.\<close>

definition room :: "uint set \<Rightarrow> (uint \<Rightarrow> nat option) \<Rightarrow> uint \<Rightarrow> bool" where
  "room D F n \<longleftrightarrow> card (insert n (D \<union> dom F)) \<le> NBUF"

lemma cache_finite:
  assumes "cache V D F s"
  shows "finite (D \<union> dom F)" "D \<union> dom F \<subseteq> blockno ` bufs s ` {0..<NBUF}"
proof -
  show *: "D \<union> dom F \<subseteq> blockno ` bufs s ` {0..<NBUF}"
  proof
    fix n assume "n \<in> D \<union> dom F"
    then obtain i where "cached s i n" using assms unfolding cache_def by blast
    then show "n \<in> blockno ` bufs s ` {0..<NBUF}" by (auto simp: cached_def)
  qed
  show "finite (D \<union> dom F)" by (rule finite_subset[OF *]) auto
qed

lemma free_buffer:
  assumes c: "cache V D F s" and room: "room D F n" and n: "\<And>i. \<not> cached s i n"
  shows "\<exists>i < NBUF. \<not> bbusy (bufs s i) \<and> \<not> bdirty (bufs s i)"
proof (rule ccontr)
  assume none: "\<not> ?thesis"
  have s: "\<And>i. i < NBUF \<Longrightarrow> slot_ok V D F i (bufs s i)"
    and u: "\<And>i j n. cached s i n \<Longrightarrow> cached s j n \<Longrightarrow> i = j"
    using c by (auto simp: cache_def)
  have root: "bdev (bufs s i) = ROOTDEV" if "i < NBUF" for i
    using none s[OF that] that by (auto simp: slot_ok_def)
  let ?f = "\<lambda>i. blockno (bufs s i)"
  have "inj_on ?f {0..<NBUF}" using u root by (auto simp: inj_on_def cached_def)
  then have "card (?f ` {0..<NBUF}) = NBUF" by (simp add: card_image)
  moreover have "?f i \<in> D \<union> dom F" if "i < NBUF" for i
    using slot_okD(3,4)[OF s[OF that] root[OF that]] none that by auto
  then have "?f ` {0..<NBUF} \<subseteq> D \<union> dom F" by (simp add: image_subset_iff)
  moreover have "n \<noteq> ?f i" if "i < NBUF" for i using n[of i] root[OF that] that by (auto simp: cached_def)
  then have "n \<notin> ?f ` {0..<NBUF}" by (simp add: image_iff)
  moreover have "finite (insert n (D \<union> dom F))" using cache_finite(1)[OF c] by simp
  ultimately have "card (insert n (?f ` {0..<NBUF})) \<le> NBUF"
    using room card_mono[of "insert n (D \<union> dom F)" "insert n (?f ` {0..<NBUF})"] by (auto simp: room_def)
  then show False using \<open>card _ = NBUF\<close> \<open>n \<notin> _\<close> by simp
qed

lemma find_bufs:
  assumes "ring (bufs s) xs"
  shows "find P xs = None \<longleftrightarrow> (\<forall>i < NBUF. \<not> P i)" "find P xs = Some i \<Longrightarrow> i < NBUF \<and> P i"
    "find P (rev xs) = None \<longleftrightarrow> (\<forall>i < NBUF. \<not> P i)" "find P (rev xs) = Some i \<Longrightarrow> i < NBUF \<and> P i"
proof -
  have s: "set xs = {0..<NBUF}" using assms by (simp add: ring_def)
  have f: "find P ys = Some i \<Longrightarrow> i \<in> set ys \<and> P i" for ys by (auto simp: find_Some_iff)
  show "find P xs = None \<longleftrightarrow> (\<forall>i < NBUF. \<not> P i)" "find P (rev xs) = None \<longleftrightarrow> (\<forall>i < NBUF. \<not> P i)"
    using s by (auto simp: find_None_iff)
  show "find P xs = Some i \<Longrightarrow> i < NBUF \<and> P i" "find P (rev xs) = Some i \<Longrightarrow> i < NBUF \<and> P i"
    using f[of xs] f[of "rev xs"] s by auto
qed

lemma ring_scans:
  assumes "ring (bufs s) xs"
  shows "bscan NBUF bnext P (bnext (bufs s bhead)) s = Inr (find (\<lambda>b. P (bufs s b)) xs, s)"
    "bscan NBUF bprev P (bprev (bufs s bhead)) s = Inr (find (\<lambda>b. P (bufs s b)) (rev xs), s)"
proof -
  have "length xs = NBUF" "bhead \<notin> set xs"
    using assms distinct_card[of xs] by (auto simp: ring_def)
  then show "bscan NBUF bnext P (bnext (bufs s bhead)) s = Inr (find (\<lambda>b. P (bufs s b)) xs, s)"
    "bscan NBUF bprev P (bprev (bufs s bhead)) s = Inr (find (\<lambda>b. P (bufs s b)) (rev xs), s)"
    using assms by (auto simp: ring_def intro!: bscan_next bscan_prev)
qed

section \<open>Rules for the operations\<close>

abbreviation links_same :: "(nat \<Rightarrow> buf) \<Rightarrow> (nat \<Rightarrow> buf) \<Rightarrow> bool" where
  "links_same B' B \<equiv> \<forall>b. bnext (B' b) = bnext (B b) \<and> bprev (B' b) = bprev (B b)"

lemma cacheD:
  assumes "cache V D F s" "F n = Some b"
  shows "b < NBUF" "bdev (bufs s b) = ROOTDEV" "blockno (bufs s b) = n" "bvalid (bufs s b)"
    "bdata (bufs s b) = V n" "bdirty (bufs s b) \<longleftrightarrow> n \<in> D" "bbusy (bufs s b)"
proof -
  have c: "cached s b n" using assms by (auto simp: cache_def)
  then show r: "b < NBUF" "bdev (bufs s b) = ROOTDEV" "blockno (bufs s b) = n" by (auto simp: cached_def)
  have "slot_ok V D F b (bufs s b)" using assms(1) r(1) by (auto simp: cache_def)
  from slot_okD[OF this r(2)] r(3) assms(2)
  show "bvalid (bufs s b)" "bdata (bufs s b) = V n" "bdirty (bufs s b) \<longleftrightarrow> n \<in> D" "bbusy (bufs s b)" by auto
qed

lemma cache_set:
  assumes c: "cache V D F s" and b: "F n = Some b"
    and r: "bdev r = ROOTDEV" "blockno r = n" "bvalid r" "bdata r = V' n" "bdirty r \<longleftrightarrow> n \<in> D'" "bbusy r"
      "bnext r = bnext (bufs s b)" "bprev r = bprev (bufs s b)"
    and V: "\<And>m. m \<noteq> n \<Longrightarrow> V' m = V m" and D: "\<And>m. m \<noteq> n \<Longrightarrow> m \<in> D' \<longleftrightarrow> m \<in> D"
  shows "cache V' D' F (s\<lparr>bufs := (bufs s)(b := r)\<rparr>)"
proof -
  note d = cacheD[OF c b]
  have u: "\<And>i j n. cached s i n \<Longrightarrow> cached s j n \<Longrightarrow> i = j" using c by (auto simp: cache_def)
  have bn: "cached s b n" using d by (simp add: cached_def)
  have ca: "cached (s\<lparr>bufs := (bufs s)(b := r)\<rparr>) = cached s"
    using r d by (auto simp: cached_def fun_eq_iff)
  obtain xs where "ring (bufs s) xs" using c by (auto simp: cache_def)
  then have ring: "ring ((bufs s)(b := r)) xs" by (subst ring_cong) (auto simp: r)
  have sl: "slot_ok V' D' F i (((bufs s)(b := r)) i)" if i: "i < NBUF" for i
  proof (cases "i = b")
    case True
    then show ?thesis using r b by (simp add: slot_ok_def)
  next
    case False
    have "slot_ok V D F i (bufs s i)" using c i by (simp add: cache_def)
    moreover have "bdev (bufs s i) = ROOTDEV \<Longrightarrow> blockno (bufs s i) \<noteq> n"
      using u[of i n b] bn i False by (auto simp: cached_def)
    ultimately show ?thesis using False V D by (auto simp: slot_ok_def)
  qed
  have dk: "V' m = disk s ROOTDEV m" if "m \<notin> D'" "F m = None" for m
    using c that b V[of m] D[of m] by (cases "m = n") (auto simp: cache_def)
  have dc: "\<exists>i. cached s i m" if "m \<in> D'" for m
    using c that D[of m] bn by (cases "m = n") (auto simp: cache_def)
  show ?thesis
    using c ring sl dk dc unfolding cache_def ca by (auto simp: ide_idle_def)
qed

lemma cache_data:
  assumes "cache V D F s" "F n = Some b"
  shows "cache (V(n := d)) D F (s\<lparr>bufs := (bufs s)(b := (bufs s b)\<lparr>bdata := d\<rparr>)\<rparr>)"
  by (rule cache_set[OF assms]) (use cacheD[OF assms] in auto)

lemma cache_dirty:
  assumes "cache V D F s" "F n = Some b"
  shows "cache V (insert n D) F (s\<lparr>bufs := (bufs s)(b := (bufs s b)\<lparr>bdirty := True\<rparr>)\<rparr>)"
  by (rule cache_set[OF assms]) (use cacheD[OF assms] in auto)

lemma cache_idle: "cache V D F s \<Longrightarrow> ide_idle s"
  by (simp add: cache_def)

lemma idequeue_None [simp]: "ide_idle s \<Longrightarrow> s\<lparr>idequeue := None\<rparr> = s"
  by (cases s) (simp add: ide_idle_def)

lemma cache_disk_put:
  assumes "cache V D F s" "F n = Some b"
  shows "cache V D F (disk_put ROOTDEV n (V n) s)"
  using assms unfolding cache_def disk_put_def by (simp add: ide_idle_def)

lemma wp_bwrite:
  assumes k: "kern_ok H s" "IdeLock \<notin> H" "PtableLock \<notin> H"
    and c: "cache V D F s" "F n = Some b" "n < FSSIZE"
    and Q: "\<And>k B. kern_ok H (put_kern k s) \<Longrightarrow> cache V (D - {n}) F (disk_put ROOTDEV n (V n) (s\<lparr>bufs := B\<rparr>)) \<Longrightarrow>
      Q () (put_kern k (disk_put ROOTDEV n (V n) (s\<lparr>bufs := B\<rparr>)))"
  shows "wp (bwrite b) Q s"
proof -
  note d = cacheD[OF c(1,2)]
  define B where "B = (bufs s)(b := (bufs s b)\<lparr>qnext := None, bvalid := True, bdirty := False\<rparr>)"
  have "cache V (D - {n}) F (s\<lparr>bufs := B\<rparr>)"
    unfolding B_def by (rule cache_set[OF c(1,2)]) (use d in auto)
  then have q: "kern_ok H (put_kern k s) \<Longrightarrow> Q () (put_kern k (disk_put ROOTDEV n (V n) (s\<lparr>bufs := B\<rparr>)))" for k
    using Q cache_disk_put c(2) by blast
  let ?s = "s\<lparr>bufs := (bufs s)(b := (bufs s b)\<lparr>bdirty := True\<rparr>)\<rparr>"
  have i: "ide_idle ?s" using cache_idle[OF c(1)] by (simp add: ide_idle_def)
  have st: "(disk_put ROOTDEV n (V n) ?s)\<lparr>idequeue := None, bufs := B\<rparr> = disk_put ROOTDEV n (V n) (s\<lparr>bufs := B\<rparr>)"
    using cache_idle[OF c(1)] by (cases s) (simp add: ide_idle_def disk_put_def)
  have "wp (iderw b) Q ?s"
  proof (rule wp_iderw_write[OF _ k(2,3) i])
    fix k assume "kern_ok H (put_kern k ?s)"
    then have "Q () (put_kern k (disk_put ROOTDEV n (V n) (s\<lparr>bufs := B\<rparr>)))" using q by simp
    moreover have "ROOTDEV AND 1 = ROOTDEV" by (simp add: ROOTDEV_def)
    moreover have "(bufs s)(b := (bufs s b)\<lparr>qnext := None, bvalid := True, bdirty := False\<rparr>) = B" by (simp add: B_def)
    ultimately show "Q () (put_kern k ((disk_put (bdev (bufs ?s b) AND 1) (blockno (bufs ?s b)) (bdata (bufs ?s b)) ?s)
      \<lparr>idequeue := None, bufs := (bufs ?s)(b := (bufs ?s b)\<lparr>qnext := None, bvalid := True, bdirty := False\<rparr>)\<rparr>))"
      using st d by simp
  qed (use k d c in simp_all)
  then show ?thesis using d(7) by (simp add: bwrite_def wp_simps)
qed

lemma wp_bscans:
  assumes "ring (bufs s) xs"
  shows "wp (bscan NBUF bnext P (bnext (bufs s bhead))) Q (put_kern k s) =
      Q (find (\<lambda>b. P (bufs s b)) xs) (put_kern k s)"
    "wp (bscan NBUF bprev P (bprev (bufs s bhead))) Q (put_kern k s) =
      Q (find (\<lambda>b. P (bufs s b)) (rev xs)) (put_kern k s)"
  using ring_scans[of "put_kern k s" xs P] assms by (simp_all add: wp_def)

lemma wp_bget_hit:
  assumes k: "kern_ok H s" "BcacheLock \<notin> H" and r: "ring (bufs s) xs"
    and f: "find (\<lambda>i. bdev (bufs s i) = dev \<and> blockno (bufs s i) = n) xs = Some b" "\<not> bbusy (bufs s b)"
    and Q: "\<And>k. kern_ok H (put_kern k s) \<Longrightarrow>
      Q b (put_kern k (s\<lparr>bufs := (bufs s)(b := (bufs s b)\<lparr>bbusy := True\<rparr>)\<rparr>))"
  shows "wp (bget dev n) Q s"
  unfolding bget_def wp_kbind
  apply (rule wp_acquire_put[OF k])
  apply (simp add: wp_gets wp_bscans[OF r] f wp_simps)
  apply (rule wp_release_put[of "insert BcacheLock H"])
  using k(2) Q by (simp_all add: wp_ret)

lemma wp_bget_miss:
  assumes k: "kern_ok H s" "BcacheLock \<notin> H" and r: "ring (bufs s) xs"
    and f: "find (\<lambda>i. bdev (bufs s i) = dev \<and> blockno (bufs s i) = n) xs = None"
      "find (\<lambda>i. \<not> bbusy (bufs s i) \<and> \<not> bdirty (bufs s i)) (rev xs) = Some b"
    and Q: "\<And>k. kern_ok H (put_kern k s) \<Longrightarrow>
      Q b (put_kern k (s\<lparr>bufs := (bufs s)(b := (bufs s b)\<lparr>bdev := dev, blockno := n, bbusy := True,
        bvalid := False, bdirty := False\<rparr>)\<rparr>))"
  shows "wp (bget dev n) Q s"
  unfolding bget_def wp_kbind
  apply (rule wp_acquire_put[OF k])
  apply (simp add: wp_gets wp_bscans[OF r] f wp_simps)
  apply (rule wp_release_put[of "insert BcacheLock H"])
  using k(2) Q by (simp_all add: wp_ret)

lemma cache_hit:
  assumes c: "cache V D F s" and b: "cached s b n" and n: "F n = None"
  shows "cache V D (F(n \<mapsto> b)) (s\<lparr>bufs := (bufs s)(b := (bufs s b)\<lparr>bbusy := True\<rparr>)\<rparr>)"
proof -
  let ?s = "s\<lparr>bufs := (bufs s)(b := (bufs s b)\<lparr>bbusy := True\<rparr>)\<rparr>"
  have ca: "cached ?s = cached s" by (auto simp: cached_def fun_eq_iff)
  obtain xs where "ring (bufs s) xs" using c by (auto simp: cache_def)
  then have ring: "ring (bufs ?s) xs" by (subst ring_cong[of _ "bufs s"]) auto
  have u: "\<And>i j n. cached s i n \<Longrightarrow> cached s j n \<Longrightarrow> i = j" using c by (auto simp: cache_def)
  have "slot_ok V D (F(n \<mapsto> b)) i (bufs ?s i)" if i: "i < NBUF" for i
  proof (cases "i = b")
    case True
    have "slot_ok V D F b (bufs s b)" using c i True by (simp add: cache_def)
    then show ?thesis using b True by (auto simp: slot_ok_def cached_def ROOTDEV_def)
  next
    case False
    have "slot_ok V D F i (bufs s i)" using c i by (simp add: cache_def)
    moreover have "bdev (bufs s i) = ROOTDEV \<Longrightarrow> blockno (bufs s i) \<noteq> n"
      using u[of i n b] b i False by (auto simp: cached_def)
    ultimately show ?thesis using False by (auto simp: slot_ok_def)
  qed
  then show ?thesis using c ring b unfolding cache_def ca by (auto simp: ide_idle_def split: if_splits)
qed

lemma cache_fill:
  assumes c: "cache V D F s" and b: "b < NBUF" "\<not> bbusy (bufs s b)" "\<not> bdirty (bufs s b)"
    and n: "F n = None" "\<And>i. \<not> cached s i n"
    and r: "bdev r = ROOTDEV" "blockno r = n" "bvalid r" "bdata r = disk s ROOTDEV n" "\<not> bdirty r" "bbusy r"
      "bnext r = bnext (bufs s b)" "bprev r = bprev (bufs s b)"
  shows "cache V D (F(n \<mapsto> b)) (s\<lparr>bufs := (bufs s)(b := r)\<rparr>)"
proof -
  let ?s = "s\<lparr>bufs := (bufs s)(b := r)\<rparr>"
  have sl: "slot_ok V D F i (bufs s i)" if "i < NBUF" for i using c that by (simp add: cache_def)
  have u: "\<And>i m j. cached s i m \<Longrightarrow> cached s j m \<Longrightarrow> i = j" using c by (auto simp: cache_def)
  have nD: "n \<notin> D" using c n(2) by (auto simp: cache_def)
  have old: "bdev (bufs s b) = ROOTDEV \<Longrightarrow> blockno (bufs s b) \<notin> D \<and> (\<forall>i. F (blockno (bufs s b)) \<noteq> Some i)"
  proof -
    assume d: "bdev (bufs s b) = ROOTDEV"
    have "F (blockno (bufs s b)) = Some i \<Longrightarrow> i = b" for i
    proof -
      assume "F (blockno (bufs s b)) = Some i"
      then have "cached s i (blockno (bufs s b))" using c by (auto simp: cache_def)
      moreover have "cached s b (blockno (bufs s b))" using b d by (simp add: cached_def)
      ultimately show "i = b" using c unfolding cache_def by blast
    qed
    then show ?thesis using slot_okD[OF sl[OF b(1)] d] b by (cases "F (blockno (bufs s b))") auto
  qed
  obtain xs where "ring (bufs s) xs" using c by (auto simp: cache_def)
  then have ring: "ring (bufs ?s) xs" by (subst ring_cong[of _ "bufs s"]) (auto simp: r)
  have ca: "cached ?s i m \<longleftrightarrow> (if i = b then m = n else cached s i m)" for i m
    using b r by (auto simp: cached_def)
  have "slot_ok V D (F(n \<mapsto> b)) i (bufs ?s i)" if i: "i < NBUF" for i
  proof (cases "i = b")
    case True
    then show ?thesis using r nD n(1) c by (auto simp: slot_ok_def cache_def)
  next
    case False
    then show ?thesis using sl[OF i] n(2)[of i] i by (auto simp: slot_ok_def cached_def)
  qed
  moreover have "\<exists>i. cached ?s i m" if m: "m \<in> D" for m
  proof -
    obtain i where i: "cached s i m" using c m by (auto simp: cache_def)
    then have "i \<noteq> b" using old m by (auto simp: cached_def)
    then show ?thesis using i ca[of i m] by auto
  qed
  moreover have "cached ?s i m" if "(F(n \<mapsto> b)) m = Some i" for m i
  proof (cases "m = n")
    case False
    then have "cached s i m" "F m = Some i" using c that by (auto simp: cache_def)
    moreover from this have "i \<noteq> b" using old by (auto simp: cached_def)
    ultimately show ?thesis using ca by auto
  qed (use that ca in simp)
  moreover have "i = j" if "cached ?s i m" "cached ?s j m" for i j m
    using that u[of i m j] n(2) unfolding ca by (auto split: if_splits)
  moreover have "V m = disk ?s ROOTDEV m" if "m \<notin> D" "(F(n \<mapsto> b)) m = None" for m
    using that c by (auto simp: cache_def split: if_splits)
  moreover have "ide_idle ?s" using cache_idle[OF c] by (simp add: ide_idle_def)
  ultimately show ?thesis using ring unfolding cache_def by blast
qed

lemma wp_bread:
  assumes k: "kern_ok H s" "BcacheLock \<notin> H" "IdeLock \<notin> H" "PtableLock \<notin> H"
    and c: "cache V D F s" "F n = None" "room D F n" "n < FSSIZE"
    and Q: "\<And>k b B. kern_ok H (put_kern k s) \<Longrightarrow> cache V D (F(n \<mapsto> b)) (s\<lparr>bufs := B\<rparr>) \<Longrightarrow>
      Q b (put_kern k (s\<lparr>bufs := B\<rparr>))"
  shows "wp (bread ROOTDEV n) Q s"
proof -
  obtain xs where r: "ring (bufs s) xs" using c(1) by (auto simp: cache_def)
  let ?hit = "find (\<lambda>i. bdev (bufs s i) = ROOTDEV \<and> blockno (bufs s i) = n) xs"
  have i: "ide_idle s" using c(1) by (rule cache_idle)
  show ?thesis
  proof (cases ?hit)
    case (Some b)
    then have b: "cached s b n" using find_bufs(2)[OF r] by (auto simp: cached_def)
    then have sl: "slot_ok V D F b (bufs s b)" using c(1) by (auto simp: cache_def cached_def)
    have v: "bvalid (bufs s b)" "\<not> bbusy (bufs s b)" using slot_okD[OF sl] b c(2) by (auto simp: cached_def)
    have "wp (bget ROOTDEV n) (\<lambda>b. wp (kbind (get_buf b) (\<lambda>r. kseq (kwhen (\<not> bvalid r) (iderw b)) (ret b))) Q) s"
      by (rule wp_bget_hit[OF k(1,2) r Some v(2)])
        (use Q cache_hit[OF c(1) b c(2)] v in \<open>simp add: wp_simps\<close>)
    then show ?thesis by (simp add: bread_def wp_kbind)
  next
    case None
    then have nc: "\<not> cached s i n" for i using find_bufs(1)[OF r] by (auto simp: cached_def)
    obtain b where f: "find (\<lambda>i. \<not> bbusy (bufs s i) \<and> \<not> bdirty (bufs s i)) (rev xs) = Some b"
      using free_buffer[OF c(1,3) nc] find_bufs(3)[OF r, of "\<lambda>i. \<not> bbusy (bufs s i) \<and> \<not> bdirty (bufs s i)"]
      by (cases "find (\<lambda>i. \<not> bbusy (bufs s i) \<and> \<not> bdirty (bufs s i)) (rev xs)") auto
    have b: "b < NBUF" "\<not> bbusy (bufs s b)" "\<not> bdirty (bufs s b)" using find_bufs(4)[OF r f] by auto
    define r1 where "r1 = (bufs s b)\<lparr>bdev := ROOTDEV, blockno := n, bbusy := True, bvalid := False, bdirty := False\<rparr>"
    define r2 where "r2 = r1\<lparr>qnext := None, bdata := disk s ROOTDEV n, bvalid := True, bdirty := False\<rparr>"
    have c2: "cache V D (F(n \<mapsto> b)) (s\<lparr>bufs := (bufs s)(b := r2)\<rparr>)"
      by (rule cache_fill[OF c(1) b c(2) nc]) (simp_all add: r2_def r1_def)
    have st: "s\<lparr>bufs := B, idequeue := None, bufs := B'\<rparr> = s\<lparr>bufs := B'\<rparr>" for B B'
      using i by (cases s) (simp add: ide_idle_def)
    have rd: "wp (iderw b) (\<lambda>_. Q b) (put_kern k (s\<lparr>bufs := (bufs s)(b := r1)\<rparr>))"
      if k': "kern_ok H (put_kern k s)" for k
    proof (rule wp_iderw_read[OF _ k(3,4)])
      fix k'
      assume "kern_ok H (put_kern k' (put_kern k (s\<lparr>bufs := (bufs s)(b := r1)\<rparr>)))"
      then have "Q b (put_kern k' (s\<lparr>bufs := (bufs s)(b := r2)\<rparr>))" using Q c2 by simp
      moreover have "ROOTDEV AND 1 = ROOTDEV" by (simp add: ROOTDEV_def)
      moreover have "bdev r1 = ROOTDEV" "blockno r1 = n" by (simp_all add: r1_def)
      ultimately show "Q b (put_kern k' ((put_kern k (s\<lparr>bufs := (bufs s)(b := r1)\<rparr>))\<lparr>idequeue := None,
        bufs := (bufs (put_kern k (s\<lparr>bufs := (bufs s)(b := r1)\<rparr>)))(b := (bufs (put_kern k (s\<lparr>bufs := (bufs s)(b := r1)\<rparr>)) b)
          \<lparr>qnext := None, bdata := disk (put_kern k (s\<lparr>bufs := (bufs s)(b := r1)\<rparr>))
            (bdev (bufs (put_kern k (s\<lparr>bufs := (bufs s)(b := r1)\<rparr>)) b) AND 1)
            (blockno (bufs (put_kern k (s\<lparr>bufs := (bufs s)(b := r1)\<rparr>)) b)), bvalid := True, bdirty := False\<rparr>)\<rparr>))"
        using st by (simp add: r2_def)
    qed (use k' i c(4) in \<open>simp_all add: r1_def ide_idle_def\<close>)
    have "wp (bget ROOTDEV n) (\<lambda>b. wp (kbind (get_buf b) (\<lambda>r. kseq (kwhen (\<not> bvalid r) (iderw b)) (ret b))) Q) s"
      by (rule wp_bget_miss[OF k(1,2) r None f])
        (use rd in \<open>simp add: wp_simps r1_def\<close>)
    then show ?thesis by (simp add: bread_def wp_kbind)
  qed
qed

definition unlink_buf :: "nat \<Rightarrow> (nat \<Rightarrow> buf) \<Rightarrow> (nat \<Rightarrow> buf)" where
  "unlink_buf b B =
    (let r = B b; B1 = B(bnext r := (B (bnext r))\<lparr>bprev := bprev r\<rparr>)
     in B1(bprev (B1 b) := (B1 (bprev (B1 b)))\<lparr>bnext := bnext (B1 b)\<rparr>))"

definition push_buf :: "nat \<Rightarrow> (nat \<Rightarrow> buf) \<Rightarrow> (nat \<Rightarrow> buf)" where
  "push_buf b B =
    (let B0 = B(b := (B b)\<lparr>bnext := bnext (B bhead)\<rparr>);
         B1 = B0(b := (B0 b)\<lparr>bprev := bhead\<rparr>);
         B2 = B1(bnext (B1 bhead) := (B1 (bnext (B1 bhead)))\<lparr>bprev := b\<rparr>)
     in B2(bhead := (B2 bhead)\<lparr>bnext := b\<rparr>))"

lemma ring_front:
  assumes "ring B xs" "b < NBUF"
  shows "ring (push_buf b (unlink_buf b B)) (b # remove1 b xs)"
proof -
  let ?nx = "\<lambda>b. bnext (B b)" and ?pv = "\<lambda>b. bprev (B b)"
  obtain us vs where xs: "xs = us @ b # vs" "b \<notin> set us"
    using assms by (metis atLeastLessThan_iff ring_def split_list_first zero_le)
  have d: "distinct (bhead # us @ b # vs)" and l: "linked ?nx ?pv (bhead # us @ b # vs @ [bhead])"
    using assms xs by (auto simp: ring_def)
  note un = linked_unlink[OF l d]
  have nb: "bnext (B b) \<noteq> b" "bprev (B b) \<noteq> b"
    using un(1,2) d last_in_set[of "bhead # us"] by (cases vs; auto)+
  have B1: "(\<lambda>i. bnext (unlink_buf b B i)) = ?nx(?pv b := ?nx b)"
    "(\<lambda>i. bprev (unlink_buf b B i)) = ?pv(?nx b := ?pv b)"
    using nb by (auto simp: unlink_buf_def Let_def fun_eq_iff)
  let ?nx1 = "?nx(?pv b := ?nx b)" and ?pv1 = "?pv(?nx b := ?pv b)"
  have l1: "linked ?nx1 ?pv1 (bhead # (us @ vs) @ [bhead])" using un(3) by simp
  have d1: "distinct (b # bhead # us @ vs)" using d by auto
  have f: "?nx1 bhead \<noteq> b"
    using l1 d1 linked_append[of ?nx1 ?pv1 "[bhead]" "(us @ vs) @ [bhead]"] by (cases "us @ vs") auto
  have hb: "bhead \<noteq> b" using assms by simp
  have B2: "(\<lambda>i. bnext (push_buf b C i)) = (\<lambda>i. bnext (C i))(b := bnext (C bhead), bhead := b)"
    "(\<lambda>i. bprev (push_buf b C i)) = (\<lambda>i. bprev (C i))(b := bhead, bnext (C bhead) := b)"
    if "bnext (C bhead) \<noteq> b" for C :: "nat \<Rightarrow> buf"
    using that hb by (auto simp: push_buf_def Let_def fun_eq_iff)
  have f': "bnext (unlink_buf b B bhead) = ?nx1 bhead" using fun_cong[OF B1(1), of bhead] by simp
  have "linked (\<lambda>i. bnext (push_buf b (unlink_buf b B) i)) (\<lambda>i. bprev (push_buf b (unlink_buf b B) i))
      (bhead # b # (us @ vs) @ [bhead])"
    using linked_push[OF l1 d1] B2[of "unlink_buf b B"] f unfolding f' B1 by simp
  moreover have "remove1 b xs = us @ vs" using xs by (simp add: remove1_append)
  moreover have "distinct (b # us @ vs)" "set (b # us @ vs) = {0..<NBUF}" using assms(1) xs d by (auto simp: ring_def)
  ultimately show ?thesis by (simp add: ring_def)
qed

lemma relink_core_gen:
  assumes g: "\<And>r v. g (r\<lparr>bprev := v\<rparr>) = g r" "\<And>r v. g (r\<lparr>bnext := v\<rparr>) = g r"
  shows "g (push_buf b (unlink_buf b B) i) = g (B i)"
proof -
  have u: "g ((C(x := (C x)\<lparr>bprev := v\<rparr>)) i) = g (C i)" "g ((C(x := (C x)\<lparr>bnext := v\<rparr>)) i) = g (C i)"
    for C :: "nat \<Rightarrow> buf" and x v i using g by auto
  show ?thesis by (simp only: push_buf_def unlink_buf_def Let_def u)
qed

lemma relink_core:
  "bbusy (push_buf b (unlink_buf b B) i) = bbusy (B i)" "bvalid (push_buf b (unlink_buf b B) i) = bvalid (B i)"
  "bdirty (push_buf b (unlink_buf b B) i) = bdirty (B i)" "bdev (push_buf b (unlink_buf b B) i) = bdev (B i)"
  "blockno (push_buf b (unlink_buf b B) i) = blockno (B i)" "bdata (push_buf b (unlink_buf b B) i) = bdata (B i)"
  by (rule relink_core_gen; simp)+

lemma cache_release:
  assumes c: "cache V D F s" and b: "F n = Some b" and n: "n \<in> D \<or> V n = disk s ROOTDEV n"
    and B: "B = push_buf b (unlink_buf b (bufs s))"
  shows "cache V D (F(n := None)) (s\<lparr>bufs := B(b := (B b)\<lparr>bbusy := False\<rparr>)\<rparr>)"
proof -
  let ?s = "s\<lparr>bufs := B(b := (B b)\<lparr>bbusy := False\<rparr>)\<rparr>"
  note d = cacheD[OF c b]
  have ca: "cached ?s = cached s" by (auto simp: cached_def fun_eq_iff B relink_core)
  obtain xs where "ring (bufs s) xs" using c by (auto simp: cache_def)
  then have "ring B (b # remove1 b xs)" unfolding B using d(1) by (rule ring_front)
  then have ring: "ring (bufs ?s) (b # remove1 b xs)" by (subst ring_cong[of _ B]) auto
  have u: "\<And>i j n. cached s i n \<Longrightarrow> cached s j n \<Longrightarrow> i = j" using c by (auto simp: cache_def)
  have "slot_ok V D (F(n := None)) i (bufs ?s i)" if i: "i < NBUF" for i
  proof (cases "i = b")
    case True
    then show ?thesis using d by (simp add: slot_ok_def B relink_core)
  next
    case False
    have "slot_ok V D F i (bufs s i)" using c i by (simp add: cache_def)
    moreover have "bdev (bufs s i) = ROOTDEV \<Longrightarrow> blockno (bufs s i) \<noteq> n"
      using u[of i n b] d i False by (auto simp: cached_def)
    ultimately show ?thesis using False by (auto simp: slot_ok_def B relink_core)
  qed
  then show ?thesis using c ring n unfolding cache_def ca by (auto simp: ide_idle_def split: if_splits)
qed

lemma wp_bufs:
  "wp (set_buf b f) R (put_kern k (s\<lparr>bufs := B\<rparr>)) = R () (put_kern k (s\<lparr>bufs := B(b := f (B b))\<rparr>))"
  "wp (get_buf b) R' (put_kern k (s\<lparr>bufs := B\<rparr>)) = R' (B b) (put_kern k (s\<lparr>bufs := B\<rparr>))"
  by (simp_all add: wp_simps)

lemma wp_brelse_raw:
  fixes s :: "'a bst_scheme"
  assumes k: "kern_ok H s" "BcacheLock \<notin> H" "PtableLock \<notin> H" and b: "bbusy (bufs s b)"
  defines "B \<equiv> push_buf b (unlink_buf b (bufs s))"
  assumes Q: "\<And>k. kern_ok H (put_kern k s) \<Longrightarrow> Q () (put_kern k (s\<lparr>bufs := B(b := (B b)\<lparr>bbusy := False\<rparr>)\<rparr>))"
  shows "wp (brelse b) Q s"
proof -
  have run: "wp (kseq (set_buf (bnext (bufs s b)) (\<lambda>n. n\<lparr>bprev := bprev (bufs s b)\<rparr>)) (
      kbind (get_buf b) (\<lambda>r.
      kseq (set_buf (bprev r) (\<lambda>p. p\<lparr>bnext := bnext r\<rparr>)) (
      kbind (get_buf bhead) (\<lambda>h.
      kseq (set_buf b (\<lambda>r. r\<lparr>bnext := bnext h\<rparr>)) (
      kseq (set_buf b (\<lambda>r. r\<lparr>bprev := bhead\<rparr>)) (
      kbind (get_buf bhead) (\<lambda>h.
      kseq (set_buf (bnext h) (\<lambda>n. n\<lparr>bprev := b\<rparr>)) (
      kseq (set_buf bhead (\<lambda>h. h\<lparr>bnext := b\<rparr>)) m))))))))) R (put_kern k s) =
     wp m R (put_kern k (s\<lparr>bufs := B\<rparr>))" for m k R
  proof -
    have s: "put_kern k s = put_kern k (s\<lparr>bufs := bufs s\<rparr>)" by simp
    show ?thesis unfolding s by (simp only: wp_kbind wp_bufs B_def push_buf_def unlink_buf_def Let_def)
  qed
  show ?thesis unfolding brelse_def using b
    apply (simp add: wp_gets wp_kbind[of "get_buf b"] wp_kbind[of "acquire _"])
    apply (rule wp_acquire_put[OF k(1,2)])
    apply (subst run)
    apply (simp add: wp_simps)
    apply (rule wp_wakeup_put[of "insert BcacheLock H"])
      apply (simp_all add: k)
    apply (rule wp_release_put[of "insert BcacheLock H"])
    using Q k by simp_all
qed

lemma wp_brelse:
  assumes k: "kern_ok H s" "BcacheLock \<notin> H" "PtableLock \<notin> H"
    and c: "cache V D F s" "F n = Some b" "n \<in> D \<or> V n = disk s ROOTDEV n"
    and Q: "\<And>k B. kern_ok H (put_kern k s) \<Longrightarrow> cache V D (F(n := None)) (s\<lparr>bufs := B\<rparr>) \<Longrightarrow>
      Q () (put_kern k (s\<lparr>bufs := B\<rparr>))"
  shows "wp (brelse b) Q s"
  by (rule wp_brelse_raw[OF k cacheD(7)[OF c(1,2)]]) (rule Q, simp, rule cache_release[OF c refl])

section \<open>Initialisation\<close>

definition init_buf :: "nat \<Rightarrow> (nat \<Rightarrow> buf) \<Rightarrow> (nat \<Rightarrow> buf)" where
  "init_buf b B =
    (let h = bnext (B bhead);
         B0 = B(b := (B b)\<lparr>bnext := h\<rparr>);
         B1 = B0(b := (B0 b)\<lparr>bprev := bhead\<rparr>);
         B2 = B1(b := (B1 b)\<lparr>bdev := - 1\<rparr>);
         B3 = B2(h := (B2 h)\<lparr>bprev := b\<rparr>)
     in B3(bhead := (B3 bhead)\<lparr>bnext := b\<rparr>))"

lemma binit_step_run: "binit_step b s = Inr ((), s\<lparr>bufs := init_buf b (bufs s)\<rparr>)"
proof -
  have s: "wp (set_buf b f) R (s\<lparr>bufs := B\<rparr>) = R () (s\<lparr>bufs := B(b := f (B b))\<rparr>)"
    "wp (get_buf b) R' (s\<lparr>bufs := B\<rparr>) = R' (B b) (s\<lparr>bufs := B\<rparr>)" for b f B R R'
    by (simp_all add: wp_simps)
  have "wp (binit_step b) (\<lambda>_ t. t = s\<lparr>bufs := init_buf b (bufs s)\<rparr>) (s\<lparr>bufs := bufs s\<rparr>)"
    by (simp only: binit_step_def wp_kbind s init_buf_def Let_def)
  then show ?thesis by (auto simp: wp_def)
qed

lemma binit_run:
  "kfor binit_step bs s = Inr ((), s\<lparr>bufs := fold init_buf bs (bufs s)\<rparr>)"
  by (induction bs arbitrary: s) (simp_all add: ret_def kbind_def binit_step_run)

lemma init_buf_links:
  assumes "bnext (B bhead) \<noteq> b" "b \<noteq> bhead"
  shows "(\<lambda>i. bnext (init_buf b B i)) = (\<lambda>i. bnext (B i))(b := bnext (B bhead), bhead := b)"
    "(\<lambda>i. bprev (init_buf b B i)) = (\<lambda>i. bprev (B i))(b := bhead, bnext (B bhead) := b)"
  using assms by (auto simp: init_buf_def Let_def fun_eq_iff)

lemma init_buf_core:
  assumes "b \<noteq> bhead"
  shows "bbusy (init_buf b B i) = bbusy (B i)" "bdirty (init_buf b B i) = bdirty (B i)"
    "bdev (init_buf b B i) = (if i = b then - 1 else bdev (B i))"
  by (simp_all add: init_buf_def Let_def)

lemma init_bufs:
  assumes "bnext (B bhead) = bhead" "bprev (B bhead) = bhead" "n \<le> NBUF"
  defines "C \<equiv> fold init_buf [0..<n] B"
  shows "linked (\<lambda>i. bnext (C i)) (\<lambda>i. bprev (C i)) (bhead # rev [0..<n] @ [bhead]) \<and>
    (\<forall>i < n. bdev (C i) = - 1) \<and> (\<forall>i. bbusy (C i) = bbusy (B i) \<and> bdirty (C i) = bdirty (B i))"
  using assms(3) unfolding C_def
proof (induction n)
  case 0
  then show ?case using assms(1,2) by simp
next
  case (Suc n)
  let ?C = "fold init_buf [0..<n] B"
  have IH: "linked (\<lambda>i. bnext (?C i)) (\<lambda>i. bprev (?C i)) (bhead # rev [0..<n] @ [bhead])"
    "\<forall>i < n. bdev (?C i) = - 1" "\<forall>i. bbusy (?C i) = bbusy (B i) \<and> bdirty (?C i) = bdirty (B i)"
    using Suc by auto
  have nx: "bnext (?C bhead) \<noteq> n" "n \<noteq> bhead"
    using IH(1) Suc.prems linked_append[of "\<lambda>i. bnext (?C i)" "\<lambda>i. bprev (?C i)" "[bhead]" "rev [0..<n] @ [bhead]"]
    by (cases n; auto)+
  have d: "distinct (n # bhead # rev [0..<n])" using Suc.prems by auto
  have "linked (\<lambda>i. bnext (init_buf n ?C i)) (\<lambda>i. bprev (init_buf n ?C i)) (bhead # n # rev [0..<n] @ [bhead])"
    unfolding init_buf_links[where B = ?C and b = n, OF nx] by (rule linked_push[OF IH(1) d])
  then show ?case using IH(2,3) nx by (auto simp: init_buf_core less_Suc_eq)
qed

lemma binit_cache:
  assumes "ide_idle s" "\<And>i. i < NBUF \<Longrightarrow> \<not> bbusy (bufs s i) \<and> \<not> bdirty (bufs s i)"
  shows "\<exists>B. binit s = Inr ((), s\<lparr>locks := (locks s)(BcacheLock := \<lparr>locked = 0, lcpu = None\<rparr>), bufs := B\<rparr>) \<and>
    cache (disk s ROOTDEV) {} Map.empty (s\<lparr>bufs := B\<rparr>)"
proof -
  define B where "B = (bufs s)(bhead := (bufs s bhead)\<lparr>bprev := bhead, bnext := bhead\<rparr>)"
  define C where "C = fold init_buf [0..<NBUF] B"
  have B: "bnext (B bhead) = bhead" "bprev (B bhead) = bhead" by (simp_all add: B_def)
  have ib: "linked (\<lambda>i. bnext (C i)) (\<lambda>i. bprev (C i)) (bhead # rev [0..<NBUF] @ [bhead])"
    "\<forall>i < NBUF. bdev (C i) = - 1" "\<forall>i. bbusy (C i) = bbusy (B i) \<and> bdirty (C i) = bdirty (B i)"
    using init_bufs[where B = B and n = NBUF, OF B order_refl] unfolding C_def by auto
  have "ring C (rev [0..<NBUF])" using ib(1) by (simp add: ring_def)
  moreover have "slot_ok V D F i (C i)" if "i < NBUF" for i V D F
    using ib(2,3) assms(2)[OF that] that by (simp add: slot_ok_def B_def)
  moreover have "\<not> cached (s\<lparr>bufs := C\<rparr>) i n" for i n using ib(2) by (auto simp: cached_def ROOTDEV_def)
  ultimately have "cache (disk s ROOTDEV) {} Map.empty (s\<lparr>bufs := C\<rparr>)"
    using assms(1) by (auto simp: cache_def ide_idle_def)
  moreover have "binit s = Inr ((), s\<lparr>locks := (locks s)(BcacheLock := \<lparr>locked = 0, lcpu = None\<rparr>), bufs := C\<rparr>)"
    by (simp add: binit_def initlock_def set_buf_def buf_upd_def kbind_run binit_run C_def B_def)
  ultimately show ?thesis by blast
qed

section \<open>Properties\<close>


text \<open>A machine that has just booted: an idle process table, an empty cache and a zeroed disk.\<close>

definition boot_buf :: buf where
  "boot_buf = \<lparr>bbusy = False, bvalid = False, bdirty = False, bdev = 0, blockno = 0, bprev = 0, bnext = 0,
    qnext = None, bdata = replicate BSIZE 0\<rparr>"

definition boot_bst :: bst where
  "boot_bst = pst.extend pst1 \<lparr>bufs = fold init_buf [0..<NBUF]
      ((\<lambda>_. boot_buf)(bhead := boot_buf\<lparr>bprev := bhead, bnext := bhead\<rparr>)),
    idequeue = None, havedisk1 = True, disk = \<lambda>_ _. replicate BSIZE 0, dtrace = [], ide_err = False\<rparr>"

lemma kern_ok_extend: "kern_ok H (pst.extend s x) = kern_ok H s"
  by (simp add: kern_frame pst.extend_def)

lemma boot_bst_ok: "kern_ok {} boot_bst" "cache (\<lambda>_. replicate BSIZE 0) {} Map.empty boot_bst"
proof -
  have "kern_ok {} pst1" using pst1_holds pst1_ok by (auto simp: kern_ok_def)
  then show "kern_ok {} boot_bst" by (simp add: boot_bst_def kern_ok_extend)
  define s :: bst where "s = pst.extend pst1 \<lparr>bufs = \<lambda>_. boot_buf, idequeue = None, havedisk1 = True,
    disk = \<lambda>_ _. replicate BSIZE 0, dtrace = [], ide_err = False\<rparr>"
  have "\<exists>B. binit s = Inr ((), s\<lparr>locks := (locks s)(BcacheLock := \<lparr>locked = 0, lcpu = None\<rparr>), bufs := B\<rparr>) \<and>
    cache (disk s ROOTDEV) {} Map.empty (s\<lparr>bufs := B\<rparr>)"
    by (rule binit_cache) (simp_all add: s_def pst.extend_def ide_idle_def boot_buf_def)
  moreover have "binit s = Inr ((), s\<lparr>locks := (locks s)(BcacheLock := \<lparr>locked = 0, lcpu = None\<rparr>), bufs := bufs boot_bst\<rparr>)"
    by (simp add: binit_def initlock_def set_buf_def buf_upd_def kbind_run binit_run s_def boot_bst_def pst.extend_def)
  ultimately have "cache (disk s ROOTDEV) {} Map.empty (s\<lparr>bufs := bufs boot_bst\<rparr>)"
    by (auto dest: arg_cong[of _ _ bufs])
  moreover have "s\<lparr>bufs := bufs boot_bst\<rparr> = boot_bst" by (simp add: s_def boot_bst_def pst.extend_def)
  ultimately show "cache (\<lambda>_. replicate BSIZE 0) {} Map.empty boot_bst" by (simp add: s_def pst.extend_def)
qed

lemma boot_ring:
  "ring (bufs boot_bst) (rev [0..<NBUF])"
  "i < NBUF \<Longrightarrow> bdev (bufs boot_bst i) = - 1 \<and> \<not> bbusy (bufs boot_bst i) \<and> \<not> bdirty (bufs boot_bst i)"
proof -
  let ?B = "(\<lambda>_. boot_buf)(bhead := boot_buf\<lparr>bprev := bhead, bnext := bhead\<rparr>)"
  have b: "bufs boot_bst = fold init_buf [0..<NBUF] ?B" by (simp add: boot_bst_def pst.extend_def)
  note i = init_bufs[where B = ?B and n = NBUF, folded b]
  show "ring (bufs boot_bst) (rev [0..<NBUF])" using i by (simp add: ring_def)
  show "i < NBUF \<Longrightarrow> bdev (bufs boot_bst i) = - 1 \<and> \<not> bbusy (bufs boot_bst i) \<and> \<not> bdirty (bufs boot_bst i)"
    using i by (simp add: boot_buf_def)
qed


text \<open>
  C32. The circular list of buffers is a move-to-front list: \<^verbatim>\<open>brelse\<close> of a buffer moves it to the front
  and keeps the order of the others, and a \<^verbatim>\<open>bget\<close> that finds its block in no buffer takes the clean
  and free buffer nearest to the end, the least recently released one.
\<close>

theorem buffer_lru:
  assumes "kern_ok {} s" "ring (bufs s) xs" "b < NBUF"
  shows "(bbusy (bufs s b) \<longrightarrow> wp (brelse b) (\<lambda>_ t. ring (bufs t) (b # remove1 b xs) \<and> \<not> bbusy (bufs t b)) s) \<and>
    ((\<forall>i < NBUF. \<not> (bdev (bufs s i) = dev \<and> blockno (bufs s i) = n)) \<longrightarrow>
      find (\<lambda>i. \<not> bbusy (bufs s i) \<and> \<not> bdirty (bufs s i)) (rev xs) = Some b \<longrightarrow>
      wp (bget dev n) (\<lambda>b' t. b' = b \<and> ring (bufs t) xs \<and> bbusy (bufs t b) \<and> blockno (bufs t b) = n) s)"
proof (intro conjI impI)
  let ?B = "push_buf b (unlink_buf b (bufs s))"
  have "ring (?B(b := (?B b)\<lparr>bbusy := False\<rparr>)) (b # remove1 b xs)"
    using ring_front[OF assms(2,3)] by (subst ring_cong[of _ ?B]) auto
  then show "wp (brelse b) (\<lambda>_ t. ring (bufs t) (b # remove1 b xs) \<and> \<not> bbusy (bufs t b)) s" if "bbusy (bufs s b)"
    using wp_brelse_raw[OF assms(1) _ _ that] by simp
  let ?r = "(bufs s b)\<lparr>bdev := dev, blockno := n, bbusy := True, bvalid := False, bdirty := False\<rparr>"
  have "ring ((bufs s)(b := ?r)) xs" using assms(2) by (subst ring_cong[of _ "bufs s"]) auto
  then show "wp (bget dev n) (\<lambda>b' t. b' = b \<and> ring (bufs t) xs \<and> bbusy (bufs t b) \<and> blockno (bufs t b) = n) s"
    if "\<forall>i < NBUF. \<not> (bdev (bufs s i) = dev \<and> blockno (bufs s i) = n)"
      and f: "find (\<lambda>i. \<not> bbusy (bufs s i) \<and> \<not> bdirty (bufs s i)) (rev xs) = Some b"
    by (rule_tac wp_bget_miss[OF assms(1) _ assms(2) _ f]) (use that find_bufs(1)[OF assms(2)] in simp_all)
qed

theorem buffer_lru_witness:
  "wp (bget ROOTDEV 5) (\<lambda>b t. b = 0 \<and> ring (bufs t) (rev [0..<NBUF]) \<and> bbusy (bufs t 0) \<and> blockno (bufs t 0) = 5) boot_bst"
proof -
  have "[0..<NBUF] = 0 # [1..<NBUF]" by (simp add: layout upt_rec)
  then have f: "find (\<lambda>i. \<not> bbusy (bufs boot_bst i) \<and> \<not> bdirty (bufs boot_bst i)) (rev (rev [0..<NBUF])) = Some 0"
    using boot_ring(2)[of 0] NBUF_def by (simp del: upt.simps)
  have c: "\<forall>i < NBUF. \<not> (bdev (bufs boot_bst i) = ROOTDEV \<and> blockno (bufs boot_bst i) = 5)"
    using boot_ring(2) by (auto simp: ROOTDEV_def)
  show ?thesis
    using buffer_lru[OF boot_bst_ok(1) boot_ring(1), of 0 ROOTDEV 5] c f by (auto simp: layout wp_def)
qed

end
