(* ===== verification/Bytes.thy ===== *)
theory Bytes
  imports Kalloc
begin

text \<open>
  Little-endian words in byte sequences, and reading and overwriting a stretch of a byte sequence:
  what the kernel does when it looks at the bytes of a disk block as a C structure.
\<close>

section \<open>Stretches of bytes\<close>

definition slice :: "'a list \<Rightarrow> nat \<Rightarrow> nat \<Rightarrow> 'a list" where
  "slice bs off n = take n (drop off bs)"

definition splice :: "'a list \<Rightarrow> nat \<Rightarrow> 'a list \<Rightarrow> 'a list" where
  "splice bs off xs = take off bs @ xs @ drop (off + length xs) bs"

lemma length_slice [simp]: "off + n \<le> length bs \<Longrightarrow> length (slice bs off n) = n"
  by (simp add: slice_def)

lemma length_splice [simp]: "off + length xs \<le> length bs \<Longrightarrow> length (splice bs off xs) = length bs"
  by (simp add: splice_def)

lemma nth_splice:
  "off + length xs \<le> length bs \<Longrightarrow> i < length bs \<Longrightarrow>
    splice bs off xs ! i = (if off \<le> i \<and> i < off + length xs then xs ! (i - off) else bs ! i)"
  by (auto simp: splice_def nth_append min_def)

lemma nth_slice: "off + n \<le> length bs \<Longrightarrow> i < n \<Longrightarrow> slice bs off n ! i = bs ! (off + i)"
  by (simp add: slice_def)

lemma slice_splice_in:
  assumes "off + length xs \<le> length bs" "i + n \<le> length xs"
  shows "slice (splice bs off xs) (off + i) n = slice xs i n"
  by (rule nth_equalityI) (use assms in \<open>auto simp: nth_slice nth_splice\<close>)

lemma slice_splice_same: "off + length xs \<le> length bs \<Longrightarrow> slice (splice bs off xs) off (length xs) = xs"
  using slice_splice_in[of off xs bs 0 "length xs"] by (simp add: slice_def)

lemma slice_splice_out:
  assumes "off + length xs \<le> length bs" "i + n \<le> length bs" "i + n \<le> off \<or> off + length xs \<le> i"
  shows "slice (splice bs off xs) i n = slice bs i n"
  by (rule nth_equalityI) (use assms in \<open>auto simp: nth_slice nth_splice\<close>)

lemma splice_slice: "off + n \<le> length bs \<Longrightarrow> splice bs off (slice bs off n) = bs"
  by (rule nth_equalityI) (auto simp: nth_slice nth_splice)

lemma slice_slice: "i + m \<le> n \<Longrightarrow> off + n \<le> length bs \<Longrightarrow> slice (slice bs off n) i m = slice bs (off + i) m"
  by (rule nth_equalityI) (auto simp: nth_slice add.assoc)

lemma slice_append: "slice (xs @ ys) i n =
    (if i + n \<le> length xs then slice xs i n else if length xs \<le> i then slice ys (i - length xs) n
     else drop i xs @ take (i + n - length xs) ys)"
  by (auto simp: slice_def min_def add.commute)

section \<open>Words\<close>

definition bytes16 :: "ushort \<Rightarrow> uchar list" where
  "bytes16 w = [ucast w, ucast (drop_bit 8 w)]"

definition word16 :: "uchar list \<Rightarrow> ushort" where
  "word16 bs = ucast (bs ! 0) OR push_bit 8 (ucast (bs ! 1))"

definition bytes32 :: "uint \<Rightarrow> uchar list" where
  "bytes32 w = [ucast w, ucast (drop_bit 8 w), ucast (drop_bit 16 w), ucast (drop_bit 24 w)]"

definition word32 :: "uchar list \<Rightarrow> uint" where
  "word32 bs = join32 (bs ! 0) (bs ! 1) (bs ! 2) (bs ! 3)"

lemma length_bytes_w [simp]: "length (bytes16 w) = 2" "length (bytes32 v) = 4"
  by (simp_all add: bytes16_def bytes32_def)

lemma word32_bytes32 [simp]: "word32 (bytes32 w) = w"
  by (simp add: word32_def bytes32_def join32_split)

lemma word16_bytes16 [simp]: "word16 (bytes16 w) = w"
proof (rule bit_word_eqI)
  fix n assume n: "n < LENGTH(16)"
  then have "n < 8 \<or> 8 \<le> n \<and> n - 8 < 8" by auto
  then show "bit (word16 (bytes16 w)) n = bit w n" using n
    by (auto simp: word16_def bytes16_def bit_simps)
qed

definition get32 :: "uchar list \<Rightarrow> nat \<Rightarrow> uint" where
  "get32 bs off = word32 (slice bs off 4)"

definition put32 :: "uchar list \<Rightarrow> nat \<Rightarrow> uint \<Rightarrow> uchar list" where
  "put32 bs off w = splice bs off (bytes32 w)"

lemma length_put32 [simp]: "off + 4 \<le> length bs \<Longrightarrow> length (put32 bs off w) = length bs"
  by (simp add: put32_def)

lemma get32_put32: "off + 4 \<le> length bs \<Longrightarrow> get32 (put32 bs off w) off = w"
  using slice_splice_same[of off "bytes32 w" bs] by (simp add: get32_def put32_def)

lemma get32_put32_other:
  "off + 4 \<le> length bs \<Longrightarrow> i + 4 \<le> length bs \<Longrightarrow> i + 4 \<le> off \<or> off + 4 \<le> i \<Longrightarrow>
    get32 (put32 bs off w) i = get32 bs i"
  by (simp add: get32_def put32_def slice_splice_out)

text \<open>An array of words: \<open>get32s\<close> reads \<open>n\<close> words, \<open>put32s\<close> writes a list of words.\<close>

definition get32s :: "uchar list \<Rightarrow> nat \<Rightarrow> nat \<Rightarrow> uint list" where
  "get32s bs off n = map (\<lambda>i. get32 bs (off + 4 * i)) [0..<n]"

fun put32s :: "uchar list \<Rightarrow> nat \<Rightarrow> uint list \<Rightarrow> uchar list" where
  "put32s bs off [] = bs"
| "put32s bs off (w # ws) = put32s (put32 bs off w) (off + 4) ws"

lemma length_put32s [simp]: "off + 4 * length ws \<le> length bs \<Longrightarrow> length (put32s bs off ws) = length bs"
  by (induction bs off ws rule: put32s.induct) auto

lemma get32_put32s_other:
  "off + 4 * length ws \<le> length bs \<Longrightarrow> i + 4 \<le> off \<Longrightarrow> get32 (put32s bs off ws) i = get32 bs i"
  by (induction bs off ws rule: put32s.induct) (auto simp: get32_put32_other)

lemma get32_put32s:
  "off + 4 * length ws \<le> length bs \<Longrightarrow> i < length ws \<Longrightarrow> get32 (put32s bs off ws) (off + 4 * i) = ws ! i"
proof (induction bs off ws arbitrary: i rule: put32s.induct)
  case (2 bs off w ws)
  show ?case
  proof (cases i)
    case 0
    then show ?thesis using 2 by (simp add: get32_put32s_other get32_put32)
  next
    case (Suc j)
    then have "off + 4 + 4 * j = off + 4 * i" by simp
    then show ?thesis using 2(1)[of j] 2(2,3) Suc by (simp add: add.assoc)
  qed
qed simp

lemma get32s_put32s: "off + 4 * length ws \<le> length bs \<Longrightarrow> get32s (put32s bs off ws) off (length ws) = ws"
  by (rule nth_equalityI) (auto simp: get32s_def get32_put32s)

end
