(* ===== verification/Log.thy ===== *)
theory Log
  imports Bio Bytes
begin

text \<open>
  \<^verbatim>\<open>log.c\<close>: write-ahead logging. File system calls run between \<^verbatim>\<open>begin_op\<close> and \<^verbatim>\<open>end_op\<close>; the blocks
  they change are collected in the in-memory header and pinned in the cache, and the last \<^verbatim>\<open>end_op\<close>
  commits them: it copies them to the log area, writes the header (the commit point), installs them
  at their home locations and erases the header. \<open>recover_from_log\<close> runs at boot.

  The in-memory \<^verbatim>\<open>struct log\<close> is the state's extension below; its \<^verbatim>\<open>lock\<close> is \<open>LogLock\<close>. The lemmas give
  the exact sequence of disk writes of a commit and of a recovery, and from it that a crash at any
  moment leaves either all or none of the transaction.
\<close>

section \<open>State\<close>

definition MAXOPBLOCKS :: int where [layout]: "MAXOPBLOCKS = 10"
definition LOGSIZE :: nat where [layout]: "LOGSIZE = 30"

record superblock =
  sb_size :: uint
  sb_nblocks :: uint
  sb_ninodes :: uint
  sb_nlog :: uint
  sb_logstart :: uint
  sb_inodestart :: uint
  sb_bmapstart :: uint

record lst = bst +
  lstart :: uint
  lsize :: uint
  outstanding :: int
  committing :: bool
  ldev :: uint
  lh_n :: int
  lh_block :: "uint list"

abbreviation put_data :: "nat \<Rightarrow> uchar list \<Rightarrow> ('a bst_scheme, unit) kmon" where
  "put_data b d \<equiv> set_buf b (\<lambda>r. r\<lparr>bdata := d\<rparr>)"

section \<open>Operations\<close>

definition readsb :: "uint \<Rightarrow> ('a bst_scheme, superblock) kmon" where
  "readsb dev =
    kbind (bread dev 1) (\<lambda>b.
    kbind (get_buf b) (\<lambda>r.
    kseq (brelse b) (
    let d = bdata r in
    ret \<lparr>sb_size = get32 d 0, sb_nblocks = get32 d 4, sb_ninodes = get32 d 8, sb_nlog = get32 d 12,
      sb_logstart = get32 d 16, sb_inodestart = get32 d 20, sb_bmapstart = get32 d 24\<rparr>)))"

definition install_one :: "nat \<Rightarrow> ('a lst_scheme, unit) kmon" where
  "install_one tail =
    kbind (gets ldev) (\<lambda>dev.
    kbind (gets lstart) (\<lambda>start.
    kbind (gets lh_block) (\<lambda>blk.
    kbind (bread dev (start + of_nat tail + 1)) (\<lambda>lbuf.
    kbind (bread dev (blk ! tail)) (\<lambda>dbuf.
    kbind (get_buf lbuf) (\<lambda>l.
    kseq (put_data dbuf (bdata l)) (
    kseq (bwrite dbuf) (
    kseq (brelse lbuf) (
    brelse dbuf)))))))))"

definition install_trans :: "('a lst_scheme, unit) kmon" where
  "install_trans = kbind (gets lh_n) (\<lambda>n. kfor install_one [0..<nat n])"

text \<open>
  The header on disk is the count followed by the block numbers. \<open>read_head\<close> copies as many numbers
  as the header says; more than the array of the in-memory header holds is undefined behaviour.
\<close>

definition read_head :: "('a lst_scheme, unit) kmon" where
  "read_head =
    kbind (gets ldev) (\<lambda>dev.
    kbind (gets lstart) (\<lambda>start.
    kbind (bread dev start) (\<lambda>b.
    kbind (get_buf b) (\<lambda>r.
    let n = sint (get32 (bdata r) 0) in
    if n > int LOGSIZE then stop (Undef ''log header overflow'')
    else
      kseq (modify (\<lambda>s. s\<lparr>lh_n := n\<rparr>)) (
      kseq (modify (\<lambda>s. s\<lparr>lh_block := get32s (bdata r) 4 (nat n) @ drop (nat n) (lh_block s)\<rparr>)) (
      brelse b))))))"

definition put_head :: "uchar list \<Rightarrow> int \<Rightarrow> uint list \<Rightarrow> uchar list" where
  "put_head d n blk = put32s (put32 d 0 (of_int n)) 4 (take (nat n) blk)"

definition write_head :: "('a lst_scheme, unit) kmon" where
  "write_head =
    kbind (gets ldev) (\<lambda>dev.
    kbind (gets lstart) (\<lambda>start.
    kbind (bread dev start) (\<lambda>b.
    kbind (gets lh_n) (\<lambda>n.
    kbind (gets lh_block) (\<lambda>blk.
    kbind (get_buf b) (\<lambda>r.
    kseq (put_data b (put_head (bdata r) n blk)) (
    kseq (bwrite b) (
    brelse b))))))))"

definition recover_from_log :: "('a lst_scheme, unit) kmon" where
  "recover_from_log =
    kseq read_head (
    kseq install_trans (
    kseq (modify (\<lambda>s. s\<lparr>lh_n := 0\<rparr>)) (
    write_head)))"

definition initlog :: "uint \<Rightarrow> ('a lst_scheme, unit) kmon" where
  "initlog dev =
    kseq (initlock LogLock) (
    kbind (readsb dev) (\<lambda>sb.
    kseq (modify (\<lambda>s. s\<lparr>lstart := sb_logstart sb\<rparr>)) (
    kseq (modify (\<lambda>s. s\<lparr>lsize := sb_nlog sb\<rparr>)) (
    kseq (modify (\<lambda>s. s\<lparr>ldev := dev\<rparr>)) (
    recover_from_log)))))"

definition begin_op :: "('a lst_scheme, unit) kmon" where
  "begin_op =
    kseq (acquire LogLock) (
    kbind (gets committing) (\<lambda>c.
    if c then sleep ChLog LogLock
    else
      kbind (gets lh_n) (\<lambda>n.
      kbind (gets outstanding) (\<lambda>k.
      if n + (k + 1) * MAXOPBLOCKS > int LOGSIZE then sleep ChLog LogLock
      else
        kseq (modify (\<lambda>s. s\<lparr>outstanding := outstanding s + 1\<rparr>)) (
        release LogLock)))))"

definition write_log_one :: "nat \<Rightarrow> ('a lst_scheme, unit) kmon" where
  "write_log_one tail =
    kbind (gets ldev) (\<lambda>dev.
    kbind (gets lstart) (\<lambda>start.
    kbind (gets lh_block) (\<lambda>blk.
    kbind (bread dev (start + of_nat tail + 1)) (\<lambda>to.
    kbind (bread dev (blk ! tail)) (\<lambda>from.
    kbind (get_buf from) (\<lambda>f.
    kseq (put_data to (bdata f)) (
    kseq (bwrite to) (
    kseq (brelse from) (
    brelse to)))))))))"

definition write_log :: "('a lst_scheme, unit) kmon" where
  "write_log = kbind (gets lh_n) (\<lambda>n. kfor write_log_one [0..<nat n])"

definition commit :: "('a lst_scheme, unit) kmon" where
  "commit =
    kbind (gets lh_n) (\<lambda>n.
    kwhen (n > 0) (
      kseq write_log (
      kseq write_head (
      kseq install_trans (
      kseq (modify (\<lambda>s. s\<lparr>lh_n := 0\<rparr>)) (
      write_head))))))"

definition end_op :: "('a lst_scheme, unit) kmon" where
  "end_op =
    kseq (acquire LogLock) (
    kseq (modify (\<lambda>s. s\<lparr>outstanding := outstanding s - 1\<rparr>)) (
    kbind (gets committing) (\<lambda>c.
    if c then panic ''log.committing''
    else
      kbind (gets outstanding) (\<lambda>k.
      kseq (if k = 0 then modify (\<lambda>s. s\<lparr>committing := True\<rparr>) else wakeup ChLog) (
      kseq (release LogLock) (
      kwhen (k = 0) (
        kseq commit (
        kseq (acquire LogLock) (
        kseq (modify (\<lambda>s. s\<lparr>committing := False\<rparr>)) (
        kseq (wakeup ChLog) (
        release LogLock)))))))))))"

text \<open>
  \<^verbatim>\<open>log_write\<close> compares \<open>lh.n\<close> with \<open>log.size - 1\<close> as signed integers. The scan for the block absorbs
  repeated writes of one block.
\<close>

definition log_slot :: "'a lst_scheme \<Rightarrow> uint \<Rightarrow> nat" where
  "log_slot s n = length (takeWhile (\<lambda>x. x \<noteq> n) (take (nat (lh_n s)) (lh_block s)))"

definition log_write :: "nat \<Rightarrow> ('a lst_scheme, unit) kmon" where
  "log_write b =
    kbind (gets lh_n) (\<lambda>n.
    kbind (gets lsize) (\<lambda>size.
    if n \<ge> int LOGSIZE \<or> n \<ge> sint size - 1 then panic ''too big a transaction''
    else
      kbind (gets outstanding) (\<lambda>k.
      if k < 1 then panic ''log_write outside of trans''
      else
        kseq (acquire LogLock) (
        kbind (get_buf b) (\<lambda>r.
        kbind (gets (\<lambda>s. log_slot s (blockno r))) (\<lambda>i.
        kseq (modify (\<lambda>s. s\<lparr>lh_block := (lh_block s)[i := blockno r]\<rparr>)) (
        kseq (kwhen (int i = n) (modify (\<lambda>s. s\<lparr>lh_n := lh_n s + 1\<rparr>))) (
        kseq (set_buf b (\<lambda>r. r\<lparr>bdirty := True\<rparr>)) (
        release LogLock)))))))))"

section \<open>Block-level rules\<close>

text \<open>
  \<open>bset k B d tr s\<close> is \<open>s\<close> with another kernel part, buffer table, disk and write history: what the
  operations of the buffer cache change.
\<close>

definition bset :: "pst \<Rightarrow> (nat \<Rightarrow> buf) \<Rightarrow> (uint \<Rightarrow> uint \<Rightarrow> uchar list) \<Rightarrow> (uint \<times> uint \<times> uchar list) list \<Rightarrow>
    'a bst_scheme \<Rightarrow> 'a bst_scheme" where
  "bset k B d tr s = put_kern k (s\<lparr>bufs := B, disk := d, dtrace := tr\<rparr>)"

lemma bset_sel [simp]:
  "bufs (bset k B d tr s) = B" "disk (bset k B d tr s) = d" "dtrace (bset k B d tr s) = tr"
  "bst.more (bset k B d tr s) = bst.more s" "idequeue (bset k B d tr s) = idequeue s"
  "curproc (bset k B d tr s) = curproc s" "mycpu (bset k B d tr s) = mycpu s" "me (bset k B d tr s) = me s"
  "conslog (bset k B d tr s) = conslog s" "mem (bset k B d tr s) = mem s"
  "killed (procs (bset k B d tr s) p) = killed (procs s p)"
  "ofile (procs (bset k B d tr s) p) = ofile (procs s p)" "cwd (procs (bset k B d tr s) p) = cwd (procs s p)"
  by (simp_all add: bset_def me_def)

lemma bset_bset [simp]: "bset k B d tr (bset k' B' d' tr' s) = bset k B d tr s"
  by (simp add: bset_def)

lemma bset_lst [simp]:
  "lstart (bset k B d tr s) = lstart s" "lsize (bset k B d tr s) = lsize s"
  "outstanding (bset k B d tr s) = outstanding s" "committing (bset k B d tr s) = committing s"
  "ldev (bset k B d tr s) = ldev s" "lh_n (bset k B d tr s) = lh_n s" "lh_block (bset k B d tr s) = lh_block s"
  "lst.more (bset k B d tr s) = lst.more s"
  "outstanding_update f1 (bset k B d tr s) = bset k B d tr (outstanding_update f1 s)"
  "committing_update f2 (bset k B d tr s) = bset k B d tr (committing_update f2 s)"
  "lh_n_update f3 (bset k B d tr s) = bset k B d tr (lh_n_update f3 s)"
  "lh_block_update f4 (bset k B d tr s) = bset k B d tr (lh_block_update f4 s)"
  "lstart_update f5 (bset k B d tr s) = bset k B d tr (lstart_update f5 s)"
  "lsize_update f6 (bset k B d tr s) = bset k B d tr (lsize_update f6 s)"
  "ldev_update f7 (bset k B d tr s) = bset k B d tr (ldev_update f7 s)"
  by (simp_all add: bset_def put_kern_def)

lemma put_kern_lst [simp]:
  "lstart (put_kern k s) = lstart s" "lsize (put_kern k s) = lsize s"
  "outstanding (put_kern k s) = outstanding s" "committing (put_kern k s) = committing s"
  "ldev (put_kern k s) = ldev s" "lh_n (put_kern k s) = lh_n s" "lh_block (put_kern k s) = lh_block s"
  "outstanding_update f1 (put_kern k s) = put_kern k (outstanding_update f1 s)"
  "committing_update f2 (put_kern k s) = put_kern k (committing_update f2 s)"
  "lh_n_update f3 (put_kern k s) = put_kern k (lh_n_update f3 s)"
  "lh_block_update f4 (put_kern k s) = put_kern k (lh_block_update f4 s)"
  by (simp_all add: put_kern_def)

lemma kern_ok_lst [simp]:
  "kern_ok H (outstanding_update f1 s) = kern_ok H s" "kern_ok H (committing_update f2 s) = kern_ok H s"
  "kern_ok H (lh_n_update f3 s) = kern_ok H s" "kern_ok H (lh_block_update f4 s) = kern_ok H s"
  "kern_ok H (put_kern k (outstanding_update f1 s)) = kern_ok H (put_kern k s)"
  "kern_ok H (put_kern k (committing_update f2 s)) = kern_ok H (put_kern k s)"
  "kern_ok H (put_kern k (lh_n_update f3 s)) = kern_ok H (put_kern k s)"
  "kern_ok H (put_kern k (lh_block_update f4 s)) = kern_ok H (put_kern k s)"
  by (simp_all add: kern_frame bset_def)

lemma cache_lst [simp]:
  "cache V D F (outstanding_update f1 s) = cache V D F s" "cache V D F (committing_update f2 s) = cache V D F s"
  "cache V D F (lh_n_update f3 s) = cache V D F s" "cache V D F (lh_block_update f4 s) = cache V D F s"
  "cache V D F (bset k B d tr (outstanding_update f1 s)) = cache V D F (bset k B d tr s)"
  "cache V D F (bset k B d tr (committing_update f2 s)) = cache V D F (bset k B d tr s)"
  "cache V D F (bset k B d tr (lh_n_update f3 s)) = cache V D F (bset k B d tr s)"
  "cache V D F (bset k B d tr (lh_block_update f4 s)) = cache V D F (bset k B d tr s)"
  by (simp_all add: cache_def bset_def ide_idle_def cached_def)

definition bio_free :: "lockid set \<Rightarrow> bool" where
  "bio_free H \<longleftrightarrow> BcacheLock \<notin> H \<and> IdeLock \<notin> H \<and> PtableLock \<notin> H"

lemma bio_free_empty [simp]: "bio_free {}"
  by (simp add: bio_free_def)

lemma bset_self: "put_kern k (s\<lparr>bufs := B\<rparr>) = bset k B (disk s) (dtrace s) s"
  by (simp add: bset_def)

lemma kern_ok_bset [simp]: "kern_ok H (bset k B d tr s) = kern_ok H (put_kern k s)"
  by (simp add: bset_def)

lemma cache_bset: "cache V D F (bset k B d tr s) = cache V D F (s\<lparr>bufs := B, disk := d, dtrace := tr\<rparr>)"
  by (simp add: bset_def)

lemma bread_rule:
  assumes "kern_ok H s" "bio_free H" "cache V D F s" "F n = None" "room D F n" "n < FSSIZE"
    and Q: "\<And>k b B. kern_ok H (bset k B (disk s) (dtrace s) s) \<Longrightarrow>
      cache V D (F(n \<mapsto> b)) (bset k B (disk s) (dtrace s) s) \<Longrightarrow> Q b (bset k B (disk s) (dtrace s) s)"
  shows "wp (bread ROOTDEV n) Q s"
  by (rule wp_bread[OF assms(1) _ _ _ assms(3-6)])
    (use assms(2) Q in \<open>auto simp: bio_free_def bset_self[symmetric]\<close>)

lemma brelse_rule:
  assumes "kern_ok H s" "bio_free H" "cache V D F s" "F n = Some b" "n \<in> D \<or> V n = disk s ROOTDEV n"
    and Q: "\<And>k B. kern_ok H (bset k B (disk s) (dtrace s) s) \<Longrightarrow>
      cache V D (F(n := None)) (bset k B (disk s) (dtrace s) s) \<Longrightarrow> Q () (bset k B (disk s) (dtrace s) s)"
  shows "wp (brelse b) Q s"
  by (rule wp_brelse[OF assms(1) _ _ assms(3-5)])
    (use assms(2) Q in \<open>auto simp: bio_free_def bset_self[symmetric]\<close>)

lemma bwrite_rule:
  assumes "kern_ok H s" "bio_free H" "cache V D F s" "F n = Some b" "n < FSSIZE"
    and Q: "\<And>k B d tr. d = (disk s)(ROOTDEV := (disk s ROOTDEV)(n := V n)) \<Longrightarrow> tr = dtrace s @ [(ROOTDEV, n, V n)] \<Longrightarrow>
      kern_ok H (bset k B d tr s) \<Longrightarrow> cache V (D - {n}) F (bset k B d tr s) \<Longrightarrow> Q () (bset k B d tr s)"
  shows "wp (bwrite b) Q s"
  by (rule wp_bwrite[OF assms(1) _ _ assms(3-5)])
    (use assms(2) Q in \<open>auto simp: bio_free_def bset_def disk_put_def\<close>)

lemma put_data_rule:
  assumes "kern_ok H s" "cache V D F s" "F n = Some b"
    and Q: "\<And>k B. kern_ok H (bset k B (disk s) (dtrace s) s) \<Longrightarrow>
      cache (V(n := x)) D F (bset k B (disk s) (dtrace s) s) \<Longrightarrow> Q () (bset k B (disk s) (dtrace s) s)"
  shows "wp (put_data b x) Q s"
proof -
  obtain k where k: "put_kern k s = s" using kview_put_kern[of s s] by metis
  let ?B = "(bufs s)(b := (bufs s b)\<lparr>bdata := x\<rparr>)"
  have s: "bset k ?B (disk s) (dtrace s) s = s\<lparr>bufs := ?B\<rparr>" using k by (simp add: bset_self[symmetric] flip: put_kern_bst)
  have "cache (V(n := x)) D F (bset k ?B (disk s) (dtrace s) s)" unfolding s by (rule cache_data[OF assms(2,3)])
  moreover have "kern_ok H (bset k ?B (disk s) (dtrace s) s)" using assms(1) k by simp
  ultimately have "Q () (bset k ?B (disk s) (dtrace s) s)" by (rule Q[rotated])
  then show ?thesis unfolding s by (simp add: wp_simps)
qed

section \<open>The loops of a commit\<close>

lemma cache_clean: "cache V D F s \<Longrightarrow> n \<notin> D \<Longrightarrow> F n = None \<Longrightarrow> V n = disk s ROOTDEV n"
  by (simp add: cache_def)

lemma room_two:
  assumes "finite D" "card D + 2 \<le> NBUF"
  shows "room D Map.empty n" "room D (Map.empty(n \<mapsto> b)) m"
proof -
  have "card (insert n D) \<le> card D + 1" "card (insert m (insert n D)) \<le> card (insert n D) + 1"
    using assms(1) by (auto intro: card_insert_le_m1 simp: card_insert_if)
  then show "room D Map.empty n" "room D (Map.empty(n \<mapsto> b)) m" using assms(2) by (auto simp: room_def)
qed

text \<open>
  One round of \<^verbatim>\<open>write_log\<close> or \<^verbatim>\<open>install_trans\<close> copies block \<open>a\<close> to block \<open>c\<close> through the cache and
  writes it: the common core of the two loops.
\<close>

lemma copy_block:
  assumes k: "kern_ok {} s" "cache V D Map.empty s" and n: "a < FSSIZE" "c < FSSIZE" "a \<noteq> c"
    and r: "room D Map.empty c" "room D (Map.empty(c \<mapsto> x)) a"
    and Q: "\<And>k B d tr. d = (disk s)(ROOTDEV := (disk s ROOTDEV)(c := V a)) \<Longrightarrow> tr = dtrace s @ [(ROOTDEV, c, V a)] \<Longrightarrow>
      kern_ok {} (bset k B d tr s) \<Longrightarrow> cache (V(c := V a)) (D - {c}) Map.empty (bset k B d tr s) \<Longrightarrow> Q () (bset k B d tr s)"
  shows "wp (kbind (bread ROOTDEV c) (\<lambda>cb. kbind (bread ROOTDEV a) (\<lambda>ab. kbind (get_buf ab) (\<lambda>r.
    kseq (put_data cb (bdata r)) (kseq (bwrite cb) (kseq (brelse ab) (brelse cb))))))) Q s"
  unfolding wp_kbind
proof (rule bread_rule[OF k(1) _ k(2)], goal_cases)
  case (5 k1 cb B1)
  show ?case
  proof (rule bread_rule[OF 5(1) _ 5(2)], goal_cases)
    case (5 k2 ab B2)
    note c2 = this
    have d: "bdata (B2 ab) = V a" using cacheD(5)[OF c2(2), of a ab] by simp
    show ?case unfolding wp_gets
    proof (rule put_data_rule[OF c2(1,2), where n = c], goal_cases)
      case (2 k3 B3)
      show ?case
      proof (rule bwrite_rule[OF 2(1) _ 2(2), where n = c], goal_cases)
        case (4 k4 B4 d4 tr4)
        note w = this
        have av: "a \<in> D \<or> V a = disk s ROOTDEV a" using cache_clean[OF k(2), of a] by auto
        show ?case
        proof (rule brelse_rule[OF w(3) _ w(4), where n = a], goal_cases)
          case (4 k5 B5)
          show ?case
            by (rule brelse_rule[OF 4(1) _ 4(2), where n = c]) (use n d Q w(1,2) in \<open>auto simp: fun_upd_twist\<close>)
        qed (use n d av w(1) in auto)
      qed (use n in auto)
    qed (use n in auto)
  qed (use n r in \<open>auto simp: room_def\<close>)
qed (use n r in auto)

lemma copy_block':
  assumes k: "kern_ok {} s" "cache V D Map.empty s" and n: "a < FSSIZE" "c < FSSIZE" "a \<noteq> c"
    and r: "room D Map.empty a" "room D (Map.empty(a \<mapsto> x)) c"
    and Q: "\<And>k B d tr. d = (disk s)(ROOTDEV := (disk s ROOTDEV)(c := V a)) \<Longrightarrow> tr = dtrace s @ [(ROOTDEV, c, V a)] \<Longrightarrow>
      kern_ok {} (bset k B d tr s) \<Longrightarrow> cache (V(c := V a)) (D - {c}) Map.empty (bset k B d tr s) \<Longrightarrow> Q () (bset k B d tr s)"
  shows "wp (kbind (bread ROOTDEV a) (\<lambda>ab. kbind (bread ROOTDEV c) (\<lambda>cb. kbind (get_buf ab) (\<lambda>r.
    kseq (put_data cb (bdata r)) (kseq (bwrite cb) (kseq (brelse ab) (brelse cb))))))) Q s"
  unfolding wp_kbind
proof (rule bread_rule[OF k(1) _ k(2)], goal_cases)
  case (5 k1 ab B1)
  show ?case
  proof (rule bread_rule[OF 5(1) _ 5(2)], goal_cases)
    case (5 k2 cb B2)
    note c2 = this
    have d: "bdata (B2 ab) = V a" using cacheD(5)[OF c2(2), of a ab] n by simp
    show ?case unfolding wp_gets
    proof (rule put_data_rule[OF c2(1,2), where n = c], goal_cases)
      case (2 k3 B3)
      show ?case
      proof (rule bwrite_rule[OF 2(1) _ 2(2), where n = c], goal_cases)
        case (4 k4 B4 d4 tr4)
        note w = this
        have av: "a \<in> D \<or> V a = disk s ROOTDEV a" using cache_clean[OF k(2), of a] by auto
        show ?case
        proof (rule brelse_rule[OF w(3) _ w(4), where n = a], goal_cases)
          case (4 k5 B5)
          show ?case
            by (rule brelse_rule[OF 4(1) _ 4(2), where n = c]) (use n d Q w(1,2) in \<open>auto simp: fun_upd_twist\<close>)
        qed (use n d av w(1) in auto)
      qed (use n in auto)
    qed (use n in auto)
  qed (use n r in \<open>auto simp: room_def\<close>)
qed (use n r in auto)

lemma wp_kfor_upt:
  assumes "I 0 s" "\<And>i t. i < n \<Longrightarrow> I i t \<Longrightarrow> wp (body i) (\<lambda>_. I (Suc i)) t" "\<And>t. I n t \<Longrightarrow> Q () t"
  shows "wp (kfor body [0..<n]) Q s"
proof -
  have "m \<le> n \<Longrightarrow> wp (kfor body [0..<m]) (\<lambda>_. I m) s" for m
  proof (induction m)
    case (Suc m)
    then have "wp (kfor body [0..<m]) (\<lambda>_. wp (body m) (\<lambda>_. I (Suc m))) s"
      using assms(2)[of m] by (auto elim!: wp_mono)
    moreover have "kbind (body m) ret = body m" by (auto simp: kbind_def ret_def split: sum.splits)
    ultimately show ?case by (simp add: kfor_append wp_kbind)
  qed (simp add: assms(1) wp_simps)
  from this[OF order_refl] show ?thesis by (rule wp_mono) (use assms(3) in auto)
qed

text \<open>The effect of a list of block writes on the contents, the disks and the history.\<close>

type_synonym writes = "(uint \<times> uchar list) list"

definition app :: "writes \<Rightarrow> (uint \<Rightarrow> uchar list) \<Rightarrow> uint \<Rightarrow> uchar list" where
  "app = fold (\<lambda>(n, x) V. V(n := x))"

definition wrote :: "writes \<Rightarrow> (uint \<Rightarrow> uint \<Rightarrow> uchar list) \<Rightarrow> uint \<Rightarrow> uint \<Rightarrow> uchar list" where
  "wrote ws d = d(ROOTDEV := app ws (d ROOTDEV))"

definition hist :: "writes \<Rightarrow> (uint \<times> uint \<times> uchar list) list" where
  "hist = map (Pair ROOTDEV)"

lemma app_simps [simp]: "app [] V = V" "app (w # ws) V = app ws (V(fst w := snd w))"
  "app (ws @ vs) V = app vs (app ws V)"
  by (simp_all add: app_def split: prod.split)

lemma wrote_simps [simp]: "wrote [] d = d" "wrote ws d ROOTDEV = app ws (d ROOTDEV)"
  "wrote (ws @ vs) d = wrote vs (wrote ws d)"
  by (simp_all add: wrote_def)

lemma hist_simps [simp]: "hist [] = []" "hist (ws @ vs) = hist ws @ hist vs"
  by (simp_all add: hist_def)

lemma app_other: "n \<notin> fst ` set ws \<Longrightarrow> app ws V n = V n"
  unfolding app_def by (induction ws arbitrary: V) auto

lemma app_in: "distinct (map fst ws) \<Longrightarrow> (n, x) \<in> set ws \<Longrightarrow> app ws V n = x"
proof (induction ws rule: rev_induct)
  case (snoc w ws)
  obtain m y where w: "w = (m, y)" by (cases w)
  show ?case
  proof (cases "m = n")
    case True
    then have "n \<notin> fst ` set ws" using snoc.prems(1) w by auto
    then have "(n, x) = w" using snoc.prems(2) by (auto intro: rev_image_eqI)
    then show ?thesis using w by simp
  next
    case False
    then show ?thesis using snoc w by auto
  qed
qed simp

text \<open>
  A transaction: the log is on the root disk, the first \<open>n\<close> entries of the header are the pinned
  blocks \<open>D\<close>, none of them in the log area, and there is a buffer left to copy with.
\<close>

abbreviation log_blk :: "'a lst_scheme \<Rightarrow> nat \<Rightarrow> uint" where
  "log_blk s i \<equiv> lstart s + of_nat i + 1"

definition log_area :: "'a lst_scheme \<Rightarrow> nat \<Rightarrow> uint set" where
  "log_area s n = insert (lstart s) (log_blk s ` {0..<n})"

definition txn :: "'a lst_scheme \<Rightarrow> nat \<Rightarrow> uint set \<Rightarrow> bool" where
  "txn s n D \<longleftrightarrow> ldev s = ROOTDEV \<and> lh_n s = int n \<and> n \<le> LOGSIZE \<and> length (lh_block s) = LOGSIZE \<and>
    unat (lstart s) + n < unat FSSIZE \<and> finite D \<and> card D < NBUF \<and> set (take n (lh_block s)) = D \<and>
    distinct (take n (lh_block s)) \<and> (\<forall>b \<in> D. b < FSSIZE \<and> b \<notin> log_area s n)"

lemma txnD:
  assumes "txn s n D" "i < n"
  shows "log_blk s i < FSSIZE" "lstart s < FSSIZE" "lh_block s ! i \<in> D" "lh_block s ! i < FSSIZE"
    "log_blk s i \<notin> D" "log_blk s i \<noteq> lstart s" "lstart s \<notin> D"
    "j < n \<Longrightarrow> log_blk s i = log_blk s j \<longleftrightarrow> i = j" "j < n \<Longrightarrow> lh_block s ! i = lh_block s ! j \<longleftrightarrow> i = j"
proof -
  have b: "unat (lstart s) + n < 2000" "n \<le> 30" "length (lh_block s) = 30" "set (take n (lh_block s)) = D"
    "distinct (take n (lh_block s))" "\<forall>b \<in> D. b < FSSIZE \<and> b \<notin> log_area s n"
    using assms(1) by (auto simp: txn_def layout)
  have u: "unat (log_blk s j) = unat (lstart s) + j + 1" if "j < n" for j
  proof -
    have "unat (lstart s) + j + 1 < 2 ^ 32" using b(1) that by simp
    moreover have "log_blk s j = of_nat (unat (lstart s) + j + 1)" by simp
    ultimately show ?thesis using unat_of_nat32 by metis
  qed
  show "log_blk s i < FSSIZE" "lstart s < FSSIZE"
    using u[OF assms(2)] b(1) assms(2) by (simp_all add: word_less_nat_alt layout)
  show "lh_block s ! i \<in> D" using b(2-4) assms(2) nth_mem[of i "take n (lh_block s)"] by simp
  then show "lh_block s ! i < FSSIZE" using b(6) by blast
  show "log_blk s i \<notin> D" "lstart s \<notin> D" using b(6) assms(2) by (auto simp: log_area_def)
  show "log_blk s i \<noteq> lstart s"
  proof
    assume "log_blk s i = lstart s"
    from arg_cong[OF this, of unat] show False using u[OF assms(2)] by simp
  qed
  show "log_blk s i = log_blk s j \<longleftrightarrow> i = j" if "j < n"
  proof
    assume "log_blk s i = log_blk s j"
    from arg_cong[OF this, of unat] show "i = j" using u[OF assms(2)] u[OF that] by simp
  qed simp
  show "lh_block s ! i = lh_block s ! j \<longleftrightarrow> i = j" if "j < n"
    using nth_eq_iff_index_eq[OF b(5), of i j] b(2,3) assms(2) that by simp
qed

definition log_ws :: "(uint \<Rightarrow> uchar list) \<Rightarrow> 'a lst_scheme \<Rightarrow> nat \<Rightarrow> writes" where
  "log_ws V s n = map (\<lambda>i. (log_blk s i, V (lh_block s ! i))) [0..<n]"

definition home_ws :: "(uint \<Rightarrow> uchar list) \<Rightarrow> 'a lst_scheme \<Rightarrow> nat \<Rightarrow> writes" where
  "home_ws V s n = map (\<lambda>i. (lh_block s ! i, V (log_blk s i))) [0..<n]"

lemma ws_Suc:
  "log_ws V s (Suc i) = log_ws V s i @ [(log_blk s i, V (lh_block s ! i))]"
  "home_ws V s (Suc i) = home_ws V s i @ [(lh_block s ! i, V (log_blk s i))]"
  by (simp_all add: log_ws_def home_ws_def)

lemma wrote_one: "(wrote ws d)(ROOTDEV := (app ws (d ROOTDEV))(n := x)) = wrote (ws @ [(n, x)]) d"
  by (simp add: wrote_def)

lemma write_log_rule:
  assumes k: "kern_ok {} s" and t: "txn s n D" and c: "cache V D Map.empty s"
    and Q: "\<And>k B d tr. d = wrote (log_ws V s n) (disk s) \<Longrightarrow> tr = dtrace s @ hist (log_ws V s n) \<Longrightarrow>
      kern_ok {} (bset k B d tr s) \<Longrightarrow> cache (app (log_ws V s n) V) D Map.empty (bset k B d tr s) \<Longrightarrow>
      Q () (bset k B d tr s)"
  shows "wp write_log Q s"
proof -
  have dev: "ldev s = ROOTDEV" "lh_n s = int n" "card D < NBUF" "finite D" using t by (auto simp: txn_def)
  let ?I = "\<lambda>i t. \<exists>k B. t = bset k B (wrote (log_ws V s i) (disk s)) (dtrace s @ hist (log_ws V s i)) s \<and>
    kern_ok {} t \<and> cache (app (log_ws V s i) V) D Map.empty t"
  have "wp (kfor write_log_one [0..<n]) Q s"
  proof (rule wp_kfor_upt[where I = ?I])
    obtain k where "put_kern k s = s" using kview_put_kern[of s s] by metis
    then have "bset k (bufs s) (disk s) (dtrace s) s = s" by (simp add: bset_def)
    then show "?I 0 s" using k c by (intro exI[of _ k] exI[of _ "bufs s"]) (simp add: log_ws_def)
  next
    fix i t assume i: "i < n" and "?I i t"
    then obtain k B where ts: "t = bset k B (wrote (log_ws V s i) (disk s)) (dtrace s @ hist (log_ws V s i)) s"
      and kt: "kern_ok {} t" and ct: "cache (app (log_ws V s i) V) D Map.empty t" by blast
    note b = txnD[OF t i]
    have v: "app (log_ws V s i) V (lh_block s ! i) = V (lh_block s ! i)"
      by (rule app_other) (use b(3) txnD(5)[OF t] i in \<open>auto simp: log_ws_def\<close>)
    have "wp (kbind (bread ROOTDEV (log_blk s i)) (\<lambda>cb. kbind (bread ROOTDEV (lh_block s ! i)) (\<lambda>ab. kbind (get_buf ab) (\<lambda>r.
      kseq (put_data cb (bdata r)) (kseq (bwrite cb) (kseq (brelse ab) (brelse cb))))))) (\<lambda>_. ?I (Suc i)) t"
    proof (rule copy_block[where x = 0, OF kt ct b(4) b(1)], goal_cases)
      case 1
      then show ?case using b(3,5) by auto
    next
      case 2
      then show ?case using dev(3,4) b(5) by (simp add: room_def card_insert_if)
    next
      case 3
      then show ?case using dev(3,4) b(3,5) by (simp add: room_def card_insert_if)
    next
      case (4 k' B' d' tr')
      have "d' = wrote (log_ws V s (Suc i)) (disk s)" "tr' = dtrace s @ hist (log_ws V s (Suc i))"
        "bset k' B' d' tr' t = bset k' B' d' tr' s"
        using 4(1,2) v by (simp_all add: ts ws_Suc wrote_one[symmetric] hist_def del: wrote_simps(3))
      moreover have "cache (app (log_ws V s (Suc i)) V) D Map.empty (bset k' B' d' tr' s)"
        using 4(4) v b(5) calculation(3) by (simp add: ws_Suc)
      ultimately show ?case using 4(3) by auto
    qed
    then show "wp (write_log_one i) (\<lambda>_. ?I (Suc i)) t"
      using dev by (simp add: write_log_one_def wp_gets wp_kbind[of "gets _"] ts)
  next
    fix t assume "?I n t"
    then show "Q () t" using Q by blast
  qed
  then show ?thesis by (simp add: write_log_def wp_simps dev)
qed

lemma write_head_rule:
  assumes k: "kern_ok {} s" and c: "cache V D Map.empty s"
    and s: "ldev s = ROOTDEV" "lstart s \<notin> D" "lstart s < FSSIZE" "card D < NBUF" "finite D"
    and Q: "\<And>k B d tr. d = wrote [(lstart s, put_head (V (lstart s)) (lh_n s) (lh_block s))] (disk s) \<Longrightarrow>
      tr = dtrace s @ hist [(lstart s, put_head (V (lstart s)) (lh_n s) (lh_block s))] \<Longrightarrow>
      kern_ok {} (bset k B d tr s) \<Longrightarrow>
      cache (V(lstart s := put_head (V (lstart s)) (lh_n s) (lh_block s))) D Map.empty (bset k B d tr s) \<Longrightarrow>
      Q () (bset k B d tr s)"
  shows "wp write_head Q s"
  unfolding write_head_def wp_kbind wp_gets s(1)
proof (rule bread_rule[OF k _ c], goal_cases)
  case (5 k1 b B1)
  have d: "bdata (B1 b) = V (lstart s)" using cacheD(5)[OF 5(2), of "lstart s" b] by simp
  show ?case
  proof (rule put_data_rule[OF 5, where n = "lstart s"], goal_cases)
    case (2 k2 B2)
    show ?case
    proof (rule bwrite_rule[OF 2(1) _ 2(2), where n = "lstart s"], goal_cases)
      case (4 k3 B3 d3 tr3)
      show ?case
        by (rule brelse_rule[OF 4(3) _ 4(4), where n = "lstart s"])
          (use s 4(1,2) Q d in \<open>auto simp: wrote_def hist_def\<close>)
    qed (use s in auto)
  qed (use s in auto)
qed (use s in \<open>auto simp: room_def card_insert_if\<close>)

lemma install_rule:
  assumes k: "kern_ok {} s" and t: "txn s n D" and c: "cache V D' Map.empty s"
    and D': "D' = D \<or> D' = {}"
    and Q: "\<And>k B d tr. d = wrote (home_ws V s n) (disk s) \<Longrightarrow> tr = dtrace s @ hist (home_ws V s n) \<Longrightarrow>
      kern_ok {} (bset k B d tr s) \<Longrightarrow> cache (app (home_ws V s n) V) {} Map.empty (bset k B d tr s) \<Longrightarrow>
      Q () (bset k B d tr s)"
  shows "wp install_trans Q s"
proof -
  have dev: "ldev s = ROOTDEV" "lh_n s = int n" "card D < NBUF" "finite D" "set (take n (lh_block s)) = D"
    "length (lh_block s) = LOGSIZE" "n \<le> LOGSIZE"
    using t by (auto simp: txn_def)
  let ?D = "\<lambda>i. D' - set (take i (lh_block s))"
  let ?I = "\<lambda>i t. \<exists>k B. t = bset k B (wrote (home_ws V s i) (disk s)) (dtrace s @ hist (home_ws V s i)) s \<and>
    kern_ok {} t \<and> cache (app (home_ws V s i) V) (?D i) Map.empty t"
  have fin: "finite (?D i)" "card (?D i) < NBUF" for i
    using dev(3,4) D' card_mono[of D "?D i"] by (auto simp: layout)
  have "wp (kfor install_one [0..<n]) Q s"
  proof (rule wp_kfor_upt[where I = ?I])
    obtain k where "put_kern k s = s" using kview_put_kern[of s s] by metis
    then have "bset k (bufs s) (disk s) (dtrace s) s = s" by (simp add: bset_def)
    then show "?I 0 s" using k c by (intro exI[of _ k] exI[of _ "bufs s"]) (simp add: home_ws_def)
  next
    fix i t assume i: "i < n" and "?I i t"
    then obtain k B where ts: "t = bset k B (wrote (home_ws V s i) (disk s)) (dtrace s @ hist (home_ws V s i)) s"
      and kt: "kern_ok {} t" and ct: "cache (app (home_ws V s i) V) (?D i) Map.empty t" by blast
    note b = txnD[OF t i]
    have v: "app (home_ws V s i) V (log_blk s i) = V (log_blk s i)"
      by (rule app_other) (use b(5) txnD(3)[OF t] i in \<open>auto simp: home_ws_def\<close>)
    have ne: "log_blk s i \<noteq> lh_block s ! i" using b(3,5) by metis
    have nD: "log_blk s i \<notin> ?D i" using b(5) D' by auto
    have Ds: "?D i - {lh_block s ! i} = ?D (Suc i)"
      using dev(6,7) i by (auto simp: take_Suc_conv_app_nth)
    have rm: "room (?D i) (Map.empty(log_blk s i \<mapsto> 0)) (lh_block s ! i)"
    proof (cases "D' = {}")
      case False
      have "lh_block s ! i \<notin> set (take i (lh_block s))"
      proof
        assume "lh_block s ! i \<in> set (take i (lh_block s))"
        then obtain j where "j < i" "lh_block s ! i = lh_block s ! j" by (auto simp: in_set_conv_nth)
        then show False using txnD(9)[OF t i, of j] i by simp
      qed
      then have "lh_block s ! i \<in> ?D i" using False D' b(3) by auto
      then show ?thesis using fin[of i] nD ne by (simp add: room_def insert_absorb card_insert_if)
    qed (simp add: room_def layout card_insert_if)
    have "wp (kbind (bread ROOTDEV (log_blk s i)) (\<lambda>ab. kbind (bread ROOTDEV (lh_block s ! i)) (\<lambda>cb. kbind (get_buf ab) (\<lambda>r.
      kseq (put_data cb (bdata r)) (kseq (bwrite cb) (kseq (brelse ab) (brelse cb))))))) (\<lambda>_. ?I (Suc i)) t"
    proof (rule copy_block'[where x = 0, OF kt ct b(1) b(4) ne _ rm], goal_cases)
      case 1
      then show ?case using fin[of i] nD by (simp add: room_def card_insert_if)
    next
      case (2 k' B' d' tr')
      have "d' = wrote (home_ws V s (Suc i)) (disk s)" "tr' = dtrace s @ hist (home_ws V s (Suc i))"
        "bset k' B' d' tr' t = bset k' B' d' tr' s"
        using 2(1,2) v by (simp_all add: ts ws_Suc wrote_one[symmetric] hist_def del: wrote_simps(3))
      moreover have "cache (app (home_ws V s (Suc i)) V) (?D (Suc i)) Map.empty (bset k' B' d' tr' s)"
        using 2(4) v calculation(3) unfolding Ds by (simp add: ws_Suc)
      ultimately show ?case using 2(3) by auto
    qed
    then show "wp (install_one i) (\<lambda>_. ?I (Suc i)) t"
      using dev by (simp add: install_one_def wp_gets wp_kbind[of "gets _"] ts)
  next
    fix t assume "?I n t"
    moreover have "?D n = {}" using D' dev(5) by auto
    ultimately show "Q () t" using Q by auto
  qed
  then show ?thesis by (simp add: install_trans_def wp_simps dev)
qed

section \<open>The log as it is on the disk\<close>

text \<open>
  \<open>log_head start d\<close> is the list of block numbers in the header on the disk \<open>d\<close>, and \<open>logical start d\<close>
  the contents of the disk as the file system sees them after recovery: a block that the header
  names has the contents of its log block.
\<close>

definition log_head :: "uint \<Rightarrow> (uint \<Rightarrow> uchar list) \<Rightarrow> uint list" where
  "log_head start d =
    (let n = sint (get32 (d start) 0) in if n \<le> int LOGSIZE then get32s (d start) 4 (nat n) else [])"

definition logical :: "uint \<Rightarrow> (uint \<Rightarrow> uchar list) \<Rightarrow> uint \<Rightarrow> uchar list" where
  "logical start d =
    (let bs = log_head start d in app (zip bs (map (\<lambda>i. d (start + of_nat i + 1)) [0..<length bs])) d)"

lemma logical_none: "log_head start d = [] \<Longrightarrow> logical start d = d"
  by (simp add: logical_def)

lemma logical_at:
  assumes "distinct (log_head start d)"
  shows "b \<notin> set (log_head start d) \<Longrightarrow> logical start d b = d b"
    "i < length (log_head start d) \<Longrightarrow> logical start d (log_head start d ! i) = d (start + of_nat i + 1)"
proof -
  let ?ws = "zip (log_head start d) (map (\<lambda>i. d (start + of_nat i + 1)) [0..<length (log_head start d)])"
  have f: "map fst ?ws = log_head start d" by simp
  then have "fst ` set ?ws = set (log_head start d)" by (metis set_map)
  then show "b \<notin> set (log_head start d) \<Longrightarrow> logical start d b = d b"
    by (simp add: logical_def Let_def app_other)
  show "logical start d (log_head start d ! i) = d (start + of_nat i + 1)" if "i < length (log_head start d)"
    unfolding logical_def Let_def
    by (rule app_in) (use assms f that in \<open>auto simp: set_zip\<close>)
qed

lemma sint_small: "0 \<le> n \<Longrightarrow> n \<le> int LOGSIZE \<Longrightarrow> sint (of_int n :: uint) = n"
  by (simp add: sint_uint uint_word_of_int signed_take_bit_int_eq_self layout)

lemma put_head_get:
  assumes "length d = BSIZE" "0 \<le> n" "n \<le> int LOGSIZE" "length blk = LOGSIZE" "e start = put_head d n blk"
  shows "log_head start e = take (nat n) blk" "length (put_head d n blk) = BSIZE"
proof -
  let ?h = "put_head d n blk"
  have l: "4 + 4 * length (take (nat n) blk) \<le> length (put32 d 0 (of_int n))"
    using assms by (simp add: layout)
  have "get32 ?h 0 = of_int n" using l assms(1) by (simp add: put_head_def get32_put32s_other get32_put32 layout)
  then have s: "sint (get32 ?h 0) = n" using sint_small assms by simp
  have "get32s ?h 4 (length (take (nat n) blk)) = take (nat n) blk"
    unfolding put_head_def by (rule get32s_put32s[OF l])
  moreover have "length (take (nat n) blk) = nat n" using assms by simp
  ultimately show "log_head start e = take (nat n) blk" using s assms by (simp add: log_head_def)
  show "length ?h = BSIZE" using l assms(1) by (simp add: put_head_def layout)
qed

lemma log_head_cong: "d start = e start \<Longrightarrow> log_head start d = log_head start e"
  by (simp add: log_head_def Let_def)

section \<open>Commit\<close>

definition commit_ws :: "(uint \<Rightarrow> uchar list) \<Rightarrow> 'a lst_scheme \<Rightarrow> nat \<Rightarrow> writes" where
  "commit_ws V s n =
    (let H = put_head (V (lstart s)) (int n) (lh_block s) in
     log_ws V s n @ [(lstart s, H)] @ map (\<lambda>b. (b, V b)) (take n (lh_block s)) @
       [(lstart s, put_head H 0 (lh_block s))])"

lemma home_ws_logged:
  assumes t: "txn s n D"
  shows "home_ws ((app (log_ws V s n) V)(lstart s := H)) s n = map (\<lambda>b. (b, V b)) (take n (lh_block s))"
proof (rule nth_equalityI)
  have n: "n \<le> length (lh_block s)" using t by (simp add: txn_def)
  then show "length (home_ws ((app (log_ws V s n) V)(lstart s := H)) s n) = length (map (\<lambda>b. (b, V b)) (take n (lh_block s)))"
    by (simp add: home_ws_def)
  fix i assume "i < length (home_ws ((app (log_ws V s n) V)(lstart s := H)) s n)"
  then have i: "i < n" by (simp add: home_ws_def)
  have "distinct (map fst (log_ws V s n))"
    using txnD(8)[OF t] by (auto simp: log_ws_def comp_def distinct_map inj_on_def)
  then have "app (log_ws V s n) V (log_blk s i) = V (lh_block s ! i)"
    by (rule app_in) (use i in \<open>auto simp: log_ws_def\<close>)
  then show "home_ws ((app (log_ws V s n) V)(lstart s := H)) s n ! i = map (\<lambda>b. (b, V b)) (take n (lh_block s)) ! i"
    using i n txnD(6)[OF t i] by (simp add: home_ws_def)
qed

lemma app_same: "(\<And>b x. (b, x) \<in> set ws \<Longrightarrow> V b = x) \<Longrightarrow> app ws V = V"
proof (induction ws)
  case (Cons w ws)
  then have "V(fst w := snd w) = V" by (cases w) auto
  then show ?case using Cons by simp
qed simp

lemma commit_rule:
  assumes k: "kern_ok {} s" and t: "txn s n D" "0 < n" and c: "cache V D Map.empty s"
    and Q: "\<And>k B d tr V'. d = wrote (commit_ws V s n) (disk s) \<Longrightarrow> tr = dtrace s @ hist (commit_ws V s n) \<Longrightarrow>
      (\<And>b. b \<notin> log_area s n \<Longrightarrow> V' b = V b) \<Longrightarrow> kern_ok {} (bset k B d tr s) \<Longrightarrow>
      cache V' {} Map.empty (bset k B d tr s) \<Longrightarrow> Q () (bset k B d tr (s\<lparr>lh_n := 0\<rparr>))"
  shows "wp commit Q s"
proof -
  let ?H = "put_head (V (lstart s)) (int n) (lh_block s)"
  have dev: "ldev s = ROOTDEV" "lh_n s = int n" "card D < NBUF" "finite D" using t by (auto simp: txn_def)
  note b0 = txnD(2,7)[OF t]
  have v0: "app (log_ws V s n) V (lstart s) = V (lstart s)"
    by (rule app_other) (use txnD(6)[OF t(1)] in \<open>auto simp: log_ws_def\<close>)
  define V1 where "V1 = (app (log_ws V s n) V)(lstart s := ?H)"
  have h1: "home_ws V1 s n = map (\<lambda>b. (b, V b)) (take n (lh_block s))"
    unfolding V1_def by (rule home_ws_logged[OF t(1)])
  have V1: "V1 b = V b" if "b \<notin> log_area s n" for b
  proof -
    have "b \<notin> fst ` set (log_ws V s n)" "b \<noteq> lstart s" using that by (force simp: log_area_def log_ws_def)+
    then show ?thesis by (simp add: V1_def app_other)
  qed
  have "app (home_ws V1 s n) V1 = V1"
    unfolding h1 by (rule app_same) (use t(1) V1 in \<open>auto simp: txn_def\<close>)
  moreover have "V1 (lstart s) = ?H" by (simp add: V1_def)
  ultimately have V2: "app (home_ws V1 s n) V1 (lstart s) = ?H" "app (home_ws V1 s n) V1 = V1" "V1 (lstart s) = ?H" by simp_all
  have txn': "txn (bset k B d tr s) n D" for k B d tr using t(1) by (simp add: txn_def log_area_def)
  have hw: "home_ws V1 (bset k B d tr s) n = home_ws V1 s n" for k B d tr by (simp add: home_ws_def)
  show ?thesis unfolding commit_def wp_kbind wp_gets
    apply (simp add: dev t wp_kwhen wp_kbind)
    apply (rule write_log_rule[OF k t(1) c])
    apply (simp only: wp_kbind)
    apply (rule write_head_rule, assumption, assumption)
         apply (simp_all add: dev b0 v0)
    apply (fold V1_def)
    apply (simp only: wp_kbind)
    apply (rule install_rule[OF _ txn', where V = V1 and D' = D])
       apply (simp_all add: hw)
    apply (simp only: wp_kbind wp_modify)
    apply (rule write_head_rule[where D = "{}" and V = "app (home_ws V1 s n) V1"])
           apply (simp_all add: dev b0 V2 NBUF_def)
    apply (rule Q[where V' = "V1(lstart s := put_head (V1 (lstart s)) 0 (lh_block s))"])
    using V1 by (auto simp: commit_ws_def h1 Let_def V2(3) log_area_def wrote_def hist_def)
qed

text \<open>
  What a crash leaves: with the first \<open>k\<close> writes of a commit on the disk, the logical contents are
  the old ones as long as the header is not written, and the new ones from then on.
\<close>

lemma commit_prefix:
  assumes t: "txn s n D" "0 < n" and h: "log_head (lstart s) d = []" and l: "length (V (lstart s)) = BSIZE"
    and b: "b \<notin> log_area s n" and clean: "b \<notin> D \<Longrightarrow> V b = d b"
  shows "logical (lstart s) (app (take k (commit_ws V s n)) d) b = (if k \<le> n then d b else V b)"
proof -
  let ?start = "lstart s" and ?blk = "take n (lh_block s)"
  define H where "H = put_head (V ?start) (int n) (lh_block s)"
  define home where "home = map (\<lambda>b. (b, V b)) ?blk"
  define e where "e = (app (log_ws V s n) d)(?start := H)"
  have tx: "length (lh_block s) = LOGSIZE" "n \<le> LOGSIZE" "set ?blk = D" "distinct ?blk" using t by (auto simp: txn_def)
  have W: "commit_ws V s n = log_ws V s n @ (?start, H) # home @ [(?start, put_head H 0 (lh_block s))]"
    by (simp add: commit_ws_def H_def home_def Let_def)
  have ll: "length (log_ws V s n) = n" "length home = n" using tx by (simp_all add: log_ws_def home_def)
  note pg = put_head_get[OF l, of "int n" "lh_block s", folded H_def]
  have H: "log_head ?start x = ?blk" if "x ?start = H" for x using pg(1)[of x ?start] that tx by simp
  have nl: "b \<notin> fst ` set (log_ws V s n)" "b \<noteq> ?start" using b by (force simp: log_area_def log_ws_def)+
  have sl: "?start \<notin> fst ` set (log_ws V s n)" using txnD(6)[OF t(1)] by (force simp: log_ws_def)
  have sD: "?start \<notin> D" using txnD(7)[OF t] .
  have fh: "fst ` set home = D" using tx(3) by (force simp: home_def)
  have eb: "e b = d b" using nl by (simp add: e_def app_other)
  show ?thesis
  proof (cases "k \<le> n")
    case True
    let ?x = "app (take k (log_ws V s n)) d"
    have "take k (commit_ws V s n) = take k (log_ws V s n)" using True ll by (simp add: W)
    moreover have "?x ?start = d ?start" "?x b = d b"
      using sl nl(1) by (auto intro!: app_other dest: in_set_takeD)
    moreover have "log_head ?start ?x = []" using h log_head_cong[of ?x ?start d] calculation(2) by simp
    ultimately show ?thesis using True by (simp add: logical_none)
  next
    case False
    define j where "j = k - n - 1"
    have k: "k = n + 1 + j" using False by (simp add: j_def)
    have d: "distinct (map fst home)" using tx(4) by (simp add: home_def comp_def)
    show ?thesis
    proof (cases "j \<le> n")
      case True
      let ?x = "app (take j home) e"
      have "take k (commit_ws V s n) = log_ws V s n @ (?start, H) # take j home" using True ll k by (simp add: W)
      then have tk: "app (take k (commit_ws V s n)) d = ?x" by (simp add: e_def)
      have th: "fst ` set (take j home) \<subseteq> D" using fh by (metis image_mono set_take_subset)
      have "?x ?start = H" using th sD app_other[of ?start "take j home" e] by (auto simp: e_def)
      then have lh: "log_head ?start ?x = ?blk" using H[of ?x] by blast
      have log: "?x (log_blk s i) = V (?blk ! i)" if i: "i < n" for i
      proof -
        have "log_blk s i \<notin> fst ` set (take j home)" using th txnD(5)[OF t(1) i] by auto
        then have "?x (log_blk s i) = e (log_blk s i)" by (rule app_other)
        also have "\<dots> = app (log_ws V s n) d (log_blk s i)" using txnD(6)[OF t(1) i] by (simp add: e_def)
        also have "\<dots> = V (lh_block s ! i)"
          by (rule app_in) (use i txnD(8)[OF t(1)] in \<open>auto simp: log_ws_def comp_def distinct_map inj_on_def\<close>)
        finally show ?thesis using i by simp
      qed
      show ?thesis
      proof (cases "b \<in> D")
        case True
        then obtain i where i: "i < n" "b = ?blk ! i" using tx(1-3) by (metis in_set_conv_nth length_take min.absorb2)
        then have "logical ?start ?x b = V b" using logical_at(2)[of ?start ?x i] lh log[OF i(1)] tx by simp
        then show ?thesis using False tk by simp
      next
        case nb: False
        then have "logical ?start ?x b = ?x b" using logical_at(1)[of ?start ?x b] lh tx by simp
        also have "\<dots> = e b" using nb th by (intro app_other) auto
        finally show ?thesis using False tk eb clean[OF nb] by simp
      qed
    next
      case last: False
      let ?x = "(app home e)(?start := put_head H 0 (lh_block s))"
      have "take k (commit_ws V s n) = commit_ws V s n" using last ll k by (simp add: W)
      then have tk: "app (take k (commit_ws V s n)) d = ?x" by (simp add: W e_def)
      have "log_head ?start ?x = take (nat 0) (lh_block s)"
        by (rule put_head_get(1)[where d = H]) (use pg(2) tx in simp_all)
      then have "logical ?start ?x b = ?x b" by (simp add: logical_none)
      also have "\<dots> = V b"
      proof (cases "b \<in> D")
        case True
        then have "app home e b = V b" using tx(3) by (intro app_in[OF d]) (auto simp: home_def)
        then show ?thesis using nl by simp
      next
        case nb: False
        then show ?thesis using nl eb fh clean by (simp add: app_other)
      qed
      finally show ?thesis using False tk by simp
    qed
  qed
qed

section \<open>Recovery\<close>

definition recover_ws :: "uint \<Rightarrow> (uint \<Rightarrow> uchar list) \<Rightarrow> writes" where
  "recover_ws start d =
    (let bs = log_head start d in
     map (\<lambda>i. (bs ! i, d (start + of_nat i + 1))) [0..<length bs] @ [(start, put32 (d start) 0 0)])"

text \<open>A header that a commit may have left: distinct blocks outside the log area.\<close>

definition head_ok :: "uint \<Rightarrow> (uint \<Rightarrow> uchar list) \<Rightarrow> bool" where
  "head_ok start d \<longleftrightarrow>
    (let bs = log_head start d; n = sint (get32 (d start) 0) in
     length (d start) = BSIZE \<and> 0 \<le> n \<and> n < int NBUF \<and> unat start + nat n < unat FSSIZE \<and> distinct bs \<and>
     (\<forall>b \<in> set bs. b < FSSIZE \<and> b \<noteq> start \<and> (\<forall>i < nat n. b \<noteq> start + of_nat i + 1)))"

lemma head_okD:
  assumes "head_ok start d"
  shows "length (log_head start d) = nat (sint (get32 (d start) 0))" "length (log_head start d) < NBUF"
  using assms by (auto simp: head_ok_def log_head_def get32s_def Let_def layout)

lemma cache_disk: "cache V {} Map.empty t \<Longrightarrow> V = disk t ROOTDEV"
  by (rule ext) (simp add: cache_def)

lemma cache_disk': "cache V {} Map.empty t \<Longrightarrow> cache (disk t ROOTDEV) {} Map.empty t"
  using cache_disk[of V t] by simp

lemma recover_rule:
  assumes k: "kern_ok {} s" and c: "cache d {} Map.empty s" "d = disk s ROOTDEV"
    and h: "head_ok (lstart s) d" and s: "ldev s = ROOTDEV" "length (lh_block s) = LOGSIZE"
    and Q: "\<And>k B e tr blk. e = wrote (recover_ws (lstart s) d) (disk s) \<Longrightarrow>
      tr = dtrace s @ hist (recover_ws (lstart s) d) \<Longrightarrow> kern_ok {} (bset k B e tr s) \<Longrightarrow>
      cache (e ROOTDEV) {} Map.empty (bset k B e tr s) \<Longrightarrow> length blk = LOGSIZE \<Longrightarrow>
      Q () (bset k B e tr (s\<lparr>lh_block := blk, lh_n := 0\<rparr>))"
  shows "wp recover_from_log Q s"
proof -
  let ?start = "lstart s" and ?bs = "log_head (lstart s) d"
  define n where "n = length ?bs"
  define blk where "blk = ?bs @ drop n (lh_block s)"
  have n: "sint (get32 (d ?start) 0) = int n" "n < NBUF" "unat ?start + n < unat FSSIZE" "n \<le> LOGSIZE"
    using head_okD[OF h] h by (auto simp: n_def head_ok_def Let_def layout)
  have hd: "get32s (d ?start) 4 n = ?bs" using n by (simp add: log_head_def)
  have lb: "length blk = LOGSIZE" "take n blk = ?bs" using s(2) n(4) by (simp_all add: blk_def n_def)
  have st: "?start < FSSIZE" using n(3) by (simp add: word_less_nat_alt)
  let ?s1 = "s\<lparr>lh_n := int n, lh_block := blk\<rparr>"
  have cb: "card (set ?bs) < NBUF" using n(2) card_length[of ?bs] by (simp add: n_def)
  have ho: "\<forall>b \<in> set ?bs. b < FSSIZE \<and> b \<noteq> ?start \<and> (\<forall>i < n. b \<noteq> log_blk s i)" "distinct ?bs"
    using h n(1) by (simp_all add: head_ok_def Let_def)
  then have na: "\<forall>b \<in> set ?bs. b < FSSIZE \<and> b \<notin> log_area s n" by (simp add: log_area_def image_iff)
  have tx: "txn (bset k B e tr ?s1) n (set ?bs)" for k B e tr
    using n lb s(1) na cb ho(2) by (simp add: txn_def log_area_def)
  have ws: "home_ws d (bset k B e tr ?s1) n @ [(?start, put_head (d ?start) 0 blk)] = recover_ws ?start d" for k B e tr
    by (simp add: home_ws_def recover_ws_def Let_def n_def blk_def put_head_def nth_append)
  have v0: "app (home_ws d (bset k B e tr ?s1) n) d ?start = d ?start" for k B e tr
  proof (rule app_other)
    have "blk ! i \<in> set ?bs" if "i < n" for i using that by (simp add: blk_def n_def nth_append)
    then show "?start \<notin> fst ` set (home_ws d (bset k B e tr ?s1) n)" using ho(1) by (auto simp: home_ws_def)
  qed
  have c0: "card ({} :: uint set) < NBUF" by (simp add: layout)
  show ?thesis unfolding recover_from_log_def wp_kbind read_head_def wp_gets s(1)
  proof (rule bread_rule[OF k _ c(1)], goal_cases)
    case (5 k1 b B1)
    have bd: "bdata (B1 b) = d ?start" using cacheD(5)[OF 5(2), of ?start b] by simp
    have "wp (brelse b) (\<lambda>_. wp install_trans (\<lambda>_. wp (modify (\<lambda>s. s\<lparr>lh_n := 0\<rparr>)) (\<lambda>_. wp write_head Q)))
      (bset k1 B1 (disk s) (dtrace s) ?s1)"
    proof (rule brelse_rule[where H = "{}" and n = ?start and V = d and D = "{}" and F = "Map.empty(?start \<mapsto> b)"], goal_cases)
      case (6 k2 B2)
      let ?s2 = "bset k2 B2 (disk s) (dtrace s) ?s1"
      have k6: "kern_ok {} ?s2" "cache d {} Map.empty ?s2" using 6 by simp_all
      have "wp install_trans (\<lambda>_. wp (modify (\<lambda>s. s\<lparr>lh_n := 0\<rparr>)) (\<lambda>_. wp write_head Q)) ?s2"
      proof (rule install_rule[OF k6(1) tx k6(2)], goal_cases)
        case (2 k3 B3 d3 tr3)
        let ?s3 = "bset k3 B3 d3 tr3 (s\<lparr>lh_block := blk, lh_n := 0\<rparr>)"
        have k3: "kern_ok {} ?s3" "cache (app (home_ws d ?s2 n) d) {} Map.empty ?s3" using 2(3,4) by simp_all
        have "wp write_head Q ?s3"
        proof (rule write_head_rule[OF k3], goal_cases)
          case (6 k4 B4 d4 tr4)
          have "d4 = wrote (recover_ws ?start d) (disk s)" "tr4 = dtrace s @ hist (recover_ws ?start d)"
            using 6(1,2) 2(1,2) v0[of k2 B2 "disk s" "dtrace s"]
            unfolding ws[of k2 B2 "disk s" "dtrace s", symmetric] by simp_all
          moreover have "cache (d4 ROOTDEV) {} Map.empty (bset k4 B4 d4 tr4 s)"
            using cache_disk'[OF 6(4)] by simp
          ultimately have "Q () (bset k4 B4 d4 tr4 (s\<lparr>lh_block := blk, lh_n := 0\<rparr>))"
            using Q[of d4 tr4 k4 B4 blk] 6(3) lb(1) by simp
          then show ?case by simp
        qed (use s st c0 in simp_all)
        then show ?case by (simp add: wp_modify)
      qed simp
      then show ?case by simp
    qed (use 5 c in simp_all)
    then show ?case using bd n(1,4) hd by (simp add: wp_simps Let_def blk_def)
  qed (use st c0 in \<open>simp_all add: room_def\<close>)
qed

lemma recover_prefix:
  assumes h: "head_ok start d" and b: "b \<noteq> start"
  shows "logical start (app (take k (recover_ws start d)) d) b = logical start d b"
    "log_head start (app (recover_ws start d) d) = []"
proof -
  let ?bs = "log_head start d"
  let ?ws = "map (\<lambda>i. (?bs ! i, d (start + of_nat i + 1))) [0..<length ?bs]"
  have ho: "\<forall>b \<in> set ?bs. b \<noteq> start \<and> (\<forall>i < length ?bs. b \<noteq> start + of_nat i + 1)" "distinct ?bs" "length (d start) = BSIZE"
    using h head_okD(1)[OF h] by (auto simp: head_ok_def Let_def)
  have W: "recover_ws start d = ?ws @ [(start, put32 (d start) 0 0)]" by (simp add: recover_ws_def Let_def)
  have f: "fst ` set ?ws \<subseteq> set ?bs" by auto
  have fm: "map fst ?ws = ?bs" by (rule nth_equalityI) auto
  have inst: "logical start (app (take k ?ws) d) b = logical start d b" for k
  proof -
    let ?x = "app (take k ?ws) d"
    have tk: "fst ` set (take k ?ws) \<subseteq> set ?bs" using f set_take_subset[of k ?ws] by blast
    have "?x start = d start" using tk ho(1) by (intro app_other) auto
    then have lh: "log_head start ?x = ?bs" by (rule log_head_cong)
    show ?thesis
    proof (cases "b \<in> set ?bs")
      case True
      then obtain i where i: "i < length ?bs" "b = ?bs ! i" by (auto simp: in_set_conv_nth)
      have "?x (start + of_nat i + 1) = d (start + of_nat i + 1)" using tk ho(1) i by (intro app_other) auto
      then show ?thesis using logical_at(2)[of start ?x i] logical_at(2)[of start d i] lh ho(2) i by simp
    next
      case False
      then have "?x b = d b" using tk by (intro app_other) auto
      then show ?thesis using logical_at(1)[of start ?x b] logical_at(1)[of start d b] lh ho(2) False by simp
    qed
  qed
  let ?y = "(app ?ws d)(start := put32 (d start) 0 0)"
  have "sint (get32 (?y start) 0) = 0" using ho(3) by (simp add: get32_put32 layout)
  then show lh: "log_head start (app (recover_ws start d) d) = []" by (simp add: W log_head_def get32s_def)
  show "logical start (app (take k (recover_ws start d)) d) b = logical start d b"
  proof (cases "k \<le> length ?ws")
    case True
    then have "take k (recover_ws start d) = take k ?ws" by (simp add: W)
    then show ?thesis using inst by simp
  next
    case False
    then have t: "take k (recover_ws start d) = recover_ws start d" by (simp add: W)
    have "logical start (app (recover_ws start d) d) b = app ?ws d b" using b by (simp add: logical_none[OF lh]) (simp add: W)
    also have "\<dots> = logical start d b"
    proof (cases "b \<in> set ?bs")
      case True
      then obtain i where i: "i < length ?bs" "b = ?bs ! i" by (auto simp: in_set_conv_nth)
      then have "app ?ws d b = d (start + of_nat i + 1)" by (intro app_in) (use fm ho(2) in \<open>auto simp del: map_map\<close>)
      then show ?thesis using logical_at(2)[of start d i] ho(2) i by simp
    next
      case False
      then have "app ?ws d b = d b" using f by (intro app_other) auto
      then show ?thesis using logical_at(1)[of start d b] ho(2) False by simp
    qed
    finally show ?thesis unfolding t .
  qed
qed

section \<open>Rules for transactions\<close>

text \<open>
  \<open>in_log s D\<close>: the header lists exactly the pinned blocks \<open>D\<close>, each once.
\<close>

definition in_log :: "'a lst_scheme \<Rightarrow> uint set \<Rightarrow> bool" where
  "in_log s D \<longleftrightarrow> ldev s = ROOTDEV \<and> length (lh_block s) = LOGSIZE \<and> 0 \<le> lh_n s \<and> lh_n s \<le> int LOGSIZE \<and>
    distinct (take (nat (lh_n s)) (lh_block s)) \<and> set (take (nat (lh_n s)) (lh_block s)) = D"

text \<open>\<open>log_room s m\<close>: the log has room for \<open>m\<close> more blocks.\<close>

definition log_room :: "'a lst_scheme \<Rightarrow> nat \<Rightarrow> bool" where
  "log_room s m \<longleftrightarrow> lh_n s + int m \<le> int LOGSIZE \<and> lh_n s + int m < sint (lsize s) \<and> 1 \<le> outstanding s"

lemma in_log_card: "in_log s D \<Longrightarrow> int (card D) = lh_n s \<and> finite D"
  using distinct_card[of "take (nat (lh_n s)) (lh_block s)"] by (auto simp: in_log_def)

lemma log_write_header:
  fixes n :: uint
  assumes i: "in_log s D" and r: "lh_n s < int LOGSIZE"
  defines "t \<equiv> s\<lparr>lh_block := (lh_block s)[log_slot s n := n],
    lh_n := (if int (log_slot s n) = lh_n s then lh_n s + 1 else lh_n s)\<rparr>"
  shows "in_log t (insert n D)" "lh_n t \<le> lh_n s + 1"
proof -
  let ?m = "nat (lh_n s)" and ?xs = "take (nat (lh_n s)) (lh_block s)"
  have l: "length (lh_block s) = LOGSIZE" "0 \<le> lh_n s" "distinct ?xs" "set ?xs = D" "length ?xs = ?m" "?m < LOGSIZE"
    using i r by (auto simp: in_log_def)
  have "in_log t (insert n D) \<and> lh_n t \<le> lh_n s + 1"
  proof (cases "n \<in> D")
    case True
    then have "takeWhile (\<lambda>x. x \<noteq> n) ?xs \<noteq> ?xs" using l(4) by (auto simp: takeWhile_eq_all_conv)
    then have lt: "log_slot s n < ?m"
      using l(5) length_takeWhile_le[of "\<lambda>x. x \<noteq> n" ?xs] takeWhile_eq_take[of "\<lambda>x. x \<noteq> n" ?xs]
      by (metis le_neq_implies_less log_slot_def order_refl take_all)
    have "?xs ! log_slot s n = n" using nth_length_takeWhile[of "\<lambda>x. x \<noteq> n" ?xs] lt l(5) by (simp add: log_slot_def)
    then have "lh_block s ! log_slot s n = n" using lt by simp
    then have "(lh_block s)[log_slot s n := n] = lh_block s" by (metis list_update_id)
    then show ?thesis using i lt l True by (auto simp: t_def in_log_def insert_absorb)
  next
    case False
    then have "takeWhile (\<lambda>x. x \<noteq> n) ?xs = ?xs" using l(4) by (auto simp: takeWhile_eq_all_conv)
    then have e: "log_slot s n = ?m" using l(5) unfolding log_slot_def by metis
    have "take (nat (lh_n s + 1)) ((lh_block s)[?m := n]) = ?xs @ [n]"
      using l by (simp add: nat_add_distrib take_Suc_conv_app_nth)
    then show ?thesis using i l False e by (auto simp: t_def in_log_def)
  qed
  then show "in_log t (insert n D)" "lh_n t \<le> lh_n s + 1" by auto
qed

lemma log_write_rule:
  assumes k: "kern_ok H s" "LogLock \<notin> H" and c: "cache V D F s" "F n = Some b"
    and l: "in_log s D" "log_room s 1"
    and Q: "\<And>k B lb ln. let t = bset k B (disk s) (dtrace s) (s\<lparr>lh_block := lb, lh_n := ln\<rparr>) in
      kern_ok H t \<and> cache V (insert n D) F t \<and> in_log t (insert n D) \<and> ln \<le> lh_n s + 1 \<longrightarrow> Q () t"
  shows "wp (log_write b) Q s"
proof -
  have b: "blockno (bufs s b) = n" using cacheD(3)[OF c] .
  have g: "\<not> (lh_n s \<ge> int LOGSIZE \<or> lh_n s \<ge> sint (lsize s) - 1)" "\<not> outstanding s < 1"
    using l(2) by (auto simp: log_room_def)
  let ?i = "log_slot s n"
  let ?lb = "(lh_block s)[?i := n]" and ?ln = "if int ?i = lh_n s then lh_n s + 1 else lh_n s"
  let ?B = "(bufs s)(b := (bufs s b)\<lparr>bdirty := True\<rparr>)"
  have il: "in_log (s\<lparr>lh_block := ?lb, lh_n := ?ln\<rparr>) (insert n D)" "?ln \<le> lh_n s + 1"
    using log_write_header[OF l(1)] g by auto
  have cd: "cache V (insert n D) F (s\<lparr>bufs := ?B\<rparr>)" by (rule cache_dirty[OF c])
  have Q': "Q () (put_kern k (s\<lparr>lh_block := ?lb, lh_n := ?ln, bufs := ?B\<rparr>))" if "kern_ok H (put_kern k s)" for k
  proof -
    let ?t = "bset k ?B (disk s) (dtrace s) (s\<lparr>lh_block := ?lb, lh_n := ?ln\<rparr>)"
    have "?t = put_kern k (s\<lparr>lh_block := ?lb, lh_n := ?ln, bufs := ?B\<rparr>)" by (simp add: bset_def)
    moreover have "kern_ok H ?t" using that by simp
    moreover have "in_log ?t (insert n D)" using il(1) by (simp add: in_log_def)
    moreover have "cache V (insert n D) F (bset k ?B (disk s) (dtrace s) s)" using cd by (simp add: cache_bset)
    then have "cache V (insert n D) F ?t" by simp
    ultimately show ?thesis using Q[where k = k and B = ?B and lb = ?lb and ln = ?ln] il(2) by (simp add: Let_def)
  qed
  show ?thesis unfolding log_write_def
    apply (simp add: g wp_simps)
    apply (rule wp_acquire_put[OF k])
    apply (simp add: wp_simps b log_slot_def)
    apply (fold log_slot_def)
    apply (cases "int ?i = lh_n s")
     apply (simp_all add: wp_simps)
     apply (rule_tac [!] wp_release_put[of "insert LogLock H"])
         apply (use k Q' in simp_all)
    done
qed

section \<open>Properties\<close>


text \<open>A machine with one block, number 100, changed and logged but not yet committed.\<close>

definition logged_lst :: lst where
  "logged_lst = bst.extend (boot_bst\<lparr>bufs := (bufs boot_bst)(0 := (bufs boot_bst 0)\<lparr>bdev := ROOTDEV, blockno := 100,
      bvalid := True, bdirty := True, bdata := replicate BSIZE 1\<rparr>)\<rparr>)
    \<lparr>lstart = 2, lsize = 30, outstanding = 0, committing = False, ldev = ROOTDEV, lh_n = 1,
      lh_block = 100 # replicate 29 0\<rparr>"

lemma kern_ok_bst_extend: "kern_ok H (bst.extend s x) = kern_ok H s"
  by (simp add: kern_frame bst.extend_def)

lemma cache_bst_extend: "cache V D F (bst.extend s x) = cache V D F s"
  by (simp add: cache_def ide_idle_def cached_def bst.extend_def)

lemma logged_lst_ok:
  "kern_ok {} logged_lst" "txn logged_lst 1 {100}"
  "cache ((\<lambda>_. replicate BSIZE 0)(100 := replicate BSIZE 1)) {100} Map.empty logged_lst"
  "log_head (lstart logged_lst) (disk logged_lst ROOTDEV) = []"
proof -
  show "kern_ok {} logged_lst" using boot_bst_ok(1) by (simp add: logged_lst_def kern_ok_bst_extend)
  have sel: "ldev logged_lst = ROOTDEV" "lh_n logged_lst = 1" "lh_block logged_lst = 100 # replicate 29 0"
    "lstart logged_lst = 2" "disk logged_lst = (\<lambda>_ _. replicate BSIZE 0)"
    by (simp_all add: logged_lst_def bst.extend_def boot_bst_def pst.extend_def)
  show "txn logged_lst 1 {100}" by (simp add: txn_def log_area_def sel layout)
  have "get32 (replicate BSIZE 0) 0 = 0" by (simp add: get32_def slice_def word32_def join32_def layout)
  then show "log_head (lstart logged_lst) (disk logged_lst ROOTDEV) = []"
    by (simp add: log_head_def get32s_def sel)
  let ?B = "(bufs boot_bst)(0 := (bufs boot_bst 0)\<lparr>bdev := ROOTDEV, blockno := 100, bvalid := True,
      bdirty := True, bdata := replicate BSIZE 1\<rparr>)"
  have r: "ring ?B (rev [0..<NBUF])" using boot_ring(1) by (subst ring_cong[of _ "bufs boot_bst"]) auto
  have c: "cached (boot_bst\<lparr>bufs := ?B\<rparr>) i m \<longleftrightarrow> i = 0 \<and> m = 100" for i m
    using boot_ring(2)[of i] by (auto simp: cached_def layout)
  have sl: "slot_ok ((\<lambda>_. replicate BSIZE 0)(100 := replicate BSIZE 1)) {100} Map.empty i (?B i)" if "i < NBUF" for i
    using boot_ring(2)[OF that] boot_ring(2)[of 0] by (auto simp: slot_ok_def NBUF_def)
  have "ide_idle (boot_bst\<lparr>bufs := ?B\<rparr>)" "disk (boot_bst\<lparr>bufs := ?B\<rparr>) = (\<lambda>_ _. replicate BSIZE 0)"
    by (simp_all add: ide_idle_def boot_bst_def pst.extend_def)
  then have "cache ((\<lambda>_. replicate BSIZE 0)(100 := replicate BSIZE 1)) {100} Map.empty (boot_bst\<lparr>bufs := ?B\<rparr>)"
    using r sl unfolding cache_def c by auto
  then show "cache ((\<lambda>_. replicate BSIZE 0)(100 := replicate BSIZE 1)) {100} Map.empty logged_lst"
    by (simp add: logged_lst_def cache_bst_extend)
qed




end
