(* ===== verification/Kstring.thy ===== *)
theory Kstring
  imports Kalloc
begin

text \<open>
  \<^verbatim>\<open>string.c\<close>: the memory and string functions of the kernel, on the byte store of \<open>Kalloc\<close>. Pointers
  are addresses, a loop with a counter is a recursion on it, and \<^verbatim>\<open>strlen\<close>, which has no counter,
  runs on a bound. The lemmas relate them to closed forms: \<^verbatim>\<open>memset\<close> and \<^verbatim>\<open>memmove\<close> to the memory they
  promise, with overlapping operands, and the string functions to functions on byte lists, which the
  file system's model uses for names.
\<close>

section \<open>Operations\<close>

fun stosb :: "nat \<Rightarrow> memory \<Rightarrow> uint \<Rightarrow> uchar \<Rightarrow> memory" where
  "stosb 0 m dst c = m"
| "stosb (Suc n) m dst c = stosb n (m(dst := c)) (dst + 1) c"

fun stosl :: "nat \<Rightarrow> memory \<Rightarrow> uint \<Rightarrow> uint \<Rightarrow> memory" where
  "stosl 0 m dst w = m"
| "stosl (Suc n) m dst w = stosl n (store32 m dst w) (dst + 4) w"

text \<open>\<^verbatim>\<open>(int)dst%4 == 0\<close> holds for exactly the addresses divisible by four.\<close>

definition memset :: "memory \<Rightarrow> uint \<Rightarrow> uint \<Rightarrow> uint \<Rightarrow> memory" where
  "memset m dst c n =
    (if dst mod 4 = 0 \<and> n mod 4 = 0
     then let c = c AND 0xFF in
       stosl (unat (n div 4)) m dst (push_bit 24 c OR push_bit 16 c OR push_bit 8 c OR c)
     else stosb (unat n) m dst (ucast c))"

fun memcmp_loop :: "nat \<Rightarrow> memory \<Rightarrow> uint \<Rightarrow> uint \<Rightarrow> int" where
  "memcmp_loop 0 m s1 s2 = 0"
| "memcmp_loop (Suc n) m s1 s2 =
    (if m s1 \<noteq> m s2 then uint (m s1) - uint (m s2) else memcmp_loop n m (s1 + 1) (s2 + 1))"

definition memcmp :: "memory \<Rightarrow> uint \<Rightarrow> uint \<Rightarrow> uint \<Rightarrow> int" where
  "memcmp m v1 v2 n = memcmp_loop (unat n) m v1 v2"

fun move_down :: "nat \<Rightarrow> memory \<Rightarrow> uint \<Rightarrow> uint \<Rightarrow> memory" where
  "move_down 0 m d s = m"
| "move_down (Suc n) m d s = move_down n (m(d - 1 := m (s - 1))) (d - 1) (s - 1)"

fun move_up :: "nat \<Rightarrow> memory \<Rightarrow> uint \<Rightarrow> uint \<Rightarrow> memory" where
  "move_up 0 m d s = m"
| "move_up (Suc n) m d s = move_up n (m(d := m s)) (d + 1) (s + 1)"

definition memmove :: "memory \<Rightarrow> uint \<Rightarrow> uint \<Rightarrow> uint \<Rightarrow> memory" where
  "memmove m dst src n =
    (if src < dst \<and> src + n > dst
     then move_down (unat n) m (dst + n) (src + n)
     else move_up (unat n) m dst src)"

definition memcpy :: "memory \<Rightarrow> uint \<Rightarrow> uint \<Rightarrow> uint \<Rightarrow> memory" where
  "memcpy m dst src n = memmove m dst src n"

fun strncmp_loop :: "nat \<Rightarrow> memory \<Rightarrow> uint \<Rightarrow> uint \<Rightarrow> int" where
  "strncmp_loop 0 m p q = 0"
| "strncmp_loop (Suc n) m p q =
    (if m p \<noteq> 0 \<and> m p = m q then strncmp_loop n m (p + 1) (q + 1)
     else uint (m p) - uint (m q))"

definition strncmp :: "memory \<Rightarrow> uint \<Rightarrow> uint \<Rightarrow> uint \<Rightarrow> int" where
  "strncmp m p q n = strncmp_loop (unat n) m p q"

text \<open>
  \<^verbatim>\<open>strncpy\<close> and \<^verbatim>\<open>safestrcpy\<close> take a signed count; a count that is not positive copies nothing.
\<close>

fun strncpy_loop :: "nat \<Rightarrow> memory \<Rightarrow> uint \<Rightarrow> uint \<Rightarrow> memory" where
  "strncpy_loop 0 m s t = m"
| "strncpy_loop (Suc n) m s t =
    (let c = m t; m' = m(s := c) in
     if c \<noteq> 0 then strncpy_loop n m' (s + 1) (t + 1) else stosb n m' (s + 1) 0)"

definition strncpy :: "memory \<Rightarrow> uint \<Rightarrow> uint \<Rightarrow> int \<Rightarrow> memory" where
  "strncpy m s t n = strncpy_loop (nat n) m s t"

fun safestrcpy_loop :: "nat \<Rightarrow> memory \<Rightarrow> uint \<Rightarrow> uint \<Rightarrow> memory" where
  "safestrcpy_loop 0 m s t = m(s := 0)"
| "safestrcpy_loop (Suc n) m s t =
    (let c = m t; m' = m(s := c) in
     if c \<noteq> 0 then safestrcpy_loop n m' (s + 1) (t + 1) else m'(s + 1 := 0))"

definition safestrcpy :: "memory \<Rightarrow> uint \<Rightarrow> uint \<Rightarrow> int \<Rightarrow> memory" where
  "safestrcpy m s t n = (if n \<le> 0 then m else safestrcpy_loop (nat n - 1) m s t)"

fun strlen_loop :: "nat \<Rightarrow> memory \<Rightarrow> uint \<Rightarrow> nat \<Rightarrow> nat option" where
  "strlen_loop 0 m s n = None"
| "strlen_loop (Suc k) m s n =
    (if m (s + of_nat n) = 0 then Some n else strlen_loop k m s (n + 1))"

definition strlen :: "nat \<Rightarrow> memory \<Rightarrow> uint \<Rightarrow> nat option" where
  "strlen bound m s = strlen_loop bound m s 0"

section \<open>memset and memmove\<close>

lemma word_offset:
  fixes a d :: uint
  assumes "a \<noteq> d"
  shows "unat (a - (d + 1)) = unat (a - d) - 1"
proof -
  have "a - d \<noteq> 0" using assms by simp
  then have "unat (a - d - 1) = unat (a - d) - 1" by (rule unat_minus_one)
  then show ?thesis by (simp add: algebra_simps)
qed

lemma unat_diff_pos: "a \<noteq> d \<Longrightarrow> 0 < unat (a - d :: uint)"
  by (simp add: unat_gt_0)

lemma stosb_eq: "n < 2 ^ 32 \<Longrightarrow> stosb n m dst c = (\<lambda>a. if unat (a - dst) < n then c else m a)"
proof (induction n arbitrary: m dst)
  case (Suc n)
  have "unat (a - (dst + 1)) < n \<or> a = dst \<longleftrightarrow> unat (a - dst) < Suc n" for a
    using word_offset[of a dst] unat_diff_pos[of a dst] by (cases "a = dst") auto
  then show ?case using Suc by (auto simp: fun_eq_iff)
qed simp

lemma move_up_eq:
  assumes "n < 2 ^ 32" "\<And>k. 0 < k \<Longrightarrow> k < n \<Longrightarrow> unat (d - s) \<noteq> k"
  shows "move_up n m d s = (\<lambda>a. if unat (a - d) < n then m (s + (a - d)) else m a)"
  using assms
proof (induction n arbitrary: m d s)
  case (Suc n)
  have d: "d + 1 - (s + 1) = d - s" by simp
  have IH: "move_up n (m(d := m s)) (d + 1) (s + 1) =
      (\<lambda>a. if unat (a - (d + 1)) < n then (m(d := m s)) (s + 1 + (a - (d + 1))) else (m(d := m s)) a)"
    using Suc.prems by (intro Suc.IH) (auto simp: d)
  show ?case
  proof (rule ext)
    fix a
    show "move_up (Suc n) m d s a = (if unat (a - d) < Suc n then m (s + (a - d)) else m a)"
    proof (cases "a = d")
      case True
      then show ?thesis using IH Suc.prems(1) by simp
    next
      case False
      have "s + (a - d) \<noteq> d \<or> \<not> unat (a - d) < Suc n"
      proof (rule ccontr)
        assume "\<not> ?thesis"
        then have "a - d = d - s" "unat (a - d) < Suc n" by (auto simp: algebra_simps)
        then show False using Suc.prems(2)[of "unat (d - s)"] unat_diff_pos[OF False] by simp
      qed
      then show ?thesis
        using IH False word_offset[OF False] unat_diff_pos[OF False] by (auto simp: algebra_simps)
    qed
  qed
qed simp

lemma word_offset_down:
  fixes a d :: uint
  assumes "n < 2 ^ 32"
  shows "unat (a - (d - of_nat (Suc n))) < Suc n \<longleftrightarrow> a = d - 1 \<or> unat (a - (d - 1 - of_nat n)) < n"
proof -
  let ?x = "a - (d - 1 - of_nat n)"
  have x: "a - (d - of_nat (Suc n)) = ?x" by (simp add: algebra_simps)
  have "a = d - 1 \<longleftrightarrow> ?x = of_nat n" by (auto simp: algebra_simps)
  also have "\<dots> \<longleftrightarrow> unat ?x = n" using assms by (rule uint_of_nat_iff)
  finally show ?thesis unfolding x by auto
qed

lemma move_down_eq:
  assumes "n < 2 ^ 32" "\<And>k. 0 < k \<Longrightarrow> k < n \<Longrightarrow> unat (s - d) \<noteq> k"
  shows "move_down n m d s = (\<lambda>a. if unat (a - (d - of_nat n)) < n then m (a - d + s) else m a)"
  using assms
proof (induction n arbitrary: m d s)
  case (Suc n)
  let ?m = "m(d - 1 := m (s - 1))"
  have IH: "move_down n ?m (d - 1) (s - 1) =
      (\<lambda>a. if unat (a - (d - 1 - of_nat n)) < n then ?m (a - (d - 1) + (s - 1)) else ?m a)"
    using Suc.prems by (intro Suc.IH) (auto simp: algebra_simps)
  have n32: "n < 2 ^ 32" using Suc.prems(1) by simp
  show ?case
  proof (rule ext)
    fix a
    have clob: "a - d + s \<noteq> d - 1" if "unat (a - (d - 1 - of_nat n)) < n"
    proof
      define x where "x = a - (d - 1 - of_nat n)"
      assume "a - d + s = d - 1"
      then have sd: "s - d = of_nat n - x" by (simp add: x_def algebra_simps)
      have "x \<le> of_nat n" using that Suc.prems(1) by (simp add: word_le_nat_alt unat_of_nat32 x_def)
      then have "unat (of_nat n - x) = n - unat x"
        using Suc.prems(1) unat_of_nat32[of n] by (simp add: unat_sub)
      moreover have "unat x < n" using that by (simp add: x_def)
      then have "unat (s - d) \<noteq> n - unat x" by (intro Suc.prems(2)) simp_all
      ultimately show False unfolding sd by blast
    qed
    have a': "a - (d - 1) + (s - 1) = a - d + s" by (simp add: algebra_simps)
    show "move_down (Suc n) m d s a =
        (if unat (a - (d - of_nat (Suc n))) < Suc n then m (a - d + s) else m a)"
      unfolding word_offset_down[OF n32] move_down.simps IH a' using clob
      by (cases "a = d - 1") auto
  qed
qed simp

lemma memmove_eq:
  assumes "unat src + unat n < 2 ^ 32" "unat dst + unat n < 2 ^ 32"
  shows "memmove m dst src n = (\<lambda>a. if a - dst < n then m (src + (a - dst)) else m a)"
proof (cases "src < dst \<and> src + n > dst")
  case True
  have sn: "unat (src + n) = unat src + unat n" using assms(1) by (simp add: unat_word_ariths)
  have lt: "unat src < unat dst" "unat dst < unat src + unat n"
    using True sn by (simp_all add: word_less_nat_alt)
  have "unat (src - dst) = 2 ^ 32 + unat src - unat dst"
    using lt by (simp add: unat_sub_if')
  then have "move_down (unat n) m (dst + n) (src + n) =
      (\<lambda>a. if unat (a - (dst + n - of_nat (unat n))) < unat n then m (a - (dst + n) + (src + n)) else m a)"
    using assms lt by (intro move_down_eq) auto
  moreover have "a - (dst + n) + (src + n) = src + (a - dst)" for a by (simp add: algebra_simps)
  ultimately show ?thesis using True
    by (simp add: memmove_def word_less_nat_alt fun_eq_iff cong: if_cong)
next
  case False
  have sn: "unat (src + n) = unat src + unat n" using assms(1) by (simp add: unat_word_ariths)
  have "\<not> (unat src < unat dst \<and> unat dst < unat src + unat n)"
    using False sn by (simp add: word_less_nat_alt)
  then have "unat (dst - src) \<noteq> k" if "0 < k" "k < unat n" for k
    using that assms by (cases "unat src \<le> unat dst") (auto simp: unat_sub_if')
  then have "move_up (unat n) m dst src =
      (\<lambda>a. if unat (a - dst) < unat n then m (src + (a - dst)) else m a)"
    using assms by (intro move_up_eq) auto
  then show ?thesis using False by (auto simp: memmove_def word_less_nat_alt)
qed

lemma store32_rep:
  fixes c :: uint
  assumes "c AND 0xFF = c"
  shows "store32 m a (push_bit 24 c OR push_bit 16 c OR push_bit 8 c OR c) =
    m(a := ucast c, a + 1 := ucast c, a + 2 := ucast c, a + 3 := ucast c)"
proof -
  let ?w = "push_bit 24 c OR push_bit 16 c OR push_bit 8 c OR c"
  have c: "\<not> bit c i" if "8 \<le> i" for i
  proof -
    have "bit c i = bit (c AND mask 8) i" using assms by (simp add: mask_eq_exp_minus_1)
    then show ?thesis using that by (simp add: bit_simps)
  qed
  have "ucast (drop_bit k ?w) = (ucast c :: uchar)" if "k \<in> {0, 8, 16, 24}" for k
  proof (rule bit_word_eqI)
    fix i assume "i < LENGTH(8)"
    then show "bit (ucast (drop_bit k ?w) :: uchar) i = bit (ucast c :: uchar) i"
      using that by (auto simp: bit_simps c)
  qed
  from this[of 0] this[of 8] this[of 16] this[of 24] show ?thesis by (simp add: store32_def)
qed

lemma stosl_eq:
  assumes "c AND 0xFF = c" "4 * n < 2 ^ 32"
  shows "stosl n m dst (push_bit 24 c OR push_bit 16 c OR push_bit 8 c OR c) = stosb (4 * n) m dst (ucast c)"
  using assms(2)
proof (induction n arbitrary: m dst)
  case (Suc n)
  have k: "4 * Suc n = Suc (Suc (Suc (Suc (4 * n))))" by simp
  show ?case unfolding k stosl.simps stosb.simps store32_rep[OF assms(1)]
    using Suc by (simp add: add.assoc)
qed simp

lemma memset_eq: "memset m dst c n = memset_at m dst (ucast c) n"
proof (cases "dst mod 4 = 0 \<and> n mod 4 = 0")
  case True
  define b where "b = c AND 0xFF"
  have b: "b AND 0xFF = b" by (simp add: b_def and.assoc)
  have n4: "4 * unat (n div 4) = unat n"
  proof -
    have "unat (n mod 4) = 0" using True by simp
    then have "unat n mod 4 = 0" by (simp add: unat_mod)
    then have "4 * (unat n div 4) = unat n" using mult_div_mod_eq[of 4 "unat n"] by linarith
    then show ?thesis by (simp add: unat_div)
  qed
  have ub: "(ucast b :: uchar) = ucast c"
  proof (rule bit_word_eqI)
    fix i assume i: "i < LENGTH(8)"
    then have "bit (mask 8 :: uint) i" unfolding bit_mask_iff by simp
    moreover have "(mask 8 :: uint) = 0xFF" by (simp add: mask_eq_exp_minus_1)
    ultimately have "bit (0xFF :: uint) i" by (simp only:)
    then show "bit (ucast b :: uchar) i = bit (ucast c :: uchar) i"
      using i by (simp add: bit_simps b_def)
  qed
  have "memset m dst c n =
      stosl (unat (n div 4)) m dst (push_bit 24 b OR push_bit 16 b OR push_bit 8 b OR b)"
    using True unfolding memset_def Let_def b_def by (rule if_P)
  also have "\<dots> = stosb (unat n) m dst (ucast c)"
    using stosl_eq[OF b, of "unat (n div 4)" m dst] n4 ub uint32_less[of n] by simp
  finally show ?thesis using uint32_less[of n]
    by (simp add: stosb_eq memset_at_def word_less_nat_alt)
next
  case False
  then show ?thesis using uint32_less[of n]
    by (auto simp: memset_def stosb_eq memset_at_def word_less_nat_alt)
qed

section \<open>Strings as byte lists\<close>

definition bytes :: "memory \<Rightarrow> uint \<Rightarrow> nat \<Rightarrow> uchar list" where
  "bytes m p n = map (\<lambda>i. m (p + of_nat i)) [0..<n]"

definition cstr :: "uchar list \<Rightarrow> uchar list" where
  "cstr = takeWhile (\<lambda>c. c \<noteq> 0)"

fun strncmp_l :: "uchar list \<Rightarrow> uchar list \<Rightarrow> int" where
  "strncmp_l (x # xs) (y # ys) = (if x \<noteq> 0 \<and> x = y then strncmp_l xs ys else uint x - uint y)"
| "strncmp_l _ _ = 0"

definition strncpy_l :: "nat \<Rightarrow> uchar list \<Rightarrow> uchar list" where
  "strncpy_l n t = take n (cstr t @ replicate n 0)"

definition safestrcpy_l :: "nat \<Rightarrow> uchar list \<Rightarrow> uchar list" where
  "safestrcpy_l n t = take (n - 1) (cstr t)"

lemma bytes_0 [simp]: "bytes m p 0 = []"
  by (simp add: bytes_def)

lemma bytes_Suc: "bytes m p (Suc n) = m p # bytes m (p + 1) n"
  by (simp add: bytes_def map_upt_Suc algebra_simps del: upt_Suc)

lemma length_bytes [simp]: "length (bytes m p n) = n"
  by (simp add: bytes_def)

lemma strncmp_bytes: "strncmp m p q n = strncmp_l (bytes m p (unat n)) (bytes m q (unat n))"
proof -
  have "strncmp_loop k m p q = strncmp_l (bytes m p k) (bytes m q k)" for k
    by (induction k arbitrary: p q) (auto simp: bytes_Suc)
  then show ?thesis by (simp add: strncmp_def)
qed

lemma strncmp_l_0: "length xs = length ys \<Longrightarrow> strncmp_l xs ys = 0 \<longleftrightarrow> cstr xs = cstr ys"
  by (induction xs ys rule: strncmp_l.induct) (auto simp: cstr_def uint_0_iff simp flip: word_uint_eq_iff)

lemma cstr_pad: "\<forall>c \<in> set xs. c \<noteq> 0 \<Longrightarrow> cstr (xs @ replicate k 0) = xs"
proof (induction xs)
  case Nil
  then show ?case by (cases k) (simp_all add: cstr_def)
qed (simp add: cstr_def)

lemma cstr_nonzero: "c \<in> set (cstr t) \<Longrightarrow> c \<noteq> 0"
  unfolding cstr_def by (drule set_takeWhileD) simp

lemma cstr_strncpy_l: "cstr (strncpy_l n t) = take n (cstr t)"
proof -
  have "strncpy_l n t = take n (cstr t) @ replicate (n - length (cstr t)) 0"
    by (simp add: strncpy_l_def)
  moreover have "\<forall>c \<in> set (take n (cstr t)). c \<noteq> 0" by (auto dest!: in_set_takeD cstr_nonzero)
  ultimately show ?thesis by (simp only: cstr_pad)
qed

section \<open>Properties\<close>

text \<open>
  C35. \<^verbatim>\<open>memmove\<close> copies \<open>n\<close> bytes correctly whether or not source and destination overlap, as long as
  neither range reaches the end of the address space: each destination byte is what the source byte
  was before the call, and no other byte changes.
\<close>

theorem memmove_correct:
  assumes "unat src + unat n < 2 ^ 32" "unat dst + unat n < 2 ^ 32"
  shows "bytes (memmove m dst src n) dst (unat n) = bytes m src (unat n) \<and>
    (\<forall>a. \<not> (dst \<le> a \<and> unat a < unat dst + unat n) \<longrightarrow> memmove m dst src n a = m a)"
proof -
  have "memmove m dst src n a = m a" if "\<not> (dst \<le> a \<and> unat a < unat dst + unat n)" for a
    using that assms
    by (auto simp: memmove_eq[OF assms] word_less_nat_alt word_le_nat_alt unat_sub_if')
  moreover have "memmove m dst src n (dst + of_nat i) = m (src + of_nat i)" if "i < unat n" for i
    using that uint32_less[of n] by (simp add: memmove_eq[OF assms] word_less_nat_alt unat_of_nat32)
  ultimately show ?thesis by (simp add: bytes_def)
qed

theorem memmove_correct_witness:
  "bytes (memmove (\<lambda>a. ucast a) 2 1 3) 2 3 = [1, 2, 3] \<and> memmove (\<lambda>a. ucast a) 2 1 3 5 = 5"
  using memmove_correct[of 1 3 2 "\<lambda>a. ucast a"] by (simp add: bytes_def word_le_nat_alt upt_rec)

text \<open>
  C36. The kernel's \<^verbatim>\<open>memset\<close>, which stores whole words when address and length are divisible by four
  and bytes otherwise, fills exactly the \<open>n\<close> bytes from \<open>dst\<close> with the low byte of \<open>c\<close> in both cases.
\<close>

theorem memset_words_bytes:
  "memset m dst c n = stosb (unat n) m dst (ucast c) \<and>
   memset m dst c n a = (if a - dst < n then ucast c else m a)"
  using uint32_less[of n] by (auto simp: memset_eq memset_at_def stosb_eq word_less_nat_alt)

text \<open>
  C37. \<^verbatim>\<open>strncmp\<close> returns 0 exactly when the two strings, cut at \<open>n\<close> bytes or at their first NUL, are
  equal.
\<close>

theorem strncmp_zero_iff:
  "strncmp m p q n = 0 \<longleftrightarrow> cstr (bytes m p (unat n)) = cstr (bytes m q (unat n))"
  by (simp add: strncmp_bytes strncmp_l_0)

end
