(* ===== verification/Fs.thy ===== *)
theory Fs
  imports Log Kstring
begin

text \<open>
  \<^verbatim>\<open>fs.c\<close>: the free block map, inodes, their contents, directories and path names, on top of the log
  and the buffer cache. In-core inodes are the slots \<open>0 ..< NINODE\<close> of \<open>icache\<close>; a \<^verbatim>\<open>struct inode*\<close> is
  a slot number, the null pointer is \<open>None\<close>. The two bits of \<^verbatim>\<open>ip->flags\<close> are two Booleans. Disk
  structures are encoded into the bytes of their block. The device switch \<^verbatim>\<open>devsw\<close> is an argument of
  the operations that use it.

  Names are the bytes of a name before its NUL. An operation that fills a caller's buffer returns the
  bytes it would write there.
\<close>

section \<open>Layout\<close>

definition str :: "string \<Rightarrow> uchar list" where
  "str = map of_char"

definition NINODE :: nat where [layout]: "NINODE = 50"
definition NDEV :: nat where [layout]: "NDEV = 10"
definition ROOTINO :: uint where [layout]: "ROOTINO = 1"
definition NDIRECT :: nat where [layout]: "NDIRECT = 25"
definition NINDIRECT :: nat where [layout]: "NINDIRECT = 128"
definition MAXFILE :: nat where [layout]: "MAXFILE = NDIRECT + NINDIRECT"
definition IPB :: nat where [layout]: "IPB = 4"
definition BPB :: nat where [layout]: "BPB = 4096"
definition DIRSIZ :: nat where [layout]: "DIRSIZ = 14"
definition DINODE :: nat where [layout]: "DINODE = 128"
definition DIRENT :: nat where [layout]: "DIRENT = 16"
definition T_DIR :: ushort where [layout]: "T_DIR = 1"
definition T_FILE :: ushort where [layout]: "T_FILE = 2"
definition T_DEV :: ushort where [layout]: "T_DEV = 3"
definition DEFAULT_UID :: uint where [layout]: "DEFAULT_UID = 0"
definition DEFAULT_GID :: uint where [layout]: "DEFAULT_GID = 0"
definition DEFAULT_MODE :: uint where [layout]: "DEFAULT_MODE = 493"

record dinode =
  d_type :: ushort
  d_major :: ushort
  d_minor :: ushort
  d_nlink :: ushort
  d_uid :: uint
  d_gid :: uint
  d_mode :: uint
  d_size :: uint
  d_addrs :: "uint list"

record inode =
  idev :: uint
  inum :: uint
  iref :: int
  ibusy :: bool
  ivalid :: bool
  itype :: ushort
  imajor :: ushort
  iminor :: ushort
  inlink :: ushort
  iuid :: uint
  igid :: uint
  imode :: uint
  isize :: uint
  addrs :: "uint list"

record dirent =
  de_inum :: ushort
  de_name :: "uchar list"

record stat =
  st_type :: ushort
  st_dev :: uint
  st_ino :: uint
  st_nlink :: ushort
  st_uid :: uint
  st_gid :: uint
  st_mode :: uint
  st_size :: uint

record ist = lst +
  sb :: superblock
  icache :: "nat \<Rightarrow> inode"

text \<open>A device's two functions; either may be null. \<open>dread\<close> returns its result and the bytes read.\<close>

record 's devops =
  dread :: "(nat \<Rightarrow> int \<Rightarrow> ('s, int \<times> uchar list) kmon) option"
  dwrite :: "(nat \<Rightarrow> uchar list \<Rightarrow> ('s, int) kmon) option"

type_synonym 's devsw = "nat \<Rightarrow> 's devops"

definition IBLOCK :: "uint \<Rightarrow> superblock \<Rightarrow> uint" where
  "IBLOCK i s = i div of_nat IPB + sb_inodestart s"

definition BBLOCK :: "uint \<Rightarrow> superblock \<Rightarrow> uint" where
  "BBLOCK b s = b div of_nat BPB + sb_bmapstart s"

definition enc_dinode :: "dinode \<Rightarrow> uchar list" where
  "enc_dinode d = bytes16 (d_type d) @ bytes16 (d_major d) @ bytes16 (d_minor d) @ bytes16 (d_nlink d) @
    bytes32 (d_uid d) @ bytes32 (d_gid d) @ bytes32 (d_mode d) @ bytes32 (d_size d) @
    concat (map bytes32 (d_addrs d))"

definition dec_dinode :: "uchar list \<Rightarrow> dinode" where
  "dec_dinode bs = \<lparr>d_type = word16 (slice bs 0 2), d_major = word16 (slice bs 2 2),
    d_minor = word16 (slice bs 4 2), d_nlink = word16 (slice bs 6 2), d_uid = get32 bs 8,
    d_gid = get32 bs 12, d_mode = get32 bs 16, d_size = get32 bs 20, d_addrs = get32s bs 24 (NDIRECT + 1)\<rparr>"

definition enc_dirent :: "dirent \<Rightarrow> uchar list" where
  "enc_dirent d = bytes16 (de_inum d) @ de_name d"

definition dec_dirent :: "uchar list \<Rightarrow> dirent" where
  "dec_dirent bs = \<lparr>de_inum = word16 (slice bs 0 2), de_name = slice bs 2 DIRSIZ\<rparr>"

definition inode_of :: "nat \<Rightarrow> ('a ist_scheme, inode) kmon" where
  "inode_of i = gets (\<lambda>s. icache s i)"

definition inode_upd :: "nat \<Rightarrow> (inode \<Rightarrow> inode) \<Rightarrow> 'a ist_scheme \<Rightarrow> 'a ist_scheme" where
  "inode_upd i f s = s\<lparr>icache := (icache s)(i := f (icache s i))\<rparr>"

definition set_inode :: "nat \<Rightarrow> (inode \<Rightarrow> inode) \<Rightarrow> ('a ist_scheme, unit) kmon" where
  "set_inode i f = modify (inode_upd i f)"

section \<open>Blocks\<close>

definition bzero :: "uint \<Rightarrow> uint \<Rightarrow> ('a lst_scheme, unit) kmon" where
  "bzero dev bno =
    kbind (bread dev bno) (\<lambda>b.
    kseq (put_data b (replicate BSIZE 0)) (
    kseq (log_write b) (
    brelse b)))"

definition bit_mask :: "nat \<Rightarrow> uchar" where
  "bit_mask bi = push_bit (bi mod 8) 1"

definition balloc_in :: "uint \<Rightarrow> nat \<Rightarrow> ('a ist_scheme, uint option) kmon" where
  "balloc_in dev b =
    kbind (gets sb) (\<lambda>sb.
    kbind (bread dev (BBLOCK (of_nat b) sb)) (\<lambda>bp.
    kbind (get_buf bp) (\<lambda>r.
    case find (\<lambda>bi. bdata r ! (bi div 8) AND bit_mask bi = 0) [0..<min BPB (unat (sb_size sb) - b)] of
      Some bi \<Rightarrow>
        kseq (put_data bp ((bdata r)[bi div 8 := bdata r ! (bi div 8) OR bit_mask bi])) (
        kseq (log_write bp) (
        kseq (brelse bp) (
        kseq (bzero dev (of_nat (b + bi))) (
        ret (Some (of_nat (b + bi)))))))
    | None \<Rightarrow> kseq (brelse bp) (ret None))))"

definition balloc :: "uint \<Rightarrow> ('a ist_scheme, uint) kmon" where
  "balloc dev =
    kbind (gets (\<lambda>s. unat (sb_size (sb s)))) (\<lambda>size.
    kbind (kfind (balloc_in dev) (map (\<lambda>i. i * BPB) [0..<(size + BPB - 1) div BPB])) (\<lambda>r.
    case r of Some b \<Rightarrow> ret b | None \<Rightarrow> panic ''balloc: out of blocks''))"

definition bfree :: "uint \<Rightarrow> uint \<Rightarrow> ('a ist_scheme, unit) kmon" where
  "bfree dev b =
    kbind (readsb dev) (\<lambda>x.
    kseq (modify (\<lambda>s. s\<lparr>sb := x\<rparr>)) (
    kbind (bread dev (BBLOCK b x)) (\<lambda>bp.
    kbind (get_buf bp) (\<lambda>r.
    let bi = unat b mod BPB in
    if bdata r ! (bi div 8) AND bit_mask bi = 0 then panic ''freeing free block''
    else
      kseq (put_data bp ((bdata r)[bi div 8 := bdata r ! (bi div 8) AND NOT (bit_mask bi)])) (
      kseq (log_write bp) (
      brelse bp))))))"

section \<open>Inodes\<close>

definition iinit :: "uint \<Rightarrow> ('a ist_scheme, unit) kmon" where
  "iinit dev =
    kseq (initlock IcacheLock) (
    kbind (readsb dev) (\<lambda>x.
    kseq (modify (\<lambda>s. s\<lparr>sb := x\<rparr>)) (
    cprintf ''sb: size %d nblocks %d ninodes %d nlog %d logstart %d inodestart %d bmap start %d'')))"

text \<open>\<open>iget\<close> scans the table once: it returns a live slot for the inode or the first free one.\<close>

definition iget :: "uint \<Rightarrow> uint \<Rightarrow> ('a ist_scheme, nat) kmon" where
  "iget dev ino =
    kseq (acquire IcacheLock) (
    kbind (gets icache) (\<lambda>c.
    case find (\<lambda>i. iref (c i) > 0 \<and> idev (c i) = dev \<and> inum (c i) = ino) [0..<NINODE] of
      Some i \<Rightarrow>
        kseq (set_inode i (\<lambda>ip. ip\<lparr>iref := iref ip + 1\<rparr>)) (
        kseq (release IcacheLock) (
        ret i))
    | None \<Rightarrow>
        case find (\<lambda>i. iref (c i) = 0) [0..<NINODE] of
          None \<Rightarrow> panic ''iget: no inodes''
        | Some i \<Rightarrow>
            kseq (set_inode i (\<lambda>ip. ip\<lparr>idev := dev, inum := ino, iref := 1, ibusy := False, ivalid := False\<rparr>)) (
            kseq (release IcacheLock) (
            ret i))))"

definition dinode_off :: "uint \<Rightarrow> nat" where
  "dinode_off ino = (unat ino mod IPB) * DINODE"

definition ialloc_at :: "uint \<Rightarrow> ushort \<Rightarrow> uint \<Rightarrow> ('a ist_scheme, nat option) kmon" where
  "ialloc_at dev ty ino =
    kbind (gets sb) (\<lambda>sb.
    kbind (bread dev (IBLOCK ino sb)) (\<lambda>bp.
    kbind (get_buf bp) (\<lambda>r.
    if d_type (dec_dinode (slice (bdata r) (dinode_off ino) DINODE)) = 0 then
      kseq (put_data bp (splice (bdata r) (dinode_off ino) (enc_dinode \<lparr>d_type = ty, d_major = 0, d_minor = 0,
        d_nlink = 0, d_uid = DEFAULT_UID, d_gid = DEFAULT_GID, d_mode = DEFAULT_MODE, d_size = 0,
        d_addrs = replicate (NDIRECT + 1) 0\<rparr>))) (
      kseq (log_write bp) (
      kseq (brelse bp) (
      kbind (iget dev ino) (\<lambda>i. ret (Some i)))))
    else kseq (brelse bp) (ret None))))"

definition ialloc :: "uint \<Rightarrow> ushort \<Rightarrow> ('a ist_scheme, nat) kmon" where
  "ialloc dev ty =
    kbind (gets (\<lambda>s. unat (sb_ninodes (sb s)))) (\<lambda>n.
    kbind (kfind (\<lambda>i. ialloc_at dev ty (of_nat i)) [1..<n]) (\<lambda>r.
    case r of Some i \<Rightarrow> ret i | None \<Rightarrow> panic ''ialloc: no inodes''))"

definition to_dinode :: "inode \<Rightarrow> dinode" where
  "to_dinode ip = \<lparr>d_type = itype ip, d_major = imajor ip, d_minor = iminor ip, d_nlink = inlink ip,
    d_uid = iuid ip, d_gid = igid ip, d_mode = imode ip, d_size = isize ip, d_addrs = addrs ip\<rparr>"

definition from_dinode :: "dinode \<Rightarrow> inode \<Rightarrow> inode" where
  "from_dinode d ip = ip\<lparr>itype := d_type d, imajor := d_major d, iminor := d_minor d, inlink := d_nlink d,
    iuid := d_uid d, igid := d_gid d, imode := d_mode d, isize := d_size d, addrs := d_addrs d\<rparr>"

definition iupdate :: "nat \<Rightarrow> ('a ist_scheme, unit) kmon" where
  "iupdate i =
    kbind (inode_of i) (\<lambda>ip.
    kbind (gets sb) (\<lambda>sb.
    kbind (bread (idev ip) (IBLOCK (inum ip) sb)) (\<lambda>bp.
    kbind (get_buf bp) (\<lambda>r.
    kseq (put_data bp (splice (bdata r) (dinode_off (inum ip)) (enc_dinode (to_dinode ip)))) (
    kseq (log_write bp) (
    brelse bp))))))"

definition idup :: "nat \<Rightarrow> ('a ist_scheme, nat) kmon" where
  "idup i =
    kseq (acquire IcacheLock) (
    kseq (set_inode i (\<lambda>ip. ip\<lparr>iref := iref ip + 1\<rparr>)) (
    kseq (release IcacheLock) (
    ret i)))"

definition ilock :: "nat \<Rightarrow> ('a ist_scheme, unit) kmon" where
  "ilock i =
    kbind (inode_of i) (\<lambda>ip.
    if iref ip < 1 then panic ''ilock''
    else
      kseq (acquire IcacheLock) (
      kbind (inode_of i) (\<lambda>ip.
      if ibusy ip then sleep (ChInode i) IcacheLock
      else
        kseq (set_inode i (\<lambda>ip. ip\<lparr>ibusy := True\<rparr>)) (
        kseq (release IcacheLock) (
        kwhen (\<not> ivalid ip) (
          kbind (gets sb) (\<lambda>sb.
          kbind (bread (idev ip) (IBLOCK (inum ip) sb)) (\<lambda>bp.
          kbind (get_buf bp) (\<lambda>r.
          kseq (set_inode i (from_dinode (dec_dinode (slice (bdata r) (dinode_off (inum ip)) DINODE)))) (
          kseq (brelse bp) (
          kseq (set_inode i (\<lambda>ip. ip\<lparr>ivalid := True\<rparr>)) (
          kbind (inode_of i) (\<lambda>ip.
          if itype ip = 0 then panic ''ilock: no type'' else ret ())))))))))))))"

definition iunlock :: "nat \<Rightarrow> ('a ist_scheme, unit) kmon" where
  "iunlock i =
    kbind (inode_of i) (\<lambda>ip.
    if \<not> ibusy ip \<or> iref ip < 1 then panic ''iunlock''
    else
      kseq (acquire IcacheLock) (
      kseq (set_inode i (\<lambda>ip. ip\<lparr>ibusy := False\<rparr>)) (
      kseq (wakeup (ChInode i)) (
      release IcacheLock))))"

text \<open>\<open>itrunc\<close> frees the direct blocks, the blocks of the indirect block, and that block.\<close>

definition itrunc_direct :: "nat \<Rightarrow> nat \<Rightarrow> ('a ist_scheme, unit) kmon" where
  "itrunc_direct i k =
    kbind (inode_of i) (\<lambda>ip.
    kwhen (addrs ip ! k \<noteq> 0) (
      kseq (bfree (idev ip) (addrs ip ! k)) (
      set_inode i (\<lambda>ip. ip\<lparr>addrs := (addrs ip)[k := 0]\<rparr>))))"

definition itrunc :: "nat \<Rightarrow> ('a ist_scheme, unit) kmon" where
  "itrunc i =
    kseq (kfor (itrunc_direct i) [0..<NDIRECT]) (
    kbind (inode_of i) (\<lambda>ip.
    kseq (kwhen (addrs ip ! NDIRECT \<noteq> 0) (
      kbind (bread (idev ip) (addrs ip ! NDIRECT)) (\<lambda>bp.
      kbind (get_buf bp) (\<lambda>r.
      kseq (kfor (\<lambda>j. kwhen (get32 (bdata r) (4 * j) \<noteq> 0) (bfree (idev ip) (get32 (bdata r) (4 * j)))) [0..<NINDIRECT]) (
      kseq (brelse bp) (
      kseq (bfree (idev ip) (addrs ip ! NDIRECT)) (
      set_inode i (\<lambda>ip. ip\<lparr>addrs := (addrs ip)[NDIRECT := 0]\<rparr>))))))) ) (
    kseq (set_inode i (\<lambda>ip. ip\<lparr>isize := 0\<rparr>)) (
    iupdate i))))"

definition iput :: "nat \<Rightarrow> ('a ist_scheme, unit) kmon" where
  "iput i =
    kseq (acquire IcacheLock) (
    kbind (inode_of i) (\<lambda>ip.
    kseq (if iref ip = 1 \<and> ivalid ip \<and> inlink ip = 0 then
        if ibusy ip then panic ''iput busy''
        else
          kseq (set_inode i (\<lambda>ip. ip\<lparr>ibusy := True\<rparr>)) (
          kseq (release IcacheLock) (
          kseq (itrunc i) (
          kseq (set_inode i (\<lambda>ip. ip\<lparr>itype := 0\<rparr>)) (
          kseq (iupdate i) (
          kseq (acquire IcacheLock) (
          kseq (set_inode i (\<lambda>ip. ip\<lparr>ibusy := False, ivalid := False\<rparr>)) (
          wakeup (ChInode i))))))))
      else ret ()) (
    kseq (set_inode i (\<lambda>ip. ip\<lparr>iref := iref ip - 1\<rparr>)) (
    release IcacheLock))))"

definition iunlockput :: "nat \<Rightarrow> ('a ist_scheme, unit) kmon" where
  "iunlockput i = kseq (iunlock i) (iput i)"

section \<open>Inode contents\<close>

definition bmap :: "nat \<Rightarrow> nat \<Rightarrow> ('a ist_scheme, uint) kmon" where
  "bmap i bn =
    kbind (inode_of i) (\<lambda>ip.
    if bn < NDIRECT then
      if addrs ip ! bn = 0 then
        kbind (balloc (idev ip)) (\<lambda>a.
        kseq (set_inode i (\<lambda>ip. ip\<lparr>addrs := (addrs ip)[bn := a]\<rparr>)) (
        ret a))
      else ret (addrs ip ! bn)
    else if bn - NDIRECT < NINDIRECT then
      let n = bn - NDIRECT in
      kbind (if addrs ip ! NDIRECT = 0 then
          kbind (balloc (idev ip)) (\<lambda>a.
          kseq (set_inode i (\<lambda>ip. ip\<lparr>addrs := (addrs ip)[NDIRECT := a]\<rparr>)) (
          ret a))
        else ret (addrs ip ! NDIRECT)) (\<lambda>ind.
      kbind (bread (idev ip) ind) (\<lambda>bp.
      kbind (get_buf bp) (\<lambda>r.
      kbind (if get32 (bdata r) (4 * n) = 0 then
          kbind (balloc (idev ip)) (\<lambda>a.
          kseq (put_data bp (put32 (bdata r) (4 * n) a)) (
          kseq (log_write bp) (
          ret a)))
        else ret (get32 (bdata r) (4 * n))) (\<lambda>a.
      kseq (brelse bp) (
      ret a)))))
    else panic ''bmap: out of range'')"

definition stati :: "nat \<Rightarrow> ('a ist_scheme, stat) kmon" where
  "stati i =
    kbind (inode_of i) (\<lambda>ip.
    ret \<lparr>st_type = itype ip, st_dev = idev ip, st_ino = inum ip, st_nlink = inlink ip, st_uid = iuid ip,
      st_gid = igid ip, st_mode = imode ip, st_size = isize ip\<rparr>)"

text \<open>
  The copy loops go block by block; every round copies at least one byte, so \<open>n\<close> rounds are enough
  for \<open>n\<close> bytes. The offset cannot overflow in them because \<^verbatim>\<open>off + n\<close> has been checked.
\<close>

fun readi_loop :: "nat \<Rightarrow> nat \<Rightarrow> nat \<Rightarrow> nat \<Rightarrow> ('a ist_scheme, uchar list) kmon" where
  "readi_loop fuel i off 0 = ret []"
| "readi_loop 0 i off (Suc n) = stop Diverge"
| "readi_loop (Suc fuel) i off (Suc n) =
    kbind (bmap i (off div BSIZE)) (\<lambda>a.
    kbind (inode_of i) (\<lambda>ip.
    kbind (bread (idev ip) a) (\<lambda>bp.
    kbind (get_buf bp) (\<lambda>r.
    let m = min (Suc n) (BSIZE - off mod BSIZE) in
    kseq (brelse bp) (
    kbind (readi_loop fuel i (off + m) (Suc n - m)) (\<lambda>rest.
    ret (slice (bdata r) (off mod BSIZE) m @ rest)))))))"

definition readi :: "'a ist_scheme devsw \<Rightarrow> nat \<Rightarrow> uint \<Rightarrow> uint \<Rightarrow> ('a ist_scheme, int \<times> uchar list) kmon" where
  "readi dv i off n =
    kbind (inode_of i) (\<lambda>ip.
    if itype ip = T_DEV then
      if sint (imajor ip) < 0 \<or> sint (imajor ip) \<ge> int NDEV then ret (- 1, [])
      else (case dread (dv (unat (imajor ip))) of None \<Rightarrow> ret (- 1, []) | Some f \<Rightarrow> f i (sint n))
    else if off > isize ip \<or> off + n < off then ret (- 1, [])
    else
      let n' = (if off + n > isize ip then isize ip - off else n) in
      kbind (readi_loop (unat n') i (unat off) (unat n')) (\<lambda>bs.
      ret (sint n', bs)))"

fun writei_loop :: "nat \<Rightarrow> nat \<Rightarrow> nat \<Rightarrow> uchar list \<Rightarrow> ('a ist_scheme, unit) kmon" where
  "writei_loop fuel i off [] = ret ()"
| "writei_loop 0 i off (x # src) = stop Diverge"
| "writei_loop (Suc fuel) i off (x # src) =
    kbind (bmap i (off div BSIZE)) (\<lambda>a.
    kbind (inode_of i) (\<lambda>ip.
    kbind (bread (idev ip) a) (\<lambda>bp.
    kbind (get_buf bp) (\<lambda>r.
    let m = min (length (x # src)) (BSIZE - off mod BSIZE) in
    kseq (put_data bp (splice (bdata r) (off mod BSIZE) (take m (x # src)))) (
    kseq (log_write bp) (
    kseq (brelse bp) (
    writei_loop fuel i (off + m) (drop m (x # src)))))))))"

definition writei :: "'a ist_scheme devsw \<Rightarrow> nat \<Rightarrow> uchar list \<Rightarrow> uint \<Rightarrow> ('a ist_scheme, int) kmon" where
  "writei dv i src off =
    kbind (inode_of i) (\<lambda>ip.
    let n = of_nat (length src) :: uint in
    if itype ip = T_DEV then
      if sint (imajor ip) < 0 \<or> sint (imajor ip) \<ge> int NDEV then ret (- 1)
      else (case dwrite (dv (unat (imajor ip))) of None \<Rightarrow> ret (- 1) | Some f \<Rightarrow> f i src)
    else if off > isize ip \<or> off + n < off then ret (- 1)
    else if off + n > of_nat (MAXFILE * BSIZE) then ret (- 1)
    else
      kseq (writei_loop (length src) i (unat off) src) (
      kseq (kwhen (n > 0 \<and> off + n > isize ip) (
        kseq (set_inode i (\<lambda>ip. ip\<lparr>isize := off + n\<rparr>)) (
        iupdate i))) (
      ret (sint n))))"

section \<open>Directories\<close>

definition namecmp :: "uchar list \<Rightarrow> uchar list \<Rightarrow> int" where
  "namecmp s t = strncmp_l (strncpy_l DIRSIZ s) (strncpy_l DIRSIZ t)"

definition dir_offsets :: "uint \<Rightarrow> nat list" where
  "dir_offsets n = map (\<lambda>k. k * DIRENT) [0..<(unat n + DIRENT - 1) div DIRENT]"

definition read_dirent :: "'a ist_scheme devsw \<Rightarrow> nat \<Rightarrow> nat \<Rightarrow> ('a ist_scheme, dirent) kmon" where
  "read_dirent dv dp off =
    kbind (readi dv dp (of_nat off) (of_nat DIRENT)) (\<lambda>(n, bs).
    if n \<noteq> int DIRENT then panic ''dirlink read'' else ret (dec_dirent bs))"

definition dirlookup :: "'a ist_scheme devsw \<Rightarrow> nat \<Rightarrow> uchar list \<Rightarrow> ('a ist_scheme, (nat \<times> nat) option) kmon" where
  "dirlookup dv dp name =
    kbind (inode_of dp) (\<lambda>ip.
    if itype ip \<noteq> T_DIR then panic ''dirlookup not DIR''
    else
      kfind (\<lambda>off.
        kbind (read_dirent dv dp off) (\<lambda>de.
        if de_inum de = 0 then ret None
        else if namecmp name (de_name de) = 0 then
          kbind (iget (idev ip) (ucast (de_inum de))) (\<lambda>i. ret (Some (i, off)))
        else ret None)) (dir_offsets (isize ip)))"

definition dirlink :: "'a ist_scheme devsw \<Rightarrow> nat \<Rightarrow> uchar list \<Rightarrow> uint \<Rightarrow> ('a ist_scheme, int) kmon" where
  "dirlink dv dp name ino =
    kbind (dirlookup dv dp name) (\<lambda>r.
    case r of
      Some (i, _) \<Rightarrow> kseq (iput i) (ret (- 1))
    | None \<Rightarrow>
        kbind (inode_of dp) (\<lambda>ip.
        kbind (kfind (\<lambda>off.
          kbind (read_dirent dv dp off) (\<lambda>de. ret (if de_inum de = 0 then Some off else None))) (dir_offsets (isize ip)))
          (\<lambda>slot.
        let off = (case slot of Some off \<Rightarrow> off | None \<Rightarrow> length (dir_offsets (isize ip)) * DIRENT) in
        kbind (writei dv dp (enc_dirent \<lparr>de_inum = ucast ino, de_name = strncpy_l DIRSIZ name\<rparr>) (of_nat off)) (\<lambda>n.
        if n \<noteq> int DIRENT then panic ''dirlink'' else ret 0))))"

section \<open>Paths\<close>

definition SLASH :: uchar where [layout]: "SLASH = 47"

definition skipelem :: "uchar list \<Rightarrow> (uchar list \<times> uchar list) option" where
  "skipelem path =
    (let s = dropWhile (\<lambda>c. c = SLASH) path in
     if s = [] then None
     else
      let el = takeWhile (\<lambda>c. c \<noteq> SLASH) s in
      Some (dropWhile (\<lambda>c. c = SLASH) (dropWhile (\<lambda>c. c \<noteq> SLASH) s),
        if length el \<ge> DIRSIZ then take DIRSIZ el else el))"

text \<open>
  The walk of \<open>namex\<close>. Each element shortens the path, so its length is enough fuel. The result is
  the inode and the last path element copied to the name buffer.
\<close>

fun namex_loop :: "nat \<Rightarrow> 'a ist_scheme devsw \<Rightarrow> nat \<Rightarrow> uchar list \<Rightarrow> bool \<Rightarrow> uchar list \<Rightarrow>
    ('a ist_scheme, (nat \<times> uchar list) option) kmon" where
  "namex_loop 0 dv i path par name =
    (if skipelem path = None then if par then kseq (iput i) (ret None) else ret (Some (i, name)) else stop Diverge)"
| "namex_loop (Suc fuel) dv i path par name =
    (case skipelem path of
      None \<Rightarrow> if par then kseq (iput i) (ret None) else ret (Some (i, name))
    | Some (path', name') \<Rightarrow>
        kseq (ilock i) (
        kbind (inode_of i) (\<lambda>ip.
        if itype ip \<noteq> T_DIR then kseq (iunlockput i) (ret None)
        else if par \<and> path' = [] then kseq (iunlock i) (ret (Some (i, name')))
        else
          kbind (dirlookup dv i name') (\<lambda>r.
          case r of
            None \<Rightarrow> kseq (iunlockput i) (ret None)
          | Some (j, _) \<Rightarrow> kseq (iunlockput i) (namex_loop fuel dv j path' par name')))))"

definition namex :: "'a ist_scheme devsw \<Rightarrow> uchar list \<Rightarrow> bool \<Rightarrow> ('a ist_scheme, (nat \<times> uchar list) option) kmon" where
  "namex dv path par =
    kbind (if path \<noteq> [] \<and> hd path = SLASH then iget ROOTDEV ROOTINO
      else
        kbind the_proc (\<lambda>p.
        kbind (gets (\<lambda>s. cwd (procs s p))) (\<lambda>d.
        case d of None \<Rightarrow> stop (Undef ''null pointer'') | Some i \<Rightarrow> idup i))) (\<lambda>i.
    namex_loop (length path) dv i path par [])"

definition namei :: "'a ist_scheme devsw \<Rightarrow> uchar list \<Rightarrow> ('a ist_scheme, nat option) kmon" where
  "namei dv path = kbind (namex dv path False) (\<lambda>r. ret (map_option fst r))"

definition nameiparent :: "'a ist_scheme devsw \<Rightarrow> uchar list \<Rightarrow> ('a ist_scheme, (nat \<times> uchar list) option) kmon" where
  "nameiparent dv path = namex dv path True"

definition chown :: "'a ist_scheme devsw \<Rightarrow> uchar list \<Rightarrow> int \<Rightarrow> int \<Rightarrow> ('a ist_scheme, int) kmon" where
  "chown dv path owner grp =
    kseq (cprintf ''%d %d'') (
    kseq begin_op (
    kbind (namei dv path) (\<lambda>r.
    case r of
      None \<Rightarrow> kseq end_op (ret (- 1))
    | Some i \<Rightarrow>
        kseq (ilock i) (
        kseq (set_inode i (\<lambda>ip. ip\<lparr>iuid := of_int owner, igid := of_int grp\<rparr>)) (
        kseq (iupdate i) (
        kseq (iunlockput i) (
        kseq end_op (ret 0))))))))"

section \<open>Locking an inode\<close>

lemma inode_upd_frame [simp]:
  "put_kern k (inode_upd i f s) = inode_upd i f (put_kern k s)" "kern_ok H (inode_upd i f s) = kern_ok H s"
  "icache (inode_upd i f s) = (icache s)(i := f (icache s i))" "procs (inode_upd i f s) = procs s" "me (inode_upd i f s) = me s"
  "icache (put_kern k s) = icache s"
  by (simp_all add: inode_upd_def put_kern_def kern_frame me_def)

lemma wp_iunlock:
  assumes "kern_ok H s" "IcacheLock \<notin> H" "PtableLock \<notin> H" "ibusy (icache s i)" "1 \<le> iref (icache s i)"
    and Q: "\<And>k. kern_ok H (put_kern k s) \<Longrightarrow> Q () (inode_upd i (ibusy_update (\<lambda>_. False)) (put_kern k s))"
  shows "wp (iunlock i) Q s"
proof -
  let ?f = "inode_upd i (ibusy_update (\<lambda>_. False))"
  have "wp (acquire IcacheLock) (\<lambda>_ s. wp (kseq (wakeup (ChInode i)) (release IcacheLock)) Q (?f s)) s"
  proof (rule wp_acquire_put[OF assms(1,2)])
    fix k assume k: "kern_ok (insert IcacheLock H) (put_kern k s)"
    have "wp (wakeup (ChInode i)) (\<lambda>_. wp (release IcacheLock) Q) (?f (put_kern k s))"
    proof (rule wp_wakeup_put[of "insert IcacheLock H"])
      fix k' assume k': "kern_ok (insert IcacheLock H) (put_kern k' (?f (put_kern k s)))"
      show "wp (release IcacheLock) Q (put_kern k' (?f (put_kern k s)))"
        by (rule wp_release_put[OF k']) (use Q assms(2) in \<open>simp_all add: put_kern_twice insert_Diff_if\<close>)
    qed (use k assms(3) in simp_all)
    then show "wp (kseq (wakeup (ChInode i)) (release IcacheLock)) Q (?f (put_kern k s))" by (simp add: wp_kbind)
  qed
  then show ?thesis using assms(4,5) by (simp add: iunlock_def inode_of_def set_inode_def wp_fun)
qed

lemma wp_ilock_valid:
  assumes "kern_ok H s" "IcacheLock \<notin> H" "\<not> ibusy (icache s i)" "ivalid (icache s i)" "1 \<le> iref (icache s i)"
    and Q: "\<And>k. kern_ok H (put_kern k s) \<Longrightarrow> Q () (inode_upd i (ibusy_update (\<lambda>_. True)) (put_kern k s))"
  shows "wp (ilock i) Q s"
proof -
  let ?f = "inode_upd i (ibusy_update (\<lambda>_. True))"
  have "wp (acquire IcacheLock) (\<lambda>_ s. wp (release IcacheLock) Q (?f s) \<and> \<not> ibusy (icache s i) \<and> ivalid (icache s i)) s"
  proof (rule wp_acquire_put[OF assms(1,2)])
    fix k assume k: "kern_ok (insert IcacheLock H) (put_kern k s)"
    have "wp (release IcacheLock) Q (?f (put_kern k s))"
      by (rule wp_release_put[of "insert IcacheLock H"])
        (use k Q assms(2) in \<open>simp_all add: put_kern_twice insert_Diff_if\<close>)
    then show "wp (release IcacheLock) Q (?f (put_kern k s)) \<and> \<not> ibusy (icache (put_kern k s) i) \<and> ivalid (icache (put_kern k s) i)"
      using assms(3,4) by simp
  qed
  then show ?thesis using assms(5) unfolding ilock_def inode_of_def set_inode_def
    by (simp add: wp_simps) (erule wp_mono, simp add: wp_fun)
qed
definition locked_valid :: "nat \<Rightarrow> 'a ist_scheme \<Rightarrow> bool" where
  "locked_valid i s \<longleftrightarrow> ibusy (icache s i) \<and> ivalid (icache s i) \<and> 1 \<le> iref (icache s i)"

end
