(* ===== verification/Ring.thy ===== *)
theory Ring
  imports Prelude
begin

text \<open>
  Circular buffers with free-running counters, as pipes and the console input use them: the counters
  wrap at 32 bits and index the array modulo its size. \<open>ring_q\<close> is the queue such a buffer holds;
  the locale \<open>ring\<close> proves that storing at the write counter appends and advancing the read counter drops.

  The locale \<open>byte_queue\<close> is the contract of a bounded queue; its lemmas are about the two loops of the
  clients, storing elements until the queue is full and taking them until it is empty.
\<close>

section \<open>Counters\<close>

definition ring_q :: "nat \<Rightarrow> 'b list \<Rightarrow> uint \<Rightarrow> uint \<Rightarrow> 'b list" where
  "ring_q N buf r w = map (\<lambda>i. buf ! (unat (r + of_nat i) mod N)) [0..<unat (w - r)]"

lemma length_ring_q [simp]: "length (ring_q N buf r w) = unat (w - r)"
  by (simp add: ring_q_def)

lemma ring_q_empty: "ring_q N buf r w = [] \<longleftrightarrow> r = w"
proof -
  have "ring_q N buf r w = [] \<longleftrightarrow> unat (w - r) = 0" by (simp add: ring_q_def)
  also have "\<dots> \<longleftrightarrow> r = w" by (auto simp: unat_eq_zero)
  finally show ?thesis .
qed

lemma ring_q_append:
  fixes r w e :: uint
  assumes "unat (w - r) + unat (e - w) < 2 ^ 32"
  shows "unat (e - r) = unat (w - r) + unat (e - w)" "ring_q N buf r e = ring_q N buf r w @ ring_q N buf w e"
proof -
  have "e - r = of_nat (unat (w - r) + unat (e - w))" by simp
  then show u: "unat (e - r) = unat (w - r) + unat (e - w)" using assms by (simp only: unat_of_nat) simp
  have "r + of_nat (unat (w - r) + i) = w + of_nat i" for i by simp
  then show "ring_q N buf r e = ring_q N buf r w @ ring_q N buf w e"
    unfolding ring_q_def u by (intro nth_equalityI) (auto simp: nth_append add.commute)
qed

lemma ring_q_butlast:
  fixes r w :: uint
  assumes "r \<noteq> w"
  shows "ring_q N buf r (w - 1) = butlast (ring_q N buf r w)" "last (ring_q N buf r w) = buf ! (unat (w - 1) mod N)"
    "unat (w - 1 - r) = unat (w - r) - 1"
proof -
  have "w - r \<noteq> 0" using assms by simp
  then have "unat (w - r) = Suc (unat ((w - r) - 1))" by (simp add: unat_minus_one unat_gt_0)
  moreover have "(w - r) - 1 = w - 1 - r" by simp
  ultimately have u: "unat (w - r) = Suc (unat (w - 1 - r))" by simp
  have w: "w - 1 = r + of_nat (unat (w - 1 - r))" by simp
  show "ring_q N buf r (w - 1) = butlast (ring_q N buf r w)" "unat (w - 1 - r) = unat (w - r) - 1"
    using u by (simp_all add: ring_q_def)
  show "last (ring_q N buf r w) = buf ! (unat (w - 1) mod N)"
    by (subst w) (simp add: ring_q_def u)
qed

locale ring =
  fixes N :: nat
  assumes N_pos: "0 < N" and N_dvd: "N dvd 2 ^ 32" and N_less: "N < 2 ^ 32"
begin

lemma index_add:
  fixes r :: uint
  shows "unat (r + of_nat i) mod N = (unat r + i) mod N"
proof -
  have "unat (r + of_nat i) = (unat r + i) mod 2 ^ 32"
    by (simp add: unat_word_ariths unat_of_nat mod_add_right_eq)
  then show ?thesis using mod_mod_cancel[OF N_dvd] by simp
qed

lemma index_distinct:
  assumes "i < j" "j < i + N"
  shows "(a + i) mod N \<noteq> (a + j) mod N"
proof
  assume "(a + i) mod N = (a + j) mod N"
  then have "N dvd a + j - (a + i)" using assms mod_eq_dvd_iff_nat[of "a + i" "a + j" N] by simp
  then have "N \<le> j - i" using assms by (simp add: dvd_imp_le)
  then show False using assms by simp
qed

lemma full_iff:
  "unat (w - r) = N \<longleftrightarrow> w = r + of_nat N" for r w :: uint
proof
  assume "unat (w - r) = N"
  moreover have "w - r = of_nat (unat (w - r))" by simp
  ultimately have "w - r = of_nat N" by simp
  then show "w = r + of_nat N" by (simp add: diff_eq_eq add.commute)
next
  assume "w = r + of_nat N"
  then show "unat (w - r) = N" using N_less by (simp add: unat_of_nat)
qed

lemma push:
  assumes "unat (w - r) < N" "length buf = N"
  shows "ring_q N (buf[unat w mod N := c]) r (w + 1) = ring_q N buf r w @ [c]"
proof -
  let ?k = "unat (w - r)"
  have w: "w = r + of_nat ?k" by simp
  have "w + 1 - r = of_nat (Suc ?k)" by simp
  moreover have "Suc ?k < 2 ^ 32" using assms(1) N_less by simp
  ultimately have k1: "unat (w + 1 - r) = Suc ?k" by (simp only: unat_of_nat) simp
  have iw: "unat w mod N = (unat r + ?k) mod N" using index_add[of r ?k] w by simp
  have "buf[unat w mod N := c] ! (unat (r + of_nat i) mod N) = buf ! (unat (r + of_nat i) mod N)" if "i < ?k" for i
    using that assms index_distinct[of i ?k "unat r"] by (simp add: iw index_add)
  moreover have "buf[unat w mod N := c] ! (unat (r + of_nat ?k) mod N) = c"
    using assms(2) N_pos by simp
  ultimately show ?thesis by (simp add: ring_q_def k1)
qed

lemma pop:
  assumes "r \<noteq> w"
  shows "ring_q N buf r w = buf ! (unat r mod N) # ring_q N buf (r + 1) w"
proof -
  have "w - r \<noteq> 0" using assms by simp
  then have "unat (w - r) = Suc (unat ((w - r) - 1))" by (simp add: unat_minus_one unat_gt_0)
  moreover have "(w - r) - 1 = w - (r + 1)" by simp
  ultimately have "unat (w - r) = Suc (unat (w - (r + 1)))" by simp
  then show ?thesis by (simp add: ring_q_def map_upt_Suc algebra_simps del: upt_Suc)
qed

end

section \<open>Bounded queues\<close>

fun fill :: "('s \<Rightarrow> bool) \<Rightarrow> ('b \<Rightarrow> 's \<Rightarrow> 's) \<Rightarrow> 'b list \<Rightarrow> 's \<Rightarrow> 's \<times> 'b list" where
  "fill full push [] s = (s, [])"
| "fill full push (c # cs) s = (if full s then (s, c # cs) else fill full push cs (push c s))"

fun drain :: "('s \<Rightarrow> bool) \<Rightarrow> ('s \<Rightarrow> 'b) \<Rightarrow> ('s \<Rightarrow> 's) \<Rightarrow> nat \<Rightarrow> 's \<Rightarrow> 's \<times> 'b list" where
  "drain emp front pop 0 s = (s, [])"
| "drain emp front pop (Suc n) s =
    (if emp s then (s, []) else let (s', cs) = drain emp front pop n (pop s) in (s', front s # cs))"

locale byte_queue =
  fixes inv :: "'s \<Rightarrow> bool" and q :: "'s \<Rightarrow> 'b list" and cap :: nat
    and full :: "'s \<Rightarrow> bool" and emp :: "'s \<Rightarrow> bool"
    and push :: "'b \<Rightarrow> 's \<Rightarrow> 's" and front :: "'s \<Rightarrow> 'b" and pop :: "'s \<Rightarrow> 's"
  assumes bound: "inv s \<Longrightarrow> length (q s) \<le> cap"
    and full: "inv s \<Longrightarrow> full s \<longleftrightarrow> length (q s) = cap"
    and emp: "inv s \<Longrightarrow> emp s \<longleftrightarrow> q s = []"
    and push: "inv s \<Longrightarrow> \<not> full s \<Longrightarrow> inv (push c s) \<and> q (push c s) = q s @ [c]"
    and pop: "inv s \<Longrightarrow> \<not> emp s \<Longrightarrow> inv (pop s) \<and> q s = front s # q (pop s)"
begin

lemma fill:
  assumes "inv s" "fill full push cs s = (t, rest)"
  shows "inv t \<and> q t = q s @ take (cap - length (q s)) cs \<and> rest = drop (cap - length (q s)) cs"
  using assms
proof (induction cs arbitrary: s)
  case (Cons c cs)
  show ?case
  proof (cases "full s")
    case True
    then show ?thesis using Cons.prems full[of s] by auto
  next
    case False
    then have "length (q s) < cap" using full[of s] bound[of s] Cons.prems by auto
    then have "cap - length (q s) = Suc (cap - Suc (length (q s)))" by simp
    then show ?thesis using False Cons.IH[of "push c s"] push[of s c] Cons.prems by simp
  qed
qed auto

lemma drain:
  assumes "inv s" "drain emp front pop n s = (t, cs)"
  shows "inv t \<and> cs = take n (q s) \<and> q t = drop n (q s)"
  using assms
proof (induction n arbitrary: s t cs)
  case (Suc n)
  show ?case
  proof (cases "emp s")
    case True
    then show ?thesis using Suc.prems emp[of s] by auto
  next
    case False
    obtain t' cs' where d: "drain emp front pop n (pop s) = (t', cs')" by fastforce
    have "inv (pop s)" "q s = front s # q (pop s)" using False pop[of s] Suc.prems by auto
    moreover have "t = t'" "cs = front s # cs'" using Suc.prems False d by auto
    ultimately show ?thesis using Suc.IH[OF _ d] by simp
  qed
qed auto

text \<open>What was in the queue and what was accepted is what was taken and what is left.\<close>

lemma transfer:
  assumes "inv s" "fill full push cs s = (t, rest)" "drain emp front pop n t = (u, ds)"
  shows "q s @ cs = ds @ q u @ rest"
proof -
  have t: "inv t" "q t = q s @ take (cap - length (q s)) cs" "rest = drop (cap - length (q s)) cs"
    using fill[OF assms(1,2)] by auto
  have "q t = ds @ q u" using drain[OF t(1) assms(3)] by (metis append_take_drop_id)
  then show ?thesis using t by (metis append.assoc append_take_drop_id)
qed

end

end
