(* ===== verification/Pipe.thy ===== *)
theory Pipe
  imports Fs Ring
begin

text \<open>
  \<^verbatim>\<open>pipe.c\<close>: a pipe is a ring of \<open>PIPESIZE\<close> bytes with two counters that only grow and wrap at 32 bits.
  Pipes are found by the address of the page \<^verbatim>\<open>kalloc\<close> gave them.

  A reader or writer that must wait stops with \<open>Blocked\<close> just before its call of \<^verbatim>\<open>sleep\<close>, with the
  bytes it still has to write, so that what it has done so far and what it does after it wakes can be
  followed.
\<close>

definition PIPESIZE :: nat where [layout]: "PIPESIZE = 512"

record pipe =
  pdata :: "uchar list"
  nread :: uint
  nwrite :: uint
  readopen :: bool
  writeopen :: bool

record pist = ist +
  pipes :: "uint \<Rightarrow> pipe"

datatype 'a io = Done 'a | Blocked "uchar list"

definition set_pipe :: "uint \<Rightarrow> (pipe \<Rightarrow> pipe) \<Rightarrow> ('a pist_scheme, unit) kmon" where
  "set_pipe p f = modify (\<lambda>s. s\<lparr>pipes := (pipes s)(p := f (pipes s p))\<rparr>)"

definition am_killed :: "('a pst_scheme, bool) kmon" where
  "am_killed = kbind the_proc (\<lambda>p. gets (\<lambda>s. killed (procs s p)))"

abbreviation pipe_lock :: "uint \<Rightarrow> lockid" where "pipe_lock p \<equiv> PipeLock (unat p)"
abbreviation ch_nread :: "uint \<Rightarrow> chan" where "ch_nread p \<equiv> ChPipeR (unat p)"
abbreviation ch_nwrite :: "uint \<Rightarrow> chan" where "ch_nwrite p \<equiv> ChPipeW (unat p)"

definition pipeclose :: "uint \<Rightarrow> uint \<Rightarrow> bool \<Rightarrow> ('a pist_scheme, unit) kmon" where
  "pipeclose kend p w =
    kseq (acquire (pipe_lock p)) (
    kseq (if w then
        kseq (set_pipe p (\<lambda>q. q\<lparr>writeopen := False\<rparr>)) (wakeup (ch_nread p))
      else
        kseq (set_pipe p (\<lambda>q. q\<lparr>readopen := False\<rparr>)) (wakeup (ch_nwrite p))) (
    kbind (gets (\<lambda>s. pipes s p)) (\<lambda>q.
    if \<not> readopen q \<and> \<not> writeopen q then
      kseq (release (pipe_lock p)) (kfree kend p)
    else release (pipe_lock p))))"

fun pipewrite_loop :: "uint \<Rightarrow> uchar list \<Rightarrow> ('a pist_scheme, uchar list) kmon" where
  "pipewrite_loop p [] = ret []"
| "pipewrite_loop p (c # cs) =
    kbind (gets (\<lambda>s. pipes s p)) (\<lambda>q.
    if nwrite q = nread q + of_nat PIPESIZE then ret (c # cs)
    else
      kseq (set_pipe p (\<lambda>q. q\<lparr>pdata := (pdata q)[unat (nwrite q) mod PIPESIZE := c], nwrite := nwrite q + 1\<rparr>)) (
      pipewrite_loop p cs))"

definition pipewrite_run :: "uint \<Rightarrow> int \<Rightarrow> uchar list \<Rightarrow> ('a pist_scheme, int io) kmon" where
  "pipewrite_run p n src =
    kbind (pipewrite_loop p src) (\<lambda>rest.
    if rest = [] then
      kseq (wakeup (ch_nread p)) (
      kseq (release (pipe_lock p)) (
      ret (Done n)))
    else
      kbind (gets (\<lambda>s. pipes s p)) (\<lambda>q.
      kbind am_killed (\<lambda>k.
      if \<not> readopen q \<or> k then
        kseq (release (pipe_lock p)) (ret (Done (- 1)))
      else
        kseq (wakeup (ch_nread p)) (
        ret (Blocked rest)))))"

definition pipewrite :: "uint \<Rightarrow> int \<Rightarrow> uchar list \<Rightarrow> ('a pist_scheme, int) kmon" where
  "pipewrite p n src =
    kseq (acquire (pipe_lock p)) (
    kbind (pipewrite_run p n src) (\<lambda>r.
    case r of Done v \<Rightarrow> ret v | Blocked _ \<Rightarrow> sleep (ch_nwrite p) (pipe_lock p)))"

fun piperead_loop :: "uint \<Rightarrow> nat \<Rightarrow> ('a pist_scheme, uchar list) kmon" where
  "piperead_loop p 0 = ret []"
| "piperead_loop p (Suc n) =
    kbind (gets (\<lambda>s. pipes s p)) (\<lambda>q.
    if nread q = nwrite q then ret []
    else
      kseq (set_pipe p (\<lambda>q. q\<lparr>nread := nread q + 1\<rparr>)) (
      kbind (piperead_loop p n) (\<lambda>cs.
      ret (pdata q ! (unat (nread q) mod PIPESIZE) # cs))))"

definition piperead_run :: "uint \<Rightarrow> int \<Rightarrow> ('a pist_scheme, (int \<times> uchar list) io) kmon" where
  "piperead_run p n =
    kbind (gets (\<lambda>s. pipes s p)) (\<lambda>q.
    if nread q = nwrite q \<and> writeopen q then
      kbind am_killed (\<lambda>k.
      if k then kseq (release (pipe_lock p)) (ret (Done (- 1, [])))
      else ret (Blocked []))
    else
      kbind (piperead_loop p (nat n)) (\<lambda>cs.
      kseq (wakeup (ch_nwrite p)) (
      kseq (release (pipe_lock p)) (
      ret (Done (int (length cs), cs))))))"

definition piperead :: "uint \<Rightarrow> int \<Rightarrow> ('a pist_scheme, int \<times> uchar list) kmon" where
  "piperead p n =
    kseq (acquire (pipe_lock p)) (
    kbind (piperead_run p n) (\<lambda>r.
    case r of Done v \<Rightarrow> ret v | Blocked _ \<Rightarrow> sleep (ch_nread p) (pipe_lock p)))"

section \<open>The pipe as a queue\<close>

definition pipe_q :: "pipe \<Rightarrow> uchar list" where
  "pipe_q q = ring_q PIPESIZE (pdata q) (nread q) (nwrite q)"

definition pipe_ok :: "pipe \<Rightarrow> bool" where
  "pipe_ok q \<longleftrightarrow> length (pdata q) = PIPESIZE \<and> unat (nwrite q - nread q) \<le> PIPESIZE"

definition pipe_full :: "pipe \<Rightarrow> bool" where
  "pipe_full q \<longleftrightarrow> nwrite q = nread q + of_nat PIPESIZE"

definition pipe_emp :: "pipe \<Rightarrow> bool" where
  "pipe_emp q \<longleftrightarrow> nread q = nwrite q"

definition pipe_push :: "uchar \<Rightarrow> pipe \<Rightarrow> pipe" where
  "pipe_push c q = q\<lparr>pdata := (pdata q)[unat (nwrite q) mod PIPESIZE := c], nwrite := nwrite q + 1\<rparr>"

definition pipe_front :: "pipe \<Rightarrow> uchar" where
  "pipe_front q = pdata q ! (unat (nread q) mod PIPESIZE)"

definition pipe_pop :: "pipe \<Rightarrow> pipe" where
  "pipe_pop q = q\<lparr>nread := nread q + 1\<rparr>"

interpretation pring: ring PIPESIZE
  by unfold_locales (simp_all add: layout)

interpretation pqueue: byte_queue pipe_ok pipe_q PIPESIZE pipe_full pipe_emp pipe_push pipe_front pipe_pop
proof
  fix q c
  assume ok: "pipe_ok q"
  show "length (pipe_q q) \<le> PIPESIZE" using ok by (simp add: pipe_q_def pipe_ok_def)
  show f: "pipe_full q \<longleftrightarrow> length (pipe_q q) = PIPESIZE"
    by (simp add: pipe_q_def pipe_full_def pring.full_iff)
  show "pipe_emp q \<longleftrightarrow> pipe_q q = []" by (simp add: pipe_q_def pipe_emp_def ring_q_empty)
  show "pipe_ok (pipe_push c q) \<and> pipe_q (pipe_push c q) = pipe_q q @ [c]" if "\<not> pipe_full q"
  proof -
    have lt: "unat (nwrite q - nread q) < PIPESIZE" "length (pdata q) = PIPESIZE"
      using ok that f by (auto simp: pipe_ok_def pipe_q_def)
    have p: "pipe_q (pipe_push c q) = pipe_q q @ [c]"
      using pring.push[OF lt] by (simp add: pipe_q_def pipe_push_def)
    then have "length (pipe_q (pipe_push c q)) = Suc (length (pipe_q q))" by simp
    then show ?thesis using p lt by (simp add: pipe_ok_def pipe_q_def pipe_push_def)
  qed
  show "pipe_ok (pipe_pop q) \<and> pipe_q q = pipe_front q # pipe_q (pipe_pop q)" if "\<not> pipe_emp q"
  proof -
    have p: "pipe_q q = pipe_front q # pipe_q (pipe_pop q)"
      using pring.pop[of "nread q" "nwrite q"] that by (simp add: pipe_q_def pipe_emp_def pipe_pop_def pipe_front_def)
    then have "length (pipe_q q) = Suc (length (pipe_q (pipe_pop q)))" by simp
    then show ?thesis using p ok by (simp add: pipe_ok_def pipe_q_def pipe_pop_def)
  qed
qed

abbreviation pfill :: "uchar list \<Rightarrow> pipe \<Rightarrow> pipe \<times> uchar list" where
  "pfill \<equiv> fill pipe_full pipe_push"

abbreviation pdrain :: "nat \<Rightarrow> pipe \<Rightarrow> pipe \<times> uchar list" where
  "pdrain \<equiv> drain pipe_emp pipe_front pipe_pop"

lemma pfill_open [simp]:
  "readopen (fst (pfill cs q)) = readopen q" "writeopen (fst (pfill cs q)) = writeopen q"
  by (induction cs arbitrary: q) (simp_all add: pipe_push_def)

lemma pdrain_open [simp]:
  "readopen (fst (pdrain n q)) = readopen q" "writeopen (fst (pdrain n q)) = writeopen q"
  by (induction n arbitrary: q) (simp_all add: pipe_pop_def case_prod_beta)

section \<open>The loops\<close>

lemma pipewrite_loop_Cons:
  "pipewrite_loop p (c # cs) s =
    (if pipe_full (pipes s p) then Inr (c # cs, s)
     else pipewrite_loop p cs (s\<lparr>pipes := (pipes s)(p := pipe_push c (pipes s p))\<rparr>))"
  by (simp only: pipewrite_loop.simps kbind_def gets_def set_pipe_def modify_def ret_def pipe_full_def pipe_push_def
      sum.case prod.case if_distribR)

lemma piperead_loop_Suc:
  "piperead_loop p (Suc n) s =
    (if pipe_emp (pipes s p) then Inr ([], s)
     else case piperead_loop p n (s\<lparr>pipes := (pipes s)(p := pipe_pop (pipes s p))\<rparr>) of
       Inl e \<Rightarrow> Inl e | Inr (cs, t) \<Rightarrow> Inr (pipe_front (pipes s p) # cs, t))"
  by (simp only: piperead_loop.simps kbind_def gets_def set_pipe_def modify_def ret_def pipe_emp_def pipe_pop_def
      pipe_front_def sum.case prod.case if_distribR)

declare pipewrite_loop.simps(2) [simp del] piperead_loop.simps(2) [simp del]

lemma pipewrite_loop_eq:
  "pipewrite_loop p cs s =
    Inr (snd (pfill cs (pipes s p)), s\<lparr>pipes := (pipes s)(p := fst (pfill cs (pipes s p)))\<rparr>)"
  by (induction cs arbitrary: s) (simp_all add: ret_def pipewrite_loop_Cons)

lemma piperead_loop_eq:
  "piperead_loop p n s =
    Inr (snd (pdrain n (pipes s p)), s\<lparr>pipes := (pipes s)(p := fst (pdrain n (pipes s p)))\<rparr>)"
  by (induction n arbitrary: s) (simp_all add: ret_def piperead_loop_Suc case_prod_beta)

section \<open>Runs of readers and writers\<close>

lemma put_kern_pipes [simp]:
  "pipes (put_kern k s) = pipes s" "pipes_update f (put_kern k s) = put_kern k (pipes_update f s)"
  "kern_ok H (pipes_update f s) = kern_ok H s" "kern_ok H (put_kern k (pipes_update f s)) = kern_ok H (put_kern k s)"
  "me (pipes_update f s) = me s" "procs (pipes_update f s) = procs s"
  by (simp_all add: put_kern_def kern_frame me_def)

lemma sleepers_pipes [simp]:
  "sleepers ch (pipes_update f s) = sleepers ch s"
  "sleepers ch (put_kern k (pipes_update f s)) = sleepers ch (put_kern k s)"
  by (simp_all add: sleepers_def)

lemma woken_state_pipes [simp]: "woken_state ch (pipes_update f s) = woken_state ch s"
  by (simp add: woken_state_def fun_eq_iff)

lemma pipes_more: "pst.more t = pst.more s \<Longrightarrow> pipes t = pipes s"
  by (cases s; cases t) simp

lemma wp_am_killed [wp_simps]:
  "wp am_killed Q s \<longleftrightarrow> (\<exists>m. me s = Some m \<and> Q (killed (procs s m)) s)"
  by (simp add: am_killed_def wp_simps)

text \<open>
  The result of a run of \<open>pipewrite\<close> that stored \<open>src\<close> up to \<open>rest\<close>: finished, failed because nobody can
  read or the writer was killed, or blocked. Only a failing run does not wake the readers.
\<close>

definition write_result :: "int \<Rightarrow> uchar list \<Rightarrow> bool \<Rightarrow> int io" where
  "write_result n rest dead = (if rest = [] then Done n else if dead then Done (- 1) else Blocked rest)"

lemma wp_pipewrite_run:
  assumes k: "kern_ok {pipe_lock p} s" and m: "me s = Some m"
    and fl: "pfill src (pipes s p) = (q', rest)"
    and dead: "dead \<longleftrightarrow> \<not> readopen (pipes s p) \<or> killed (procs s m)"
    and Q: "\<And>k. kern_ok (if rest \<noteq> [] \<and> \<not> dead then {pipe_lock p} else {}) (put_kern k s) \<Longrightarrow>
      (\<And>q. state (procs k q) = (if rest \<noteq> [] \<and> dead then state (procs s q) else woken_state (ch_nread p) s q)) \<Longrightarrow>
      Q (write_result n rest dead) (put_kern k (s\<lparr>pipes := (pipes s)(p := q')\<rparr>))"
  shows "wp (pipewrite_run p n src) Q s"
proof -
  let ?s = "s\<lparr>pipes := (pipes s)(p := q')\<rparr>"
  have lp: "wp (pipewrite_loop p src) R s = R rest ?s" for R
    by (simp add: wp_def pipewrite_loop_eq fl)
  have ro: "readopen q' = readopen (pipes s p)" using pfill_open(1)[of src "pipes s p"] fl by simp
  have k': "kern_ok {pipe_lock p} ?s" using k by simp
  have wk: "wp (wakeup (ch_nread p)) R ?s"
    if "\<And>k. kern_ok {pipe_lock p} (put_kern k s) \<Longrightarrow> (\<And>q. state (procs (put_kern k s) q) = woken_state (ch_nread p) s q) \<Longrightarrow>
      R () (put_kern k ?s)" for R
    by (rule wp_wakeup_st[OF k']) (use that in \<open>auto\<close>)
  have rl: "wp (release (pipe_lock p)) R (put_kern k0 ?s)"
    if "kern_ok {pipe_lock p} (put_kern k0 s)"
      "\<And>k. kern_ok {} (put_kern k s) \<Longrightarrow> (\<And>q. state (procs (put_kern k s) q) = state (procs (put_kern k0 s) q)) \<Longrightarrow>
      R () (put_kern k ?s)" for R k0
    by (rule wp_release_st[where H = "{pipe_lock p}"]) (use that in \<open>auto\<close>)
  consider "rest = []" | "rest \<noteq> []" "dead" | "rest \<noteq> []" "\<not> dead" by blast
  then show ?thesis
  proof cases
    case 1
    show ?thesis unfolding pipewrite_run_def wp_kbind lp
      using 1 Q by (auto simp: wp_simps write_result_def intro!: wk rl)
  next
    case 2
    have "wp (release (pipe_lock p)) (\<lambda>_. Q (Done (- 1))) ?s"
      by (rule wp_release_st[OF k']) (use 2 Q in \<open>auto simp: write_result_def\<close>)
    then show ?thesis unfolding pipewrite_run_def wp_kbind lp
      using 2 m by (auto simp: wp_simps ro dead)
  next
    case 3
    show ?thesis unfolding pipewrite_run_def wp_kbind lp
      using 3 m Q by (auto simp: wp_simps ro dead write_result_def intro!: wk)
  qed
qed

lemma wp_piperead_run:
  assumes k: "kern_ok {pipe_lock p} s" and m: "me s = Some m"
    and dr: "pdrain (nat n) (pipes s p) = (q', cs)"
  defines "wait \<equiv> pipe_emp (pipes s p) \<and> writeopen (pipes s p)"
  assumes W: "wait \<Longrightarrow> \<not> killed (procs s m) \<Longrightarrow> Q (Blocked []) s"
    and K: "\<And>k. wait \<Longrightarrow> killed (procs s m) \<Longrightarrow> kern_ok {} (put_kern k s) \<Longrightarrow>
      (\<And>q. state (procs k q) = state (procs s q)) \<Longrightarrow> Q (Done (- 1, [])) (put_kern k s)"
    and D: "\<And>k. \<not> wait \<Longrightarrow> kern_ok {} (put_kern k s) \<Longrightarrow> (\<And>q. state (procs k q) = woken_state (ch_nwrite p) s q) \<Longrightarrow>
      Q (Done (int (length cs), cs)) (put_kern k (s\<lparr>pipes := (pipes s)(p := q')\<rparr>))"
  shows "wp (piperead_run p n) Q s"
proof -
  let ?s = "s\<lparr>pipes := (pipes s)(p := q')\<rparr>"
  have lp: "wp (piperead_loop p (nat n)) R s = R cs ?s" for R
    by (simp add: wp_def piperead_loop_eq dr)
  have e: "nread (pipes s p) = nwrite (pipes s p) \<and> writeopen (pipes s p) \<longleftrightarrow> wait" by (simp add: wait_def pipe_emp_def)
  have rl: "wp (release (pipe_lock p)) R (put_kern k0 ?s)"
    if "kern_ok {pipe_lock p} (put_kern k0 s)"
      "\<And>k. kern_ok {} (put_kern k s) \<Longrightarrow> (\<And>q. state (procs k q) = state (procs k0 q)) \<Longrightarrow> R () (put_kern k ?s)" for R k0
    by (rule wp_release_st[where H = "{pipe_lock p}"]) (use that in auto)
  show ?thesis
  proof (cases "wait")
    case True
    have "wp (release (pipe_lock p)) (\<lambda>_. Q (Done (- 1, []))) s" if "killed (procs s m)"
      by (rule wp_release_st[OF k]) (use that True K in auto)
    then show ?thesis unfolding piperead_run_def using True W m by (auto simp: wp_simps e)
  next
    case False
    have "wp (wakeup (ch_nwrite p)) (\<lambda>_. wp (kseq (release (pipe_lock p)) (ret (Done (int (length cs), cs)))) Q) ?s"
      by (rule wp_wakeup_st[where H = "{pipe_lock p}"]) (use k False D in \<open>auto simp: wp_simps intro!: rl\<close>)
    then show ?thesis unfolding piperead_run_def using False by (simp add: wp_simps e lp)
  qed
qed

section \<open>Readers and writers in the system\<close>

definition or_sleep :: "chan \<Rightarrow> lockid \<Rightarrow> 'r io \<Rightarrow> ('a pist_scheme, 'r io) kmon" where
  "or_sleep ch lk r =
    (case r of
      Done v \<Rightarrow> ret (Done v)
    | Blocked rest \<Rightarrow> kseq (kseq (sleep_enter ch (Some lk)) scheduler_back) (ret (Blocked rest)))"

definition pipewrite_go :: "uint \<Rightarrow> int \<Rightarrow> uchar list \<Rightarrow> ('a pist_scheme, int io) kmon" where
  "pipewrite_go p n src =
    kseq (acquire (pipe_lock p)) (
    kbind (pipewrite_run p n src) (or_sleep (ch_nwrite p) (pipe_lock p)))"

definition piperead_go :: "uint \<Rightarrow> int \<Rightarrow> ('a pist_scheme, (int \<times> uchar list) io) kmon" where
  "piperead_go p n =
    kseq (acquire (pipe_lock p)) (
    kbind (piperead_run p n) (or_sleep (ch_nread p) (pipe_lock p)))"

definition running :: "nat \<Rightarrow> 'a pst_scheme \<Rightarrow> bool" where
  "running m s \<longleftrightarrow> kern_ok {} s \<and> me s = Some m \<and> m < NPROC \<and> state (procs s m) = RUNNING"

lemma wp_or_sleep:
  assumes D: "\<And>v. r = Done v \<Longrightarrow> Q (Done v) t"
    and B: "\<And>rest. r = Blocked rest \<Longrightarrow> kern_ok {lk} t \<and> me t = Some m \<and> m < NPROC \<and> state (procs t m) = RUNNING"
    and Q: "\<And>rest u. r = Blocked rest \<Longrightarrow> pipes u = pipes t \<Longrightarrow> kern_ok {} u \<Longrightarrow>
      (\<And>ch'. sleepers ch' u = (if ch' = ch then insert m (sleepers ch t) else sleepers ch' t)) \<Longrightarrow> Q (Blocked rest) u"
  shows "wp (or_sleep ch lk r) Q t"
proof (cases r)
  case (Done v)
  then show ?thesis using D by (simp add: or_sleep_def wp_simps)
next
  case (Blocked rest)
  have "wp (kseq (sleep_enter ch (Some lk)) scheduler_back) (\<lambda>_. wp (ret (Blocked rest)) Q) t"
    by (rule wp_sleep_off) (use B[OF Blocked] Q[OF Blocked] in \<open>auto simp: wp_ret intro: pipes_more\<close>)
  then show ?thesis using Blocked by (simp add: or_sleep_def wp_kbind)
qed

lemma wp_pipewrite_go:
  assumes r: "running m s" and fl: "pfill src (pipes s p) = (q', rest)"
    and dead: "dead \<longleftrightarrow> \<not> readopen (pipes s p) \<or> killed (procs s m)"
    and Q: "\<And>t. pipes t = (pipes s)(p := q') \<Longrightarrow> kern_ok {} t \<Longrightarrow>
      (\<And>ch. sleepers ch t =
        (if rest \<noteq> [] \<and> dead then sleepers ch s
         else if ch = ch_nread p then {}
         else if ch = ch_nwrite p \<and> rest \<noteq> [] then insert m (sleepers ch s) else sleepers ch s)) \<Longrightarrow>
      Q (write_result n rest dead) t"
  shows "wp (pipewrite_go p n src) Q s"
proof -
  have k: "kern_ok {} s" and m: "me s = Some m" "m < NPROC" "state (procs s m) = RUNNING" "m \<notin> sleepers (ch_nread p) s"
    using r by (simp_all add: running_def sleepers_def)
  show ?thesis unfolding pipewrite_go_def wp_kbind
  proof (rule wp_acquire_st[OF k])
    fix k1 assume k1: "kern_ok {pipe_lock p} (put_kern k1 s)"
      "\<And>q. state (procs (put_kern k1 s) q) = state (procs s q)"
    show "wp (pipewrite_run p n src) (\<lambda>r. wp (or_sleep (ch_nwrite p) (pipe_lock p) r) Q) (put_kern k1 s)"
    proof (rule wp_pipewrite_run[where m = m and q' = q' and rest = rest and dead = dead])
      fix k2
      let ?t = "put_kern k2 (put_kern k1 s\<lparr>pipes := (pipes (put_kern k1 s))(p := q')\<rparr>)"
      assume a: "kern_ok (if rest \<noteq> [] \<and> \<not> dead then {pipe_lock p} else {}) (put_kern k2 (put_kern k1 s))"
        "\<And>q. state (procs k2 q) = (if rest \<noteq> [] \<and> dead then state (procs (put_kern k1 s) q)
          else woken_state (ch_nread p) (put_kern k1 s) q)"
      have st: "state (procs k2 q) = (if rest \<noteq> [] \<and> dead then state (procs s q) else woken_state (ch_nread p) s q)" for q
        using a(2)[of q] k1(2) by (simp add: woken_state_def sleepers_def)
      have sl: "sleepers ch ?t = (if rest \<noteq> [] \<and> dead then sleepers ch s else if ch = ch_nread p then {} else sleepers ch s)" for ch
        using st by (auto simp: sleepers_def woken_state_def)
      have run: "state (procs ?t m) = RUNNING" using st[of m] m by (simp add: woken_state_def)
      have pp: "pipes ?t = (pipes s)(p := q')" by simp
      show "wp (or_sleep (ch_nwrite p) (pipe_lock p) (write_result n rest dead)) Q ?t"
      proof (rule wp_or_sleep[where m = m])
        fix v assume v: "write_result n rest dead = Done v"
        then have "\<not> (rest \<noteq> [] \<and> \<not> dead)" by (auto simp: write_result_def split: if_splits)
        then show "Q (Done v) ?t" using Q[OF pp] a(1) sl v by auto
      next
        fix rest' assume "write_result n rest dead = Blocked rest'"
        then show "kern_ok {pipe_lock p} ?t \<and> me ?t = Some m \<and> m < NPROC \<and> state (procs ?t m) = RUNNING"
          using a(1) m run by (auto simp: write_result_def split: if_splits)
      next
        fix rest' and u :: "'a pist_scheme"
        assume u: "write_result n rest dead = Blocked rest'" "pipes u = pipes ?t" "kern_ok {} u"
          "\<And>ch'. sleepers ch' u = (if ch' = ch_nwrite p then insert m (sleepers (ch_nwrite p) ?t) else sleepers ch' ?t)"
        have bl: "rest \<noteq> []" "\<not> dead" using u(1) by (auto simp: write_result_def split: if_splits)
        show "Q (Blocked rest') u" using Q[of u] u pp sl bl by auto
      qed
    qed (use k1 m fl dead in simp_all)
  qed simp
qed

lemma wp_piperead_go:
  assumes r: "running m s" and dr: "pdrain (nat n) (pipes s p) = (q', cs)"
    and wait: "wait \<longleftrightarrow> pipe_emp (pipes s p) \<and> writeopen (pipes s p)"
    and Q: "\<And>t. pipes t = (if wait then pipes s else (pipes s)(p := q')) \<Longrightarrow> kern_ok {} t \<Longrightarrow>
      (\<And>ch. sleepers ch t =
        (if wait then if killed (procs s m) \<or> ch \<noteq> ch_nread p then sleepers ch s else insert m (sleepers ch s)
         else if ch = ch_nwrite p then {} else sleepers ch s)) \<Longrightarrow>
      Q (if wait then if killed (procs s m) then Done (- 1, []) else Blocked [] else Done (int (length cs), cs)) t"
  shows "wp (piperead_go p n) Q s"
proof -
  have k: "kern_ok {} s" and m: "me s = Some m" "m < NPROC" "state (procs s m) = RUNNING"
    using r by (simp_all add: running_def)
  show ?thesis unfolding piperead_go_def wp_kbind
  proof (rule wp_acquire_st[OF k])
    fix k1 assume k1: "kern_ok {pipe_lock p} (put_kern k1 s)"
      "\<And>q. state (procs (put_kern k1 s) q) = state (procs s q)"
    have ws: "woken_state ch (put_kern k1 s) q = woken_state ch s q" for ch q
      using k1(2) by (simp add: woken_state_def sleepers_def)
    show "wp (piperead_run p n) (\<lambda>r. wp (or_sleep (ch_nread p) (pipe_lock p) r) Q) (put_kern k1 s)"
    proof (rule wp_piperead_run[where m = m and q' = q' and cs = cs])
      assume w: "pipe_emp (pipes (put_kern k1 s) p) \<and> writeopen (pipes (put_kern k1 s) p)" "\<not> killed (procs (put_kern k1 s) m)"
      show "wp (or_sleep (ch_nread p) (pipe_lock p) (Blocked [])) Q (put_kern k1 s)"
      proof (rule wp_or_sleep[where m = m])
        fix rest and u :: "'a pist_scheme"
        assume "Blocked [] = Blocked rest" "pipes u = pipes (put_kern k1 s)" "kern_ok {} u"
          "\<And>ch'. sleepers ch' u = (if ch' = ch_nread p then insert m (sleepers (ch_nread p) (put_kern k1 s))
            else sleepers ch' (put_kern k1 s))"
        then show "Q (Blocked rest) u"
          using Q[of u] w wait sleepers_same[of "put_kern k1 s" s] k1(2) by auto
      qed (use k1 m in auto)
    next
      fix k2 assume w: "pipe_emp (pipes (put_kern k1 s) p) \<and> writeopen (pipes (put_kern k1 s) p)"
        "killed (procs (put_kern k1 s) m)" "kern_ok {} (put_kern k2 (put_kern k1 s))"
        "\<And>q. state (procs k2 q) = state (procs (put_kern k1 s) q)"
      then show "wp (or_sleep (ch_nread p) (pipe_lock p) (Done (- 1, []))) Q (put_kern k2 (put_kern k1 s))"
        using Q[of "put_kern k2 s"] wait k1(2) by (simp add: or_sleep_def wp_simps sleepers_def)
    next
      fix k2 assume w: "\<not> (pipe_emp (pipes (put_kern k1 s) p) \<and> writeopen (pipes (put_kern k1 s) p))"
        "kern_ok {} (put_kern k2 (put_kern k1 s))" "\<And>q. state (procs k2 q) = woken_state (ch_nwrite p) (put_kern k1 s) q"
      have sl: "sleepers ch (put_kern k2 s) = (if ch = ch_nwrite p then {} else sleepers ch s)" for ch
        by (rule sleepers_woken) (use w ws in auto)
      have "\<not> wait" using w(1) wait by simp
      then show "wp (or_sleep (ch_nread p) (pipe_lock p) (Done (int (length cs), cs))) Q
        (put_kern k2 (put_kern k1 s\<lparr>pipes := (pipes (put_kern k1 s))(p := q')\<rparr>))"
        using Q[of "put_kern k2 (s\<lparr>pipes := (pipes s)(p := q')\<rparr>)"] w(2) by (simp add: or_sleep_def wp_simps sl)
    qed (use k1 m dr in simp_all)
  qed simp
qed

definition close_end :: "bool \<Rightarrow> pipe \<Rightarrow> pipe" where
  "close_end w q = (if w then q\<lparr>writeopen := False\<rparr> else q\<lparr>readopen := False\<rparr>)"

lemma wp_pipeclose:
  assumes k: "kern_ok {} s" and op: "if w then readopen (pipes s p) else writeopen (pipes s p)"
    and Q: "\<And>t. pipes t = (pipes s)(p := close_end w (pipes s p)) \<Longrightarrow> kern_ok {} t \<Longrightarrow>
      (\<And>ch. sleepers ch t = (if ch = (if w then ch_nread p else ch_nwrite p) then {} else sleepers ch s)) \<Longrightarrow> Q () t"
  shows "wp (pipeclose kend p w) Q s"
proof -
  let ?q = "close_end w (pipes s p)" and ?ch = "if w then ch_nread p else ch_nwrite p"
  have op': "\<not> (\<not> readopen ?q \<and> \<not> writeopen ?q)" using op by (auto simp: close_end_def)
  have br: "(if w then kseq (set_pipe p (\<lambda>q. q\<lparr>writeopen := False\<rparr>)) (wakeup (ch_nread p))
      else kseq (set_pipe p (\<lambda>q. q\<lparr>readopen := False\<rparr>)) (wakeup (ch_nwrite p))) =
    kseq (set_pipe p (close_end w)) (wakeup ?ch)"
    by (simp add: close_end_def[abs_def])
  let ?rest = "kbind (gets (\<lambda>s. pipes s p)) (\<lambda>q. if \<not> readopen q \<and> \<not> writeopen q
    then kseq (release (pipe_lock p)) (kfree kend p) else release (pipe_lock p))"
  have "wp (acquire (pipe_lock p)) (\<lambda>_. wp (kseq (kseq (set_pipe p (close_end w)) (wakeup ?ch)) ?rest) Q) s"
  proof (rule wp_acquire_st[OF k])
    fix k1 let ?s = "put_kern k1 (s\<lparr>pipes := (pipes s)(p := ?q)\<rparr>)"
    assume k1: "kern_ok {pipe_lock p} (put_kern k1 s)" "\<And>q. state (procs (put_kern k1 s) q) = state (procs s q)"
    have ws: "woken_state ch ?s q = woken_state ch s q" for ch q
      using k1(2) by (simp add: woken_state_def sleepers_def)
    have "wp (wakeup ?ch) (\<lambda>_. wp ?rest Q) ?s"
    proof (rule wp_wakeup_st[where H = "{pipe_lock p}"])
      fix k2 assume k2: "kern_ok {pipe_lock p} (put_kern k2 ?s)" "\<And>q. state (procs (put_kern k2 ?s) q) = woken_state ?ch ?s q"
      have "wp (release (pipe_lock p)) Q (put_kern k2 ?s)"
      proof (rule wp_release_st[OF k2(1)])
        fix k3 assume k3: "kern_ok ({pipe_lock p} - {pipe_lock p}) (put_kern k3 (put_kern k2 ?s))"
          "\<And>q. state (procs (put_kern k3 (put_kern k2 ?s)) q) = state (procs (put_kern k2 ?s) q)"
        have st: "state (procs (put_kern k3 s) q) = woken_state ?ch s q" for q using k3(2) k2(2) ws by simp
        have "sleepers ch (put_kern k3 s) = (if ch = ?ch then {} else sleepers ch s)" for ch
          by (rule sleepers_woken) (use st in auto)
        then show "Q () (put_kern k3 (put_kern k2 ?s))"
          using Q[of "put_kern k3 (put_kern k2 ?s)"] k3(1) by simp
      qed simp
      then show "wp ?rest Q (put_kern k2 ?s)" using op' by (auto simp: wp_simps)
    qed (use k1 in simp_all)
    then show "wp (kseq (kseq (set_pipe p (close_end w)) (wakeup ?ch)) ?rest) Q (put_kern k1 s)"
      by (simp add: wp_kbind set_pipe_def wp_modify)
  qed simp
  then show ?thesis unfolding pipeclose_def br by (simp only: wp_kbind)
qed

inductive pipe_sys :: "bool \<Rightarrow> uint \<Rightarrow> uchar list \<Rightarrow> uchar list \<Rightarrow> 'a pist_scheme \<Rightarrow> bool" for kw p where
  start: "pipe_ok (pipes s p) \<Longrightarrow> pipe_q (pipes s p) = [] \<Longrightarrow> readopen (pipes s p) \<Longrightarrow> writeopen (pipes s p) \<Longrightarrow>
    sleepers (ch_nread p) s = {} \<Longrightarrow> sleepers (ch_nwrite p) s = {} \<Longrightarrow> pipe_sys kw p [] [] s"
| writes: "pipe_sys kw p a d s \<Longrightarrow> running m s \<Longrightarrow> kw \<or> \<not> killed (procs s m) \<Longrightarrow>
    pipewrite_go p (int (length src)) src s = Inr (r, t) \<Longrightarrow>
    pipe_sys kw p (a @ take (unat (nwrite (pipes t p) - nwrite (pipes s p))) src) d t"
| reads: "pipe_sys kw p a d s \<Longrightarrow> running m s \<Longrightarrow> readopen (pipes s p) \<Longrightarrow> piperead_go p n s = Inr (r, t) \<Longrightarrow>
    pipe_sys kw p a (d @ (case r of Done (_, cs) \<Rightarrow> cs | Blocked _ \<Rightarrow> [])) t"
| close_read: "pipe_sys kw p a d s \<Longrightarrow> kern_ok {} s \<Longrightarrow> sleepers (ch_nread p) s = {} \<Longrightarrow> writeopen (pipes s p) \<Longrightarrow>
    pipeclose kend p False s = Inr ((), t) \<Longrightarrow> pipe_sys kw p a d t"
| close_write: "pipe_sys kw p a d s \<Longrightarrow> kern_ok {} s \<Longrightarrow> sleepers (ch_nwrite p) s = {} \<Longrightarrow> readopen (pipes s p) \<Longrightarrow>
    pipeclose kend p True s = Inr ((), t) \<Longrightarrow> pipe_sys kw p a d t"
| other: "pipe_sys kw p a d s \<Longrightarrow> pipes t p = pipes s p \<Longrightarrow> sleepers (ch_nread p) t \<subseteq> sleepers (ch_nread p) s \<Longrightarrow>
    sleepers (ch_nwrite p) t \<subseteq> sleepers (ch_nwrite p) s \<Longrightarrow> pipe_sys kw p a d t"

lemma pfill_nwrite:
  "pfill cs q = (q', rest) \<Longrightarrow> nwrite q' = nwrite q + of_nat (length cs - length rest) \<and> length rest \<le> length cs"
proof (induction cs arbitrary: q)
  case (Cons c cs)
  show ?case
  proof (cases "pipe_full q")
    case False
    then have "nwrite q' = nwrite (pipe_push c q) + of_nat (length cs - length rest)" "length rest \<le> length cs"
      using Cons by auto
    then show ?thesis by (simp add: pipe_push_def Suc_diff_le)
  qed (use Cons in auto)
qed auto

text \<open>What a run of the writer adds to the queue, in terms of the counter.\<close>

lemma pfill_taken:
  assumes "pipe_ok q" "pfill cs q = (q', rest)"
  shows "take (unat (nwrite q' - nwrite q)) cs = take (PIPESIZE - length (pipe_q q)) cs"
    "pipe_ok q'" "pipe_q q' = pipe_q q @ take (PIPESIZE - length (pipe_q q)) cs"
    "rest = drop (PIPESIZE - length (pipe_q q)) cs"
proof -
  show f: "pipe_ok q'" "pipe_q q' = pipe_q q @ take (PIPESIZE - length (pipe_q q)) cs"
    "rest = drop (PIPESIZE - length (pipe_q q)) cs"
    using pqueue.fill[OF assms] by auto
  define k where "k = length cs - length rest"
  have "k \<le> PIPESIZE" using f(3) by (simp add: k_def)
  then have "k < 2 ^ 32" by (simp add: layout)
  moreover have "nwrite q' = nwrite q + of_nat k" using pfill_nwrite[OF assms(2)] by (simp add: k_def del: of_nat_diff)
  ultimately have "unat (nwrite q' - nwrite q) = k" by (simp add: unat_of_nat)
  then show "take (unat (nwrite q' - nwrite q)) cs = take (PIPESIZE - length (pipe_q q)) cs"
    using f(3) by (cases "length cs \<le> PIPESIZE - length (pipe_q q)") (simp_all add: k_def)
qed

lemma wp_run: "wp m Q s \<Longrightarrow> m s = Inr (r, t) \<Longrightarrow> Q r t"
  by (auto simp: wp_def)

lemma close_end_sel [simp]:
  "pipe_q (close_end w q) = pipe_q q" "pipe_ok (close_end w q) = pipe_ok q"
  "readopen (close_end w q) = (w \<and> readopen q)" "writeopen (close_end w q) = (\<not> w \<and> writeopen q)"
  by (simp_all add: close_end_def pipe_q_def pipe_ok_def)

definition waits_ok :: "uint \<Rightarrow> 'a pist_scheme \<Rightarrow> bool" where
  "waits_ok p s \<longleftrightarrow>
    (sleepers (ch_nwrite p) s \<noteq> {} \<longrightarrow> length (pipe_q (pipes s p)) = PIPESIZE \<and> readopen (pipes s p)) \<and>
    (sleepers (ch_nread p) s \<noteq> {} \<longrightarrow> pipe_q (pipes s p) = [] \<and> readopen (pipes s p) \<and> writeopen (pipes s p))"

lemma pipe_sys_inv:
  assumes "pipe_sys kw p a d s"
  shows "pipe_ok (pipes s p) \<and> a = d @ pipe_q (pipes s p) \<and> (\<not> kw \<longrightarrow> waits_ok p s)"
  using assms
proof induction
  case (start s)
  then show ?case by (simp add: waits_ok_def)
next
  case (writes a d s m src r t)
  obtain q' rest where fl: "pfill src (pipes s p) = (q', rest)" by fastforce
  note tk = pfill_taken[OF _ fl]
  have ok: "pipe_ok (pipes s p)" using writes.IH by simp
  have ro: "readopen q' = readopen (pipes s p)" "writeopen q' = writeopen (pipes s p)"
    using pfill_open[of src "pipes s p"] fl by simp_all
  define dead where "dead \<longleftrightarrow> \<not> readopen (pipes s p) \<or> killed (procs s m)"
  have "wp (pipewrite_go p (int (length src)) src) (\<lambda>_ t. pipes t p = q' \<and> (\<not> kw \<longrightarrow> waits_ok p t)) s"
  proof (rule wp_pipewrite_go[OF writes(2) fl dead_def])
    fix t :: "'a pist_scheme"
    assume t: "pipes t = (pipes s)(p := q')" "\<And>ch. sleepers ch t =
        (if rest \<noteq> [] \<and> dead then sleepers ch s else if ch = ch_nread p then {}
         else if ch = ch_nwrite p \<and> rest \<noteq> [] then insert m (sleepers ch s) else sleepers ch s)"
    have "waits_ok p t" if "\<not> kw"
    proof -
      have w: "waits_ok p s" and nk: "\<not> killed (procs s m)" using writes.IH writes(3) that by auto
      have full: "length (pipe_q q') = PIPESIZE" if "rest \<noteq> [] \<or> length (pipe_q (pipes s p)) = PIPESIZE"
        using that tk(3,4)[OF ok] pqueue.bound[OF ok] by (auto simp: min_def)
      show ?thesis using w nk full t ro by (auto simp: waits_ok_def dead_def split: if_splits)
    qed
    then show "pipes t p = q' \<and> (\<not> kw \<longrightarrow> waits_ok p t)" using t by simp
  qed
  then have "pipes t p = q' \<and> (\<not> kw \<longrightarrow> waits_ok p t)" using writes(4) by (rule wp_run)
  then show ?case using writes.IH tk[OF ok] by simp
next
  case (reads a d s m n r t)
  obtain q' cs where dr: "pdrain (nat n) (pipes s p) = (q', cs)" by fastforce
  have ok: "pipe_ok (pipes s p)" and a: "a = d @ pipe_q (pipes s p)" using reads.IH by auto
  have q: "pipe_ok q'" "pipe_q (pipes s p) = cs @ pipe_q q'" using pqueue.drain[OF ok dr] by auto
  have ro: "readopen q' = readopen (pipes s p)" "writeopen q' = writeopen (pipes s p)"
    using pdrain_open[of "nat n" "pipes s p"] dr by simp_all
  define wt where "wt \<longleftrightarrow> pipe_emp (pipes s p) \<and> writeopen (pipes s p)"
  have e: "pipe_emp (pipes s p) \<longleftrightarrow> pipe_q (pipes s p) = []" using pqueue.emp[OF ok] .
  let ?R = "\<lambda>r t. pipe_ok (pipes t p) \<and> pipe_q (pipes s p) = (case r of Done (_, cs) \<Rightarrow> cs | Blocked _ \<Rightarrow> []) @ pipe_q (pipes t p) \<and>
    (\<not> kw \<longrightarrow> waits_ok p t)"
  have "wp (piperead_go p n) ?R s"
  proof (rule wp_piperead_go[OF reads(2) dr wt_def])
    fix t :: "'a pist_scheme"
    assume t: "pipes t = (if wt then pipes s else (pipes s)(p := q'))" "\<And>ch. sleepers ch t =
        (if wt then if killed (procs s m) \<or> ch \<noteq> ch_nread p then sleepers ch s else insert m (sleepers ch s)
         else if ch = ch_nwrite p then {} else sleepers ch s)"
    have "waits_ok p t" if "\<not> kw"
      using that reads.IH reads(3) t e ro by (auto simp: waits_ok_def wt_def split: if_splits)
    then show "?R (if wt then if killed (procs s m) then Done (- 1, []) else Blocked [] else Done (int (length cs), cs)) t"
      using t ok q by auto
  qed
  then have "?R r t" using reads(4) by (rule wp_run)
  then show ?case using a by simp
next
  case (close_read a d s kend t)
  have "wp (pipeclose kend p False) (\<lambda>_ t. pipes t p = close_end False (pipes s p) \<and> (\<not> kw \<longrightarrow> waits_ok p t)) s"
    by (rule wp_pipeclose) (use close_read in \<open>auto simp: waits_ok_def\<close>)
  from wp_run[OF this close_read(5)] show ?case using close_read.IH by simp
next
  case (close_write a d s kend t)
  have "wp (pipeclose kend p True) (\<lambda>_ t. pipes t p = close_end True (pipes s p) \<and> (\<not> kw \<longrightarrow> waits_ok p t)) s"
    by (rule wp_pipeclose) (use close_write in \<open>auto simp: waits_ok_def\<close>)
  from wp_run[OF this close_write(5)] show ?case using close_write.IH by simp
next
  case (other a d s t)
  then show ?case by (auto simp: waits_ok_def)
qed

section \<open>Properties\<close>

text \<open>A system state with an empty pipe, for the witnesses.\<close>

definition boot_pist :: pist where
  "boot_pist = ist.extend (lst.extend (bst.extend boot_bst
      \<lparr>lstart = 2, lsize = 30, outstanding = 0, committing = False, ldev = ROOTDEV, lh_n = 0, lh_block = replicate 30 0\<rparr>)
    \<lparr>sb = \<lparr>sb_size = 2000, sb_nblocks = 1900, sb_ninodes = 200, sb_nlog = 30, sb_logstart = 2, sb_inodestart = 32,
       sb_bmapstart = 83\<rparr>,
     icache = \<lambda>_. \<lparr>idev = 0, inum = 0, iref = 0, ibusy = False, ivalid = False, itype = 0, imajor = 0, iminor = 0,
       inlink = 0, iuid = 0, igid = 0, imode = 0, isize = 0, addrs = replicate 26 0\<rparr>\<rparr>)
    \<lparr>pipes = \<lambda>_. \<lparr>pdata = replicate PIPESIZE 0, nread = 0, nwrite = 0, readopen = True, writeopen = True\<rparr>\<rparr>"

lemma kern_ok_fs_extend:
  "kern_ok H (lst.extend s x) = kern_ok H s" "kern_ok H (ist.extend s' x') = kern_ok H s'"
  by (simp_all add: kern_frame lst.extend_def ist.extend_def)

lemma boot_pist_sel:
  "procs boot_pist = procs pst1" "me boot_pist = Some 0"
  "pipes boot_pist p = \<lparr>pdata = replicate PIPESIZE 0, nread = 0, nwrite = 0, readopen = True, writeopen = True\<rparr>"
  using pst1_proc(1)
  by (simp_all add: boot_pist_def ist.extend_def lst.extend_def bst.extend_def boot_bst_def pst.extend_def me_def)

lemma boot_pist_alive: "\<not> killed (procs boot_pist 0)"
  by (simp add: boot_pist_sel pst1_def live_slot_def free_slot_def)

lemma boot_pist_ok: "running 0 boot_pist" "kern_ok {} boot_pist"
proof -
  show k: "kern_ok {} boot_pist" using boot_bst_ok(1) by (simp add: boot_pist_def kern_ok_fs_extend kern_ok_bst_extend)
  then show "running 0 boot_pist" using pst1_proc by (simp add: running_def boot_pist_sel)
qed

lemma boot_pist_pipe: "pipe_sys kw p [] [] boot_pist"
  by (rule pipe_sys.start)
    (auto simp: boot_pist_sel pipe_ok_def pipe_q_def ring_q_def sleepers_def pst1_def live_slot_def free_slot_def)

text \<open>
  C13. A pipe is a first-in first-out queue of at most 512 bytes. In every history of a pipe (processes
  that write, read, block and resume, closing of the ends, and anything else in the system in between)
  the bytes accepted from the writers are, in order, the bytes delivered to the readers followed by the
  contents of the ring buffer, also when the 32-bit counters wrap around.
\<close>

theorem pipe_fifo:
  assumes "pipe_sys kw p a d s"
  shows "a = d @ pipe_q (pipes s p) \<and> length (pipe_q (pipes s p)) \<le> PIPESIZE"
  using pipe_sys_inv[OF assms] pqueue.bound by auto

theorem pipe_fifo_witness:
  "\<exists>t. pipe_sys False 0x80400000 [7, 8, 9] [] (t :: pist) \<and> pipe_q (pipes t 0x80400000) = [7, 8, 9]"
proof -
  let ?p = "0x80400000 :: uint" and ?q = "pipes boot_pist 0x80400000"
  obtain q' rest where fl: "pfill [7, 8, 9] ?q = (q', rest)" by fastforce
  have "pipe_ok ?q" "pipe_q ?q = []" by (simp_all add: boot_pist_sel pipe_ok_def pipe_q_def ring_q_def)
  note tk = pfill_taken[OF this(1) fl, unfolded this(2)]
  have "wp (pipewrite_go ?p 3 [7, 8, 9]) (\<lambda>_ t. pipes t ?p = q') boot_pist"
    by (rule wp_pipewrite_go[OF boot_pist_ok(1) fl refl]) simp
  then obtain r t where t: "pipewrite_go ?p (int (length [7, 8, 9 :: uchar])) [7, 8, 9] boot_pist = Inr (r, t)" "pipes t ?p = q'"
    by (auto simp: wp_def)
  have "pipe_sys False ?p ([] @ take (unat (nwrite (pipes t ?p) - nwrite ?q)) [7, 8, 9]) [] t"
    by (rule pipe_sys.writes[OF boot_pist_pipe boot_pist_ok(1) _ t(1)]) (simp add: boot_pist_alive)
  then have "pipe_sys False ?p [7, 8, 9] [] t" using tk(1) t(2) by (simp add: layout)
  then show ?thesis using pipe_fifo[of False ?p "[7, 8, 9]" "[]" t] by auto
qed

text \<open>
  C14. Readers and writers of a pipe never wait for each other in vain: in every history without killed
  writers, a process sleeps for room only while the pipe is full and can still be read, and for data only
  while it is empty and can still be written; so never does a writer sleep while a reader does, and
  whenever one sleeps the condition it waits for is one that the other side's next call ends.
\<close>

theorem pipe_never_stuck:
  assumes "pipe_sys False p a d s"
  shows "(sleepers (ch_nwrite p) s \<noteq> {} \<longrightarrow>
      length (pipe_q (pipes s p)) = PIPESIZE \<and> readopen (pipes s p) \<and> sleepers (ch_nread p) s = {}) \<and>
    (sleepers (ch_nread p) s \<noteq> {} \<longrightarrow> pipe_q (pipes s p) = [] \<and> writeopen (pipes s p))"
proof -
  have "length (pipe_q (pipes s p)) = PIPESIZE \<Longrightarrow> pipe_q (pipes s p) \<noteq> []" by (auto simp: layout)
  then show ?thesis using pipe_sys_inv[OF assms] by (auto simp: waits_ok_def)
qed

theorem pipe_never_stuck_witness:
  "\<exists>t. pipe_sys False 0x80400000 [] [] (t :: pist) \<and> sleepers (ch_nread 0x80400000) t = {0} \<and>
    pipe_q (pipes t 0x80400000) = []"
proof -
  let ?p = "0x80400000 :: uint"
  have s0: "sleepers (ch_nread ?p) boot_pist = {}"
    by (auto simp: sleepers_def boot_pist_sel pst1_def live_slot_def free_slot_def)
  obtain q' cs where dr: "pdrain (nat 10) (pipes boot_pist ?p) = (q', cs)" by fastforce
  have "wp (piperead_go ?p 10) (\<lambda>r t. r = Blocked [] \<and> sleepers (ch_nread ?p) t = {0}) boot_pist"
    by (rule wp_piperead_go[OF boot_pist_ok(1) dr refl])
      (use boot_pist_alive s0 in \<open>simp add: boot_pist_sel(3) pipe_emp_def\<close>)
  then obtain t where t: "piperead_go ?p 10 boot_pist = Inr (Blocked [], t)" "sleepers (ch_nread ?p) t = {0}"
    by (auto simp: wp_def)
  have "pipe_sys False ?p [] [] t"
    using pipe_sys.reads[OF boot_pist_pipe boot_pist_ok(1) _ t(1)] by (simp add: boot_pist_sel)
  then show ?thesis using pipe_never_stuck[of ?p "[]" "[]" t] t(2) by auto
qed

text \<open>
  C15. The error path of \<open>pipewrite\<close> loses a wakeup: a writer that is killed while it fills a pipe on which a
  reader sleeps returns -1 with the pipe full and the reader still asleep, because that path leaves without
  the call of \<^verbatim>\<open>wakeup\<close> that every other path makes.
\<close>

theorem pipewrite_killed_keeps_readers_asleep:
  assumes "running m s" "killed (procs s m)" "pipe_ok (pipes s p)" "pipe_q (pipes s p) = []" "PIPESIZE < length src"
  shows "wp (pipewrite_go p (int (length src)) src) (\<lambda>r t. r = Done (- 1) \<and>
    length (pipe_q (pipes t p)) = PIPESIZE \<and> sleepers (ch_nread p) t = sleepers (ch_nread p) s) s"
proof -
  obtain q' rest where fl: "pfill src (pipes s p) = (q', rest)" by fastforce
  note tk = pfill_taken[OF assms(3) fl, unfolded assms(4)]
  have "rest \<noteq> []" "length (pipe_q q') = PIPESIZE" using tk(3,4) assms(5) by auto
  then show ?thesis
    by (intro wp_pipewrite_go[OF assms(1) fl refl]) (auto simp: write_result_def assms(2))
qed

definition killed_pist :: pist where
  "killed_pist = upd_proc 2 (\<lambda>r. r\<lparr>chan_of := Some (ch_nread 0x80400000)\<rparr>)
    (upd_proc 0 (\<lambda>r. r\<lparr>killed := True\<rparr>) boot_pist)"

theorem pipewrite_killed_keeps_readers_asleep_witness:
  "wp (pipewrite_go 0x80400000 600 (replicate 600 1)) (\<lambda>r t. r = Done (- 1) \<and>
    length (pipe_q (pipes t 0x80400000)) = 512 \<and> sleepers (ch_nread 0x80400000) t = {2}) killed_pist"
proof -
  let ?p = "0x80400000 :: uint"
  have pt: "pt_ok L (upd_proc 2 (\<lambda>r. r\<lparr>chan_of := c\<rparr>) (upd_proc 0 (\<lambda>r. r\<lparr>killed := True\<rparr>) s)) = pt_ok L s" for c L and s :: pist
    by (simp add: pt_ok_def)
  have mh: "mach_holds H ie (upd_proc 2 f (upd_proc 0 g s)) = mach_holds H ie s" for H ie f g and s :: pist
    by simp
  have "kern_ok {} killed_pist" using boot_pist_ok(2) unfolding killed_pist_def kern_ok_def pt mh .
  then have r: "running 0 killed_pist" "killed (procs killed_pist 0)"
    using pst1_proc by (simp_all add: running_def killed_pist_def boot_pist_sel)
  have pp: "pipes killed_pist = pipes boot_pist" by (simp add: killed_pist_def upd_proc_def)
  have "pipe_ok (pipes killed_pist ?p)" "pipe_q (pipes killed_pist ?p) = []"
    by (simp_all add: pp boot_pist_sel pipe_ok_def pipe_q_def ring_q_def)
  moreover have "sleepers (ch_nread ?p) killed_pist = {2}"
    by (auto simp: sleepers_def killed_pist_def boot_pist_sel pst1_def live_slot_def free_slot_def layout split: if_splits)
  ultimately show ?thesis
    using pipewrite_killed_keeps_readers_asleep[OF r, of ?p "replicate 600 1"] by (simp add: layout)
qed

end
