(* ===== verification/File.thy ===== *)
theory File
  imports Pipe
begin

text \<open>
  \<^verbatim>\<open>file.c\<close> and \<^verbatim>\<open>pipealloc\<close>: the table of open files. A \<^verbatim>\<open>struct file*\<close> is a slot number below \<open>NFILE\<close>.
  The bytes a write takes from the caller's memory are the list \<open>src\<close>; a read returns its result and
  the bytes it stores.
\<close>

definition NFILE :: nat where [layout]: "NFILE = 100"

datatype fdtype = FD_NONE | FD_PIPE | FD_INODE

record kfile =
  ftype :: fdtype
  fref :: int
  readable :: bool
  writable :: bool
  fpipe :: uint
  fip :: nat
  foff :: uint

record fist = pist +
  ftable :: "nat \<Rightarrow> kfile"

definition set_file :: "nat \<Rightarrow> (kfile \<Rightarrow> kfile) \<Rightarrow> ('a fist_scheme, unit) kmon" where
  "set_file f g = modify (\<lambda>s. s\<lparr>ftable := (ftable s)(f := g (ftable s f))\<rparr>)"

definition file_of :: "nat \<Rightarrow> ('a fist_scheme, kfile) kmon" where
  "file_of f = gets (\<lambda>s. ftable s f)"

definition fileinit :: "('a fist_scheme, unit) kmon" where
  "fileinit = initlock FtableLock"

definition filealloc :: "('a fist_scheme, nat option) kmon" where
  "filealloc =
    kseq (acquire FtableLock) (
    kbind (gets ftable) (\<lambda>t.
    case find (\<lambda>f. fref (t f) = 0) [0..<NFILE] of
      Some f \<Rightarrow>
        kseq (set_file f (\<lambda>r. r\<lparr>fref := 1\<rparr>)) (
        kseq (release FtableLock) (
        ret (Some f)))
    | None \<Rightarrow> kseq (release FtableLock) (ret None)))"

definition filedup :: "nat \<Rightarrow> ('a fist_scheme, nat) kmon" where
  "filedup f =
    kseq (acquire FtableLock) (
    kbind (file_of f) (\<lambda>r.
    if fref r < 1 then panic ''filedup''
    else
      kseq (set_file f (\<lambda>r. r\<lparr>fref := fref r + 1\<rparr>)) (
      kseq (release FtableLock) (
      ret f))))"

definition fileclose :: "uint \<Rightarrow> nat \<Rightarrow> ('a fist_scheme, unit) kmon" where
  "fileclose kend f =
    kseq (acquire FtableLock) (
    kbind (file_of f) (\<lambda>r.
    if fref r < 1 then panic ''fileclose''
    else
      kseq (set_file f (\<lambda>r. r\<lparr>fref := fref r - 1\<rparr>)) (
      if fref r - 1 > 0 then release FtableLock
      else
        kbind (file_of f) (\<lambda>ff.
        kseq (set_file f (\<lambda>r. r\<lparr>fref := 0, ftype := FD_NONE\<rparr>)) (
        kseq (release FtableLock) (
        if ftype ff = FD_PIPE then pipeclose kend (fpipe ff) (writable ff)
        else if ftype ff = FD_INODE then
          kseq begin_op (
          kseq (iput (fip ff)) (
          end_op))
        else ret ()))))))"

definition filestat :: "nat \<Rightarrow> ('a fist_scheme, int \<times> stat option) kmon" where
  "filestat f =
    kbind (file_of f) (\<lambda>r.
    if ftype r = FD_INODE then
      kseq (ilock (fip r)) (
      kbind (stati (fip r)) (\<lambda>st.
      kseq (iunlock (fip r)) (
      ret (0, Some st))))
    else ret (- 1, None))"

definition fileread :: "'a fist_scheme devsw \<Rightarrow> nat \<Rightarrow> int \<Rightarrow> ('a fist_scheme, int \<times> uchar list) kmon" where
  "fileread dv f n =
    kbind (file_of f) (\<lambda>r.
    if \<not> readable r then ret (- 1, [])
    else case ftype r of
      FD_PIPE \<Rightarrow> piperead (fpipe r) n
    | FD_INODE \<Rightarrow>
        kseq (ilock (fip r)) (
        kbind (readi dv (fip r) (foff r) (of_int n)) (\<lambda>(k, bs).
        kseq (kwhen (k > 0) (set_file f (\<lambda>r. r\<lparr>foff := foff r + of_int k\<rparr>))) (
        kseq (iunlock (fip r)) (
        ret (k, bs)))))
    | FD_NONE \<Rightarrow> panic ''fileread'')"

text \<open>
  A write to an inode goes in chunks of \<open>filemax\<close> bytes, one transaction each; \<open>n\<close> bytes take at
  most \<open>n\<close> rounds. The result is the number of bytes written, or \<open>None\<close> after the \<^verbatim>\<open>break\<close>.
\<close>

definition filemax :: nat where [layout]: "filemax = ((LOGSIZE - 1 - 1 - 2) div 2) * 512"

definition filewrite_chunk :: "'a fist_scheme devsw \<Rightarrow> nat \<Rightarrow> uchar list \<Rightarrow> ('a fist_scheme, int) kmon" where
  "filewrite_chunk dv f src =
    kbind (file_of f) (\<lambda>r.
    kseq begin_op (
    kseq (ilock (fip r)) (
    kbind (writei dv (fip r) src (foff r)) (\<lambda>k.
    kseq (kwhen (k > 0) (set_file f (\<lambda>r. r\<lparr>foff := foff r + of_int k\<rparr>))) (
    kseq (iunlock (fip r)) (
    kseq end_op (
    ret k)))))))"

fun filewrite_loop :: "nat \<Rightarrow> 'a fist_scheme devsw \<Rightarrow> nat \<Rightarrow> uchar list \<Rightarrow> ('a fist_scheme, bool) kmon" where
  "filewrite_loop fuel dv f [] = ret True"
| "filewrite_loop 0 dv f (x # src) = stop Diverge"
| "filewrite_loop (Suc fuel) dv f (x # src) =
    (let n1 = min (length (x # src)) filemax in
    kbind (filewrite_chunk dv f (take n1 (x # src))) (\<lambda>k.
    if k < 0 then ret False
    else if k \<noteq> int n1 then panic ''short filewrite''
    else filewrite_loop fuel dv f (drop n1 (x # src))))"

definition filewrite :: "'a fist_scheme devsw \<Rightarrow> nat \<Rightarrow> int \<Rightarrow> uchar list \<Rightarrow> ('a fist_scheme, int) kmon" where
  "filewrite dv f n src =
    kbind (file_of f) (\<lambda>r.
    if \<not> writable r then ret (- 1)
    else case ftype r of
      FD_PIPE \<Rightarrow> pipewrite (fpipe r) n src
    | FD_INODE \<Rightarrow>
        kbind (filewrite_loop (length src) dv f src) (\<lambda>ok.
        ret (if ok \<and> n \<ge> 0 then n else - 1))
    | FD_NONE \<Rightarrow> panic ''filewrite'')"

text \<open>\<open>pipealloc\<close> gives the two ends of a new pipe, or \<open>None\<close> after its clean-up.\<close>

definition pipealloc_bad :: "uint \<Rightarrow> nat option \<Rightarrow> nat option \<Rightarrow> ('a fist_scheme, (nat \<times> nat) option) kmon" where
  "pipealloc_bad kend f0 f1 =
    kseq (case f0 of None \<Rightarrow> ret () | Some f \<Rightarrow> fileclose kend f) (
    kseq (case f1 of None \<Rightarrow> ret () | Some f \<Rightarrow> fileclose kend f) (
    ret None))"

definition pipealloc :: "uint \<Rightarrow> ('a fist_scheme, (nat \<times> nat) option) kmon" where
  "pipealloc kend =
    kbind filealloc (\<lambda>r0.
    case r0 of None \<Rightarrow> pipealloc_bad kend None None | Some f0 \<Rightarrow>
    kbind filealloc (\<lambda>r1.
    case r1 of None \<Rightarrow> pipealloc_bad kend (Some f0) None | Some f1 \<Rightarrow>
    kbind kalloc (\<lambda>p.
    if p = 0 then pipealloc_bad kend (Some f0) (Some f1)
    else
      kseq (set_pipe p (\<lambda>q. q\<lparr>readopen := True, writeopen := True, nwrite := 0, nread := 0\<rparr>)) (
      kseq (initlock (pipe_lock p)) (
      kseq (set_file f0 (\<lambda>r. r\<lparr>ftype := FD_PIPE, readable := True, writable := False, fpipe := p\<rparr>)) (
      kseq (set_file f1 (\<lambda>r. r\<lparr>ftype := FD_PIPE, readable := False, writable := True, fpipe := p\<rparr>)) (
      ret (Some (f0, f1)))))))))"

text \<open>A system state with an empty file table, for the witnesses.\<close>

definition boot_fist :: fist where
  "boot_fist = pist.extend boot_pist \<lparr>ftable = \<lambda>_. \<lparr>ftype = FD_NONE, fref = 0, readable = False, writable = False,
    fpipe = 0, fip = 0, foff = 0\<rparr>\<rparr>"

lemma boot_fist_ok: "kern_ok {} boot_fist" "procs boot_fist = procs pst1" "me boot_fist = Some 0"
  using boot_pist_ok(2) boot_pist_sel(1,2) by (simp_all add: boot_fist_def pist.extend_def kern_frame me_def)

end
