(* ===== verification/Vm.thy ===== *)
theory Vm
  imports Kern Kstring
begin

text \<open>
  \<^verbatim>\<open>vm.c\<close>: two-level page tables in kernel memory. A page directory and its tables are bytes of the
  store \<open>mem\<close>, read and written a word at a time; \<open>xlate\<close> is the walk the processor does for an access
  from kernel mode. The addresses \<^verbatim>\<open>end\<close> and \<^verbatim>\<open>data\<close> are placed by the linker and are arguments.
\<close>

section \<open>Page table entries\<close>

definition PTE_P :: uint where [layout]: "PTE_P = 1"
definition PTE_W :: uint where [layout]: "PTE_W = 2"
definition PTE_U :: uint where [layout]: "PTE_U = 4"
definition NPDENTRIES :: nat where [layout]: "NPDENTRIES = 1024"
definition NPTENTRIES :: nat where [layout]: "NPTENTRIES = 1024"
definition KERNLINK :: uint where [layout]: "KERNLINK = KERNBASE + EXTMEM"

definition PDX :: "uint \<Rightarrow> uint" where "PDX va = drop_bit 22 va AND 0x3FF"
definition PTX :: "uint \<Rightarrow> uint" where "PTX va = drop_bit 12 va AND 0x3FF"
definition PTE_ADDR :: "uint \<Rightarrow> uint" where "PTE_ADDR pte = pte AND NOT 0xFFF"
definition PTE_FLAGS :: "uint \<Rightarrow> uint" where "PTE_FLAGS pte = pte AND 0xFFF"

section \<open>The processor's view\<close>

definition xlate :: "memory \<Rightarrow> uint \<Rightarrow> bool \<Rightarrow> uint \<Rightarrow> uint option" where
  "xlate m pd w va =
    (let pde = load32 m (pd + 4 * PDX va); pte = load32 m (p2v (PTE_ADDR pde) + 4 * PTX va) in
     if pde AND PTE_P = 0 \<or> pte AND PTE_P = 0 \<or> w \<and> (pde AND PTE_W = 0 \<or> pte AND PTE_W = 0) then None
     else Some (p2v (PTE_ADDR pte) + (va AND 0xFFF)))"

definition store_bytes :: "memory \<Rightarrow> uint \<Rightarrow> uchar list \<Rightarrow> memory" where
  "store_bytes m a bs = (\<lambda>x. if unat (x - a) < length bs then bs ! unat (x - a) else m x)"

text \<open>Kernel accesses to user memory through the current page table; a fault in the kernel panics.\<close>

definition uload :: "uint \<Rightarrow> uint \<Rightarrow> ('a kmemst_scheme, uchar) kmon" where
  "uload pd va =
    kbind (gets mem) (\<lambda>m.
    case xlate m pd False va of None \<Rightarrow> panic ''trap'' | Some a \<Rightarrow> ret (m a))"

definition ustore :: "uint \<Rightarrow> uint \<Rightarrow> uchar \<Rightarrow> ('a kmemst_scheme, unit) kmon" where
  "ustore pd va c =
    kbind (gets mem) (\<lambda>m.
    case xlate m pd True va of None \<Rightarrow> panic ''trap'' | Some a \<Rightarrow> modify (\<lambda>s. s\<lparr>mem := m(a := c)\<rparr>))"

fun uloads :: "uint \<Rightarrow> uint \<Rightarrow> nat \<Rightarrow> ('a kmemst_scheme, uchar list) kmon" where
  "uloads pd va 0 = ret []"
| "uloads pd va (Suc n) = kbind (uload pd va) (\<lambda>c. kbind (uloads pd (va + 1) n) (\<lambda>cs. ret (c # cs)))"

fun ustores :: "uint \<Rightarrow> uint \<Rightarrow> uchar list \<Rightarrow> ('a kmemst_scheme, unit) kmon" where
  "ustores pd va [] = ret ()"
| "ustores pd va (c # cs) = kseq (ustore pd va c) (ustores pd (va + 1) cs)"

section \<open>Page tables\<close>

definition kmemset :: "uint \<Rightarrow> uint \<Rightarrow> uint \<Rightarrow> ('a kmemst_scheme, unit) kmon" where
  "kmemset dst c n = modify (\<lambda>s. s\<lparr>mem := memset (mem s) dst c n\<rparr>)"

definition kstore32 :: "uint \<Rightarrow> uint \<Rightarrow> ('a kmemst_scheme, unit) kmon" where
  "kstore32 a w = modify (\<lambda>s. s\<lparr>mem := store32 (mem s) a w\<rparr>)"

definition walkpgdir :: "uint \<Rightarrow> uint \<Rightarrow> bool \<Rightarrow> ('a kmemst_scheme, uint option) kmon" where
  "walkpgdir pd va alloc =
    (let pde = pd + 4 * PDX va in
    kbind (gets (\<lambda>s. load32 (mem s) pde)) (\<lambda>e.
    if e AND PTE_P \<noteq> 0 then ret (Some (p2v (PTE_ADDR e) + 4 * PTX va))
    else if \<not> alloc then ret None
    else
      kbind kalloc (\<lambda>pgtab.
      if pgtab = 0 then ret None
      else
        kseq (kmemset pgtab 0 PGSIZE) (
        kseq (kstore32 pde (v2p pgtab OR PTE_P OR PTE_W OR PTE_U)) (
        ret (Some (pgtab + 4 * PTX va)))))))"

text \<open>
  The loop of \<open>mappages\<close> stops at the page \<open>last\<close>, which is \<open>(last - a) div PGSIZE\<close> pages away,
  also when the addresses wrap around.
\<close>

fun mappages_loop :: "nat \<Rightarrow> uint \<Rightarrow> uint \<Rightarrow> uint \<Rightarrow> uint \<Rightarrow> uint \<Rightarrow> ('a kmemst_scheme, int) kmon" where
  "mappages_loop 0 pd a la pa perm = stop Diverge"
| "mappages_loop (Suc fuel) pd a la pa perm =
    kbind (walkpgdir pd a True) (\<lambda>r.
    case r of None \<Rightarrow> ret (- 1)
    | Some pte \<Rightarrow>
      kbind (gets (\<lambda>s. load32 (mem s) pte)) (\<lambda>e.
      if e AND PTE_P \<noteq> 0 then panic ''remap''
      else
        kseq (kstore32 pte (pa OR perm OR PTE_P)) (
        if a = la then ret 0
        else mappages_loop fuel pd (a + PGSIZE) la (pa + PGSIZE) perm)))"

definition mappages :: "uint \<Rightarrow> uint \<Rightarrow> uint \<Rightarrow> uint \<Rightarrow> uint \<Rightarrow> ('a kmemst_scheme, int) kmon" where
  "mappages pd va n pa perm =
    (let a = PGROUNDDOWN va; la = PGROUNDDOWN (va + n - 1) in
     mappages_loop (unat ((la - a) div PGSIZE) + 1) pd a la pa perm)"

definition kmap :: "uint \<Rightarrow> (uint \<times> uint \<times> uint \<times> uint) list" where
  "kmap kdata = [(KERNBASE, 0, EXTMEM, PTE_W), (KERNLINK, v2p KERNLINK, v2p kdata, 0),
    (kdata, v2p kdata, PHYSTOP, PTE_W), (DEVSPACE, DEVSPACE, 0, PTE_W)]"

definition setupkvm :: "uint \<Rightarrow> ('a kmemst_scheme, uint) kmon" where
  "setupkvm kdata =
    kbind kalloc (\<lambda>pd.
    if pd = 0 then ret 0
    else
      kseq (kmemset pd 0 PGSIZE) (
      if p2v PHYSTOP > DEVSPACE then panic ''PHYSTOP too high''
      else
        kbind (kfind (\<lambda>(virt, pstart, pend, perm).
          kbind (mappages pd virt (pend - pstart) pstart perm) (\<lambda>r.
          ret (if r < 0 then Some 0 else None))) (kmap kdata)) (\<lambda>r.
        case r of Some z \<Rightarrow> ret z | None \<Rightarrow> ret pd)))"

definition kvmalloc :: "uint \<Rightarrow> ('a pst_scheme, unit) kmon" where
  "kvmalloc kdata =
    kbind (setupkvm kdata) (\<lambda>d.
    kseq (modify (\<lambda>s. s\<lparr>kpgdir := d\<rparr>)) (
    switchkvm))"

definition inituvm :: "uint \<Rightarrow> uchar list \<Rightarrow> ('a kmemst_scheme, unit) kmon" where
  "inituvm pd init =
    (if of_nat (length init) \<ge> PGSIZE then panic ''inituvm: more than a page''
     else
      kbind kalloc (\<lambda>pg.
      if pg = 0 then stop (Undef ''null pointer'') else
      kseq (kmemset pg 0 PGSIZE) (
      kbind (mappages pd 0 PGSIZE (v2p pg) (PTE_W OR PTE_U)) (\<lambda>_.
      modify (\<lambda>s. s\<lparr>mem := store_bytes (mem s) pg init\<rparr>)))))"

fun deallocuvm_loop :: "nat \<Rightarrow> uint \<Rightarrow> uint \<Rightarrow> uint \<Rightarrow> uint \<Rightarrow> ('a kmemst_scheme, unit) kmon" where
  "deallocuvm_loop 0 kend pd a oldsz = (if a < oldsz then stop Diverge else ret ())"
| "deallocuvm_loop (Suc fuel) kend pd a oldsz =
    (if a < oldsz then
      kbind (walkpgdir pd a False) (\<lambda>r.
      case r of
        None \<Rightarrow> deallocuvm_loop fuel kend pd (a + of_nat (NPTENTRIES - 1) * PGSIZE + PGSIZE) oldsz
      | Some pte \<Rightarrow>
          kbind (gets (\<lambda>s. load32 (mem s) pte)) (\<lambda>e.
          kseq (if e AND PTE_P \<noteq> 0 then
              if PTE_ADDR e = 0 then panic ''kfree''
              else kseq (kfree kend (p2v (PTE_ADDR e))) (kstore32 pte 0)
            else ret ()) (
          deallocuvm_loop fuel kend pd (a + PGSIZE) oldsz)))
     else ret ())"

definition deallocuvm :: "uint \<Rightarrow> uint \<Rightarrow> uint \<Rightarrow> uint \<Rightarrow> ('a kmemst_scheme, uint) kmon" where
  "deallocuvm kend pd oldsz newsz =
    (if newsz \<ge> oldsz then ret oldsz
     else
      kseq (deallocuvm_loop (unat oldsz div unat PGSIZE + 1) kend pd (PGROUNDUP newsz) oldsz) (
      ret newsz))"

fun allocuvm_loop :: "nat \<Rightarrow> uint \<Rightarrow> uint \<Rightarrow> uint \<Rightarrow> uint \<Rightarrow> uint \<Rightarrow> ('a pst_scheme, uint) kmon" where
  "allocuvm_loop 0 kend pd a oldsz newsz = (if a < newsz then stop Diverge else ret newsz)"
| "allocuvm_loop (Suc fuel) kend pd a oldsz newsz =
    (if a < newsz then
      kbind kalloc (\<lambda>pg.
      if pg = 0 then
        kseq (cprintf ''allocuvm out of memory'') (
        kbind (deallocuvm kend pd newsz oldsz) (\<lambda>_.
        ret 0))
      else
        kseq (kmemset pg 0 PGSIZE) (
        kbind (mappages pd a PGSIZE (v2p pg) (PTE_W OR PTE_U)) (\<lambda>_.
        allocuvm_loop fuel kend pd (a + PGSIZE) oldsz newsz)))
     else ret newsz)"

definition allocuvm :: "uint \<Rightarrow> uint \<Rightarrow> uint \<Rightarrow> uint \<Rightarrow> ('a pst_scheme, uint) kmon" where
  "allocuvm kend pd oldsz newsz =
    (if newsz \<ge> KERNBASE then ret 0
     else if newsz < oldsz then ret oldsz
     else allocuvm_loop (unat newsz div unat PGSIZE + 1) kend pd (PGROUNDUP oldsz) oldsz newsz)"

definition freevm :: "uint \<Rightarrow> uint \<Rightarrow> ('a kmemst_scheme, unit) kmon" where
  "freevm kend pd =
    (if pd = 0 then panic ''freevm: no pgdir''
     else
      kbind (deallocuvm kend pd KERNBASE 0) (\<lambda>_.
      kseq (kfor (\<lambda>i.
        kbind (gets (\<lambda>s. load32 (mem s) (pd + 4 * of_nat i))) (\<lambda>e.
        kwhen (e AND PTE_P \<noteq> 0) (kfree kend (p2v (PTE_ADDR e))))) [0..<NPDENTRIES]) (
      kfree kend pd)))"

definition clearpteu :: "uint \<Rightarrow> uint \<Rightarrow> ('a kmemst_scheme, unit) kmon" where
  "clearpteu pd uva =
    kbind (walkpgdir pd uva False) (\<lambda>r.
    case r of
      None \<Rightarrow> panic ''clearpteu''
    | Some pte \<Rightarrow> modify (\<lambda>s. s\<lparr>mem := store32 (mem s) pte (load32 (mem s) pte AND NOT PTE_U)\<rparr>))"

fun copyuvm_loop :: "nat \<Rightarrow> uint \<Rightarrow> uint \<Rightarrow> uint \<Rightarrow> uint \<Rightarrow> ('a kmemst_scheme, bool) kmon" where
  "copyuvm_loop 0 pd d i n = (if i < n then stop Diverge else ret True)"
| "copyuvm_loop (Suc fuel) pd d i n =
    (if i < n then
      kbind (walkpgdir pd i False) (\<lambda>r.
      case r of
        None \<Rightarrow> panic ''copyuvm: pte should exist''
      | Some pte \<Rightarrow>
          kbind (gets (\<lambda>s. load32 (mem s) pte)) (\<lambda>e.
          if e AND PTE_P = 0 then panic ''copyuvm: page not present''
          else
            kbind kalloc (\<lambda>pg.
            if pg = 0 then ret False
            else
              kseq (modify (\<lambda>s. s\<lparr>mem := memmove (mem s) pg (p2v (PTE_ADDR e)) PGSIZE\<rparr>)) (
              kbind (mappages d i PGSIZE (v2p pg) (PTE_FLAGS e)) (\<lambda>z.
              if z < 0 then ret False
              else copyuvm_loop fuel pd d (i + PGSIZE) n)))))
     else ret True)"

definition copyuvm :: "uint \<Rightarrow> uint \<Rightarrow> uint \<Rightarrow> uint \<Rightarrow> ('a kmemst_scheme, uint) kmon" where
  "copyuvm kend kdata pd n =
    kbind (setupkvm kdata) (\<lambda>d.
    if d = 0 then ret 0
    else
      kbind (copyuvm_loop (unat n div unat PGSIZE + 1) pd d 0 n) (\<lambda>ok.
      if ok then ret d else kseq (freevm kend d) (ret 0)))"

definition uva2ka :: "uint \<Rightarrow> uint \<Rightarrow> ('a kmemst_scheme, uint) kmon" where
  "uva2ka pd uva =
    kbind (walkpgdir pd uva False) (\<lambda>r.
    case r of
      None \<Rightarrow> stop (Undef ''null pointer'')
    | Some pte \<Rightarrow>
        kbind (gets (\<lambda>s. load32 (mem s) pte)) (\<lambda>e.
        if e AND PTE_P = 0 then ret 0
        else if e AND PTE_U = 0 then ret 0
        else ret (p2v (PTE_ADDR e))))"

fun copyout_loop :: "nat \<Rightarrow> uint \<Rightarrow> uint \<Rightarrow> uchar list \<Rightarrow> ('a kmemst_scheme, int) kmon" where
  "copyout_loop fuel pd va [] = ret 0"
| "copyout_loop 0 pd va (x # p) = stop Diverge"
| "copyout_loop (Suc fuel) pd va (x # p) =
    (let va0 = PGROUNDDOWN va in
    kbind (uva2ka pd va0) (\<lambda>pa0.
    if pa0 = 0 then ret (- 1)
    else
      let n = min (length (x # p)) (unat (PGSIZE - (va - va0))) in
      kseq (modify (\<lambda>s. s\<lparr>mem := store_bytes (mem s) (pa0 + (va - va0)) (take n (x # p))\<rparr>)) (
      copyout_loop fuel pd (va0 + PGSIZE) (drop n (x # p)))))"

definition copyout :: "uint \<Rightarrow> uint \<Rightarrow> uchar list \<Rightarrow> ('a kmemst_scheme, int) kmon" where
  "copyout pd va p = copyout_loop (length p) pd va p"

end
