(* ===== verification/Kprintf.thy ===== *)
theory Kprintf
  imports Kern
begin

text \<open>
  The formatted output of \<^verbatim>\<open>console.c\<close>: \<^verbatim>\<open>printint\<close> and the format interpreter of \<^verbatim>\<open>cprintf\<close>, as functions
  to the characters given to \<^verbatim>\<open>consputc\<close>. An argument of \<^verbatim>\<open>cprintf\<close> is a word, or for \<^verbatim>\<open>%s\<close> a string or the
  null pointer; a format that asks for more arguments than there are has no result.
\<close>

section \<open>Operations\<close>

datatype farg = FInt uint | FStr "string option"

definition digit :: "uint \<Rightarrow> char" where
  "digit d = ''0123456789abcdef'' ! unat d"

text \<open>The digits, least significant first; the loop ends because the base is at least 2.\<close>

function digits :: "uint \<Rightarrow> uint \<Rightarrow> string" where
  "digits b x =
    (if x div b = 0 \<or> b < 2 then [digit (x mod b)] else digit (x mod b) # digits b (x div b))"
  by auto
termination
proof (relation "measure (\<lambda>(b, x). unat x)")
  fix b x :: uint
  assume "\<not> (x div b = 0 \<or> b < 2)"
  then have "1 < unat b" "0 < unat x" by (auto simp: word_less_nat_alt unat_gt_0)
  then show "((b, x div b), (b, x)) \<in> measure (\<lambda>(b, x). unat x)" by (simp add: unat_div)
qed simp

declare digits.simps [simp del]

definition printint :: "uint \<Rightarrow> uint \<Rightarrow> bool \<Rightarrow> string" where
  "printint xx b sign =
    (let neg = sign \<and> sint xx < 0 in
     rev (digits b (if neg then - xx else xx) @ (if neg then ''-'' else [])))"

definition cat_opt :: "string \<Rightarrow> string option \<Rightarrow> string option" where
  "cat_opt xs r = map_option ((@) xs) r"

fun format :: "string \<Rightarrow> farg list \<Rightarrow> string option" where
  "format [] args = Some []"
| "format [c] args = Some (if c = CHR ''%'' then [] else [c])"
| "format (c # d # fmt) args =
    (if c \<noteq> CHR ''%'' then cat_opt [c] (format (d # fmt) args)
     else if d = CHR ''d'' then
       (case args of FInt w # as \<Rightarrow> cat_opt (printint w 10 True) (format fmt as) | _ \<Rightarrow> None)
     else if d = CHR ''x'' \<or> d = CHR ''p'' then
       (case args of FInt w # as \<Rightarrow> cat_opt (printint w 16 False) (format fmt as) | _ \<Rightarrow> None)
     else if d = CHR ''s'' then
       (case args of FStr so # as \<Rightarrow> cat_opt (case so of None \<Rightarrow> ''(null)'' | Some s \<Rightarrow> s) (format fmt as) | _ \<Rightarrow> None)
     else if d = CHR ''%'' then cat_opt ''%'' (format fmt args)
     else cat_opt [CHR ''%'', d] (format fmt args))"

definition kprintf :: "string \<Rightarrow> farg list \<Rightarrow> ('a pst_scheme, unit) kmon" where
  "kprintf fmt args =
    (case format fmt args of None \<Rightarrow> stop (Undef ''va_arg'') | Some s \<Rightarrow> cprintf s)"

section \<open>Reading numbers back\<close>

lemma uint_abs_sint:
  fixes x :: uint
  shows "uint (if sint x < 0 then - x else x) = \<bar>sint x\<bar>"
proof -
  define k where "k = \<bar>sint x\<bar>"
  have x: "x = word_of_int (sint x)" by simp
  have "(if sint x < 0 then - x else x) = word_of_int k"
    by (subst (2 3) x) (simp add: k_def wi_hom_neg)
  moreover have "0 \<le> k" "k < 2 ^ 32" using sint_greater_eq[of x] sint_less[of x] by (auto simp: k_def)
  ultimately show ?thesis by (simp add: k_def[symmetric] unsigned_of_int take_bit_int_eq_self)
qed

definition digit_val :: "char \<Rightarrow> nat" where
  "digit_val c = length (takeWhile (\<lambda>d. d \<noteq> c) ''0123456789abcdef'')"

text \<open>The value of digits, least significant first, and of a printed number with its sign.\<close>

fun digits_val :: "nat \<Rightarrow> string \<Rightarrow> nat" where
  "digits_val b [] = 0"
| "digits_val b (c # cs) = digit_val c + b * digits_val b cs"

definition read_int :: "nat \<Rightarrow> string \<Rightarrow> int" where
  "read_int b cs =
    (if cs \<noteq> [] \<and> hd cs = CHR ''-'' then - int (digits_val b (rev (tl cs))) else int (digits_val b (rev cs)))"

lemma digit_val_digit: "unat d < 16 \<Longrightarrow> digit_val (digit d) = unat d"
proof -
  have "\<forall>i < 16. digit_val (''0123456789abcdef'' ! i) = i" by code_simp
  then show "unat d < 16 \<Longrightarrow> digit_val (digit d) = unat d" by (simp add: digit_def)
qed

lemma digit_not_minus: "unat d < 16 \<Longrightarrow> digit d \<noteq> CHR ''-''"
proof -
  have "\<forall>i < 16. ''0123456789abcdef'' ! i \<noteq> CHR ''-''" by code_simp
  then show "unat d < 16 \<Longrightarrow> digit d \<noteq> CHR ''-''" by (simp add: digit_def)
qed

lemma digits_ok:
  assumes "2 \<le> unat b" "unat b \<le> 16"
  shows "digits_val (unat b) (digits b x) = unat x \<and> digits b x \<noteq> [] \<and> CHR ''-'' \<notin> set (digits b x)"
proof (induction x rule: measure_induct_rule[of unat])
  case (less x)
  have m2: "unat (x mod b) = unat x mod unat b" by (simp add: unat_mod)
  have "unat x mod unat b < unat b" using assms by simp
  then have m1: "unat (x mod b) < 16" using assms m2 by linarith
  note m = m1 m2
  show ?case
  proof (cases "x div b = 0")
    case True
    then have "unat x div unat b = 0" by (metis unat_0 unat_div)
    then have "unat x mod unat b = unat x" using assms by (simp add: div_eq_0_iff)
    then show ?thesis using True m digit_val_digit[OF m(1)] digit_not_minus[OF m(1)] by (simp add: digits.simps)
  next
    case False
    then have "0 < unat x" by (auto simp: unat_gt_0)
    then have "unat (x div b) < unat x" using assms by (simp add: unat_div)
    from less.IH[OF this] False m digit_val_digit[OF m(1)] digit_not_minus[OF m(1)] assms
    show ?thesis by (subst (1 2 3) digits.simps) (simp add: word_less_nat_alt unat_div mod_mult_div_eq)
  qed
qed

lemma length_digits:
  assumes "2 \<le> unat b" "unat x < unat b ^ n" "0 < n"
  shows "length (digits b x) \<le> n"
  using assms
proof (induction n arbitrary: x)
  case (Suc n)
  show ?case
  proof (cases "x div b = 0")
    case True
    then show ?thesis by (simp add: digits.simps)
  next
    case False
    have "unat (x div b) < unat b ^ n"
      using Suc.prems by (simp add: unat_div less_mult_imp_div_less mult.commute)
    moreover have "n \<noteq> 0"
    proof
      assume "n = 0"
      then have "unat (x div b) = 0" using calculation by simp
      then show False using False by (simp add: unat_eq_zero)
    qed
    ultimately have "length (digits b (x div b)) \<le> n" using Suc by simp
    then show ?thesis using False Suc.prems(1) by (simp add: digits.simps[of b x])
  qed
qed simp

text \<open>
  C19. \<^verbatim>\<open>printint\<close> prints a number that reads back as itself, in base 10 and 16, signed (including the smallest
  integer, whose negation overflows) and unsigned, and never writes past its 16-byte buffer.
\<close>

theorem printint_roundtrip:
  assumes "b = 10 \<or> b = 16"
  shows "read_int (unat b) (printint x b sign) = (if sign then sint x else uint x) \<and>
    length (printint x b sign) \<le> 16"
proof -
  have b: "2 \<le> unat b" "unat b \<le> 16" using assms by auto
  define neg where "neg \<longleftrightarrow> sign \<and> sint x < 0"
  define y where "y = (if neg then - x else x)"
  have pr: "printint x b sign = (if neg then ''-'' else []) @ rev (digits b y)"
    by (simp add: printint_def neg_def y_def Let_def)
  have d: "digits_val (unat b) (digits b y) = unat y" "digits b y \<noteq> []" "CHR ''-'' \<notin> set (digits b y)"
    using digits_ok[OF b, of y] by auto
  have hd: "hd (rev (digits b y)) \<noteq> CHR ''-''"
    using d(2,3) by (metis hd_in_set rev_is_Nil_conv set_rev)
  have rd: "read_int (unat b) (printint x b sign) = (if neg then - int (unat y) else int (unat y))"
    using d hd by (simp add: pr read_int_def)
  have "read_int (unat b) (printint x b sign) = (if sign then sint x else uint x)"
    using uint_abs_sint[of x] unfolding rd by (auto simp: neg_def y_def split: if_splits)
  moreover have "unat y < 2 ^ 32" using unsigned_less[of y] by simp
  then have "unat y < unat b ^ 10" using assms by auto
  then have "length (digits b y) \<le> 10" using length_digits[OF b(1)] by simp
  then have "length (printint x b sign) \<le> 16" by (simp add: pr)
  ultimately show ?thesis by simp
qed

theorem printint_roundtrip_witness:
  "read_int 10 (printint 0x80000000 10 True) = - 2147483648 \<and> length (printint 0x80000000 10 True) \<le> 16"
  using printint_roundtrip[of 10 "0x80000000" True] by simp

end
