(* ===== verification/Proc.thy ===== *)
theory Proc
  imports File Vm Kprintf
begin

text \<open>
  The life cycle of processes in \<^verbatim>\<open>proc.c\<close>: \<^verbatim>\<open>allocproc\<close>, \<^verbatim>\<open>userinit\<close>, \<^verbatim>\<open>growproc\<close>, \<^verbatim>\<open>fork\<close>, \<^verbatim>\<open>exit\<close>,
  \<^verbatim>\<open>wait\<close>, and the listings of the process table. The code outside the sources appears as arguments: the
  linker's addresses \<open>kend\<close> and \<open>kdata\<close>, the bytes of \<^verbatim>\<open>initcode.S\<close>, the device switch.

  \<open>exit\<close> ends at its switch to the scheduler. The trap frame and the saved context, which the code
  places on the kernel stack, are fields of the process.
\<close>

definition NOFILE :: nat where [layout]: "NOFILE = 16"
definition UID0 :: uint where [layout]: "UID0 = 0"
definition GID0 :: uint where [layout]: "GID0 = 0"
definition STRMAX :: nat where [layout]: "STRMAX = 32"
definition PNAME :: nat where [layout]: "PNAME = 16"

fun states :: "procstate \<Rightarrow> string" where
  "states UNUSED = ''unused''"
| "states EMBRYO = ''embryo''"
| "states SLEEPING = ''sleep ''"
| "states RUNNABLE = ''runble''"
| "states RUNNING = ''run   ''"
| "states ZOMBIE = ''zombie''"

definition pinit :: "('a pst_scheme, unit) kmon" where
  "pinit = initlock PtableLock"

section \<open>Creation\<close>

definition take_embryo :: "nat \<Rightarrow> ('a pst_scheme, unit) kmon" where
  "take_embryo p =
    kseq (assertState (Some p) UNUSED) (
    kbind (removeFromStateList LFree (Some p)) (\<lambda>r.
    kseq (warn r ''Failed to remove proc from UNUSED list (allocproc).'') (
    kseq (set_proc p (\<lambda>r. r\<lparr>state := EMBRYO\<rparr>)) (
    kbind (addToStateListHead LEmbryo (Some p)) (\<lambda>r.
    kseq (warn r ''Failed to add proc to EMBRYO list (allocproc).'') (
    kbind (gets nextpid) (\<lambda>n.
    kseq (modify (\<lambda>s. s\<lparr>nextpid := n + 1\<rparr>)) (
    set_proc p (\<lambda>r. r\<lparr>pid := n\<rparr>)))))))))"

definition allocproc :: "('a pst_scheme, nat option) kmon" where
  "allocproc =
    kseq (acquire PtableLock) (
    kbind (get_head LFree) (\<lambda>h.
    case h of
      None \<Rightarrow> kseq (release PtableLock) (ret None)
    | Some p \<Rightarrow>
        kseq (take_embryo p) (
        kseq (release PtableLock) (
        kbind kalloc (\<lambda>k.
        kseq (set_proc p (\<lambda>r. r\<lparr>kstack := k\<rparr>)) (
        if k = 0 then
          kseq (assertState (Some p) EMBRYO) (
          kbind (removeFromStateList LEmbryo (Some p)) (\<lambda>_.
          kseq (set_proc p (\<lambda>r. r\<lparr>state := UNUSED\<rparr>)) (
          kbind (addToStateListHead LFree (Some p)) (\<lambda>r.
          kseq (warn r ''Not enough room for process stack; Failed to add proc to UNUSED list (allocproc).'') (
          ret None)))))
        else
          kbind (gets ticks) (\<lambda>now.
          kseq (set_proc p (\<lambda>r. r\<lparr>ctxt := Some AtForkret, start_ticks := now, cpu_ticks_total := 0,
            cpu_ticks_in := 0, budget := BUDGET, priority := 0\<rparr>)) (
          ret (Some p)))))))))"

definition first_tf :: trapframe where
  "first_tf = \<lparr>tf_edi = 0, tf_esi = 0, tf_ebp = 0, tf_oesp = 0, tf_ebx = 0, tf_edx = 0, tf_ecx = 0, tf_eax = 0,
    tf_gs = 0, tf_fs = 0, tf_es = 0x2B, tf_ds = 0x2B, tf_trapno = 0, tf_err = 0, tf_eip = 0, tf_cs = 0x23,
    tf_eflags = 0x200, tf_esp = PGSIZE, tf_ss = 0x2B\<rparr>"

definition init_lists :: "nat \<Rightarrow> ('a pst_scheme, unit) kmon" where
  "init_lists p =
    kseq (set_proc p (\<lambda>r. r\<lparr>state := RUNNABLE\<rparr>)) (
    kseq (set_head (LReady 0) (Some p)) (
    kseq (set_next p None) (
    kseq (kfor (\<lambda>i. set_head (LReady i) None) [1..<MAXPRIO + 1]) (
    kseq (set_head LSleep None) (
    kseq (set_head LZombie None) (
    kseq (set_head LRunning None) (
    set_head LEmbryo None)))))))"

definition userinit :: "uint \<Rightarrow> uchar list \<Rightarrow> 'a ist_scheme devsw \<Rightarrow> ('a ist_scheme, unit) kmon" where
  "userinit kdata initcode dv =
    kseq (modify (\<lambda>s. s\<lparr>promoteAtTime := TIME_TO_PROMOTE\<rparr>)) (
    kseq (kfor (\<lambda>p.
      kseq (assertState (Some p) UNUSED) (
      kbind (addToStateListEnd LFree (Some p)) (\<lambda>r.
      if r = - 1 then panic ''Failed to add proc to UNUSED list.'' else ret ()))) [0..<NPROC]) (
    kbind allocproc (\<lambda>po.
    kseq (modify (\<lambda>s. s\<lparr>initproc := po\<rparr>)) (
    kbind (setupkvm kdata) (\<lambda>pd.
    case po of None \<Rightarrow> stop (Undef ''null pointer'') | Some p \<Rightarrow>
    kseq (set_proc p (\<lambda>r. r\<lparr>pgdir := pd\<rparr>)) (
    if pd = 0 then panic ''userinit: out of memory?''
    else
      kseq (inituvm pd initcode) (
      kseq (set_proc p (\<lambda>r. r\<lparr>sz := PGSIZE, tf := first_tf, uid := UID0, gid := GID0, parent := Some p,
        pname := safestrcpy_l PNAME (str ''initcode'')\<rparr>)) (
      kbind (namei dv (str ''/'')) (\<lambda>d.
      kseq (set_proc p (\<lambda>r. r\<lparr>cwd := d\<rparr>)) (
      kseq (assertState (Some p) EMBRYO) (
      kbind (removeFromStateList LEmbryo (Some p)) (\<lambda>r.
      kseq (warn r ''Failed to remove EMBRYO proc from list (userinit).'') (
      init_lists p)))))))))))))"

definition growproc :: "uint \<Rightarrow> int \<Rightarrow> ('a pst_scheme, int) kmon" where
  "growproc kend n =
    kbind the_proc (\<lambda>p.
    kbind (gets (\<lambda>s. procs s p)) (\<lambda>r.
    let z = sz r in
    kbind (if n > 0 then
        kbind (allocuvm kend (pgdir r) z (z + of_int n)) (\<lambda>z'. ret (if z' = 0 then None else Some z'))
      else if n < 0 then
        kbind (deallocuvm kend (pgdir r) z (z + of_int n)) (\<lambda>z'. ret (if z' = 0 then None else Some z'))
      else ret (Some z)) (\<lambda>zo.
    case zo of
      None \<Rightarrow> ret (- 1)
    | Some z' \<Rightarrow>
        kseq (set_proc p (\<lambda>r. r\<lparr>sz := z'\<rparr>)) (
        kseq (switchuvm p) (
        ret 0)))))"

definition fork_files :: "nat \<Rightarrow> nat \<Rightarrow> ('a fist_scheme, unit) kmon" where
  "fork_files p np =
    kfor (\<lambda>i.
      kbind (gets (\<lambda>s. ofile (procs s p) ! i)) (\<lambda>fo.
      case fo of
        None \<Rightarrow> ret ()
      | Some f \<Rightarrow> kbind (filedup f) (\<lambda>f'. set_proc np (\<lambda>r. r\<lparr>ofile := (ofile r)[i := Some f']\<rparr>)))) [0..<NOFILE]"

definition fork :: "uint \<Rightarrow> uint \<Rightarrow> ('a fist_scheme, int) kmon" where
  "fork kend kdata =
    kbind allocproc (\<lambda>npo.
    case npo of None \<Rightarrow> ret (- 1) | Some np \<Rightarrow>
    kbind the_proc (\<lambda>p.
    kbind (gets (\<lambda>s. procs s p)) (\<lambda>r.
    kbind (copyuvm kend kdata (pgdir r) (sz r)) (\<lambda>d.
    kseq (set_proc np (\<lambda>r. r\<lparr>pgdir := d\<rparr>)) (
    if d = 0 then
      kbind (gets (\<lambda>s. kstack (procs s np))) (\<lambda>k.
      kseq (kfree kend k) (
      kseq (set_proc np (\<lambda>r. r\<lparr>kstack := 0\<rparr>)) (
      kseq (assertState (Some np) EMBRYO) (
      kbind (removeFromStateList LEmbryo (Some np)) (\<lambda>z.
      if z < 0 then panic ''Failed to remove proc from EMBRYO list (fork).''
      else
        kseq (set_proc np (\<lambda>r. r\<lparr>state := UNUSED\<rparr>)) (
        kbind (addToStateListHead LFree (Some np)) (\<lambda>z.
        if z < 0 then panic ''Failed to add proc to UNUSED list (fork).''
        else ret (- 1))))))))
    else
      kseq (set_proc np (\<lambda>r'. r'\<lparr>sz := sz r, parent := Some p, tf := (tf r)\<lparr>tf_eax := 0\<rparr>\<rparr>)) (
      kseq (fork_files p np) (
      kbind (case cwd r of None \<Rightarrow> stop (Undef ''null pointer'') | Some d \<Rightarrow> idup d) (\<lambda>d.
      kseq (set_proc np (\<lambda>r'. r'\<lparr>cwd := Some d, pname := safestrcpy_l PNAME (pname r), uid := uid r,
        gid := gid r\<rparr>)) (
      kbind (gets (\<lambda>s. pid (procs s np))) (\<lambda>n.
      kseq (acquire PtableLock) (
      kseq (assertState (Some np) EMBRYO) (
      kbind (removeFromStateList LEmbryo (Some np)) (\<lambda>z.
      kseq (warn z ''Failed to remove EMBRYO proc from list (fork).'') (
      kseq (set_proc np (\<lambda>r. r\<lparr>state := RUNNABLE\<rparr>)) (
      kbind (ready_ref np) (\<lambda>l.
      kbind (addToStateListEnd l (Some np)) (\<lambda>z.
      kseq (warn z ''Failed to add RUNNABLE proc to list (fork).'') (
      kseq (release PtableLock) (
      ret (sint n))))))))))))))))))))"

section \<open>Exit and wait\<close>

definition wakeup_proc :: "nat option \<Rightarrow> ('a pst_scheme, unit) kmon" where
  "wakeup_proc po = (case po of None \<Rightarrow> stop (Undef ''null channel'') | Some q \<Rightarrow> wakeup1 (ChProc q))"

definition reparent :: "nat \<Rightarrow> nat \<Rightarrow> ('a pst_scheme, unit) kmon" where
  "reparent p q =
    kbind (gets initproc) (\<lambda>ip.
    kbind (gets (\<lambda>s. parent (procs s q))) (\<lambda>po.
    kwhen (po = Some p) (set_proc q (\<lambda>r. r\<lparr>parent := ip\<rparr>))))"

definition reparent_zombie :: "nat \<Rightarrow> nat \<Rightarrow> ('a pst_scheme, unit) kmon" where
  "reparent_zombie p q =
    kbind (gets initproc) (\<lambda>ip.
    kbind (gets (\<lambda>s. parent (procs s q))) (\<lambda>po.
    kwhen (po = Some p) (
      kseq (set_proc q (\<lambda>r. r\<lparr>parent := ip\<rparr>)) (
      wakeup_proc ip))))"

definition abandon :: "nat \<Rightarrow> ('a pst_scheme, unit) kmon" where
  "abandon p =
    kseq (kbind (get_head LZombie) (each_saved NPROC (reparent_zombie p))) (
    kfor (\<lambda>l. kbind (get_head l) (each_from NPROC (reparent p)))
      [LRunning, LReady 0, LReady 1, LReady 2, LSleep, LEmbryo, LFree])"

definition close_files :: "uint \<Rightarrow> nat \<Rightarrow> ('a fist_scheme, unit) kmon" where
  "close_files kend p =
    kfor (\<lambda>fd.
      kbind (gets (\<lambda>s. ofile (procs s p) ! fd)) (\<lambda>fo.
      case fo of
        None \<Rightarrow> ret ()
      | Some f \<Rightarrow>
          kseq (fileclose kend f) (
          set_proc p (\<lambda>r. r\<lparr>ofile := (ofile r)[fd := None]\<rparr>)))) [0..<NOFILE]"

definition exit_enter :: "uint \<Rightarrow> ('a fist_scheme, unit) kmon" where
  "exit_enter kend =
    kbind (gets me) (\<lambda>po.
    kbind (gets initproc) (\<lambda>ip.
    if po = ip then panic ''init exiting''
    else
      kbind the_proc (\<lambda>p.
      kseq (close_files kend p) (
      kseq begin_op (
      kbind (gets (\<lambda>s. cwd (procs s p))) (\<lambda>d.
      kseq (case d of None \<Rightarrow> stop (Undef ''null pointer'') | Some i \<Rightarrow> iput i) (
      kseq end_op (
      kseq (set_proc p (\<lambda>r. r\<lparr>cwd := None\<rparr>)) (
      kseq (acquire PtableLock) (
      kbind (gets (\<lambda>s. parent (procs s p))) (\<lambda>par.
      kseq (wakeup_proc par) (
      kseq (abandon p) (
      kseq (assertState (Some p) RUNNING) (
      kbind (removeFromStateList LRunning (Some p)) (\<lambda>r.
      kseq (warn r ''Failed to remove RUNNING proc from list (exit).'') (
      kseq (set_proc p (\<lambda>r. r\<lparr>state := ZOMBIE\<rparr>)) (
      kbind (addToStateListHead LZombie (Some p)) (\<lambda>r.
      kseq (warn r ''Failed to add ZOMBIE proc to list (exit).'') (
      kbind sched_enter (\<lambda>i.
      set_proc p (\<lambda>r. r\<lparr>ctxt := Some (InExit i)\<rparr>)))))))))))))))))))))"

definition reap :: "uint \<Rightarrow> nat \<Rightarrow> ('a pst_scheme, int) kmon" where
  "reap kend q =
    kbind (gets (\<lambda>s. procs s q)) (\<lambda>r.
    kseq (kfree kend (kstack r)) (
    kseq (set_proc q (\<lambda>r. r\<lparr>kstack := 0\<rparr>)) (
    kseq (freevm kend (pgdir r)) (
    kseq (assertState (Some q) ZOMBIE) (
    kbind (removeFromStateList LZombie (Some q)) (\<lambda>z.
    kseq (warn z ''Failed to remove ZOMBIE process from list (wait).'') (
    kseq (set_proc q (\<lambda>r. r\<lparr>state := UNUSED\<rparr>)) (
    kbind (addToStateListHead LFree (Some q)) (\<lambda>z.
    kseq (warn z ''Failed to add UNUSED process to list (wait).'') (
    kseq (set_proc q (\<lambda>r. r\<lparr>pid := 0, parent := None, pname := [], killed := False\<rparr>)) (
    kseq (release PtableLock) (
    ret (sint (pid r))))))))))))))"

definition child_on :: "nat \<Rightarrow> lref \<Rightarrow> ('a pst_scheme, nat option) kmon" where
  "child_on p l = kbind (get_head l) (find_from NPROC (\<lambda>r. parent r = Some p))"

text \<open>One round of the loop of \<open>wait\<close>, entered with the table lock held.\<close>

definition wait_round :: "uint \<Rightarrow> ('a pst_scheme, int) kmon" where
  "wait_round kend =
    kbind the_proc (\<lambda>p.
    kbind (child_on p LZombie) (\<lambda>zo.
    case zo of
      Some q \<Rightarrow> reap kend q
    | None \<Rightarrow>
        kbind (kfind (child_on p) [LReady 0, LReady 1, LReady 2, LRunning, LSleep]) (\<lambda>kid.
        kbind (gets (\<lambda>s. killed (procs s p))) (\<lambda>k.
        if kid = None \<or> k then kseq (release PtableLock) (ret (- 1))
        else sleep (ChProc p) PtableLock))))"

definition wait :: "uint \<Rightarrow> ('a pst_scheme, int) kmon" where
  "wait kend = kseq (acquire PtableLock) (wait_round kend)"

section \<open>Listings\<close>

record uproc =
  u_pid :: uint
  u_uid :: uint
  u_gid :: uint
  u_ppid :: uint
  u_elapsed_ticks :: uint
  u_CPU_total_ticks :: uint
  u_state :: "uchar list"
  u_size :: uint
  u_name :: "uchar list"
  u_priority :: uint

definition parent_pid :: "nat \<Rightarrow> ('a pst_scheme, uint) kmon" where
  "parent_pid p =
    kbind (gets (\<lambda>s. parent (procs s p))) (\<lambda>po.
    case po of None \<Rightarrow> stop (Undef ''null pointer'') | Some q \<Rightarrow> gets (\<lambda>s. pid (procs s q)))"

definition uproc_of :: "nat \<Rightarrow> ('a pst_scheme, uproc) kmon" where
  "uproc_of p =
    kbind (gets (\<lambda>s. procs s p)) (\<lambda>r.
    kbind (if pid r = 1 then ret 1 else parent_pid p) (\<lambda>pp.
    kbind (gets ticks) (\<lambda>now.
    ret \<lparr>u_pid = pid r, u_uid = uid r, u_gid = gid r, u_ppid = pp, u_elapsed_ticks = now - start_ticks r,
      u_CPU_total_ticks = cpu_ticks_total r, u_state = safestrcpy_l STRMAX (str (states (state r))), u_size = sz r,
      u_name = safestrcpy_l STRMAX (pname r), u_priority = priority r\<rparr>)))"

fun getprocs_loop :: "nat \<Rightarrow> nat list \<Rightarrow> ('a pst_scheme, uproc list) kmon" where
  "getprocs_loop 0 ps = ret []"
| "getprocs_loop n [] = ret []"
| "getprocs_loop (Suc n) (p # ps) =
    kbind (gets (\<lambda>s. state (procs s p))) (\<lambda>st.
    if st \<in> {RUNNABLE, RUNNING, SLEEPING} then
      kbind (uproc_of p) (\<lambda>u.
      kbind (getprocs_loop n ps) (\<lambda>us.
      ret (u # us)))
    else getprocs_loop (Suc n) ps)"

definition getprocs :: "uint \<Rightarrow> ('a pst_scheme, uproc list) kmon" where
  "getprocs mx =
    kseq (acquire PtableLock) (
    kbind (getprocs_loop (unat mx) [0..<NPROC]) (\<lambda>us.
    kseq (release PtableLock) (
    ret us)))"

definition elapsed_time :: "uint \<Rightarrow> ('a pst_scheme, unit) kmon" where
  "elapsed_time p_ticks =
    (let whole_sec = p_ticks div 1000; e1 = p_ticks mod 1000; e2 = e1 mod 100; e3 = e2 mod 10 in
     kprintf (CHR 0x09 # ''%d.%d%d%d'') [FInt whole_sec, FInt (e1 div 100), FInt (e2 div 10), FInt e3])"

definition unstr :: "uchar list \<Rightarrow> string" where
  "unstr = map (\<lambda>c. char_of (unat c))"

definition TAB :: char where "TAB = CHR 0x09"
definition NEWL :: char where "NEWL = CHR 0x0A"

text \<open>\<open>ebp\<close> is the frame pointer in the saved context of a process.\<close>

definition dump_proc :: "(nat \<Rightarrow> uint) \<Rightarrow> nat \<Rightarrow> ('a pst_scheme, unit) kmon" where
  "dump_proc ebp p =
    kbind (gets (\<lambda>s. procs s p)) (\<lambda>r.
    kwhen (state r \<noteq> UNUSED) (
      kbind (parent_pid p) (\<lambda>pp.
      kseq (kprintf (''%d'' @ [TAB] @ ''%s'' @ [TAB] @ ''%d'' @ [TAB] @ ''%d'' @ [TAB] @ ''%d'')
        [FInt (pid r), FStr (Some (unstr (pname r))), FInt (uid r), FInt (gid r), FInt pp]) (
      kseq (kprintf ([TAB] @ ''%d'') [FInt (priority r)]) (
      kbind (gets ticks) (\<lambda>now.
      kseq (elapsed_time (now - start_ticks r)) (
      kseq (elapsed_time (cpu_ticks_total r)) (
      kseq (kprintf ([TAB] @ ''%s'' @ [TAB] @ ''%d'') [FStr (Some (states (state r))), FInt (sz r)]) (
      kbind (gets mem) (\<lambda>m.
      kseq (kwhen (state r = SLEEPING) (
        kfor (\<lambda>pc. kprintf ([TAB] @ ''%p'') [FInt pc])
          (takeWhile (\<lambda>pc. pc \<noteq> 0) (getcallerpcs (load32 m) (ebp p + 8))))) (
      kprintf [NEWL] [])))))))))))"

definition procdump :: "(nat \<Rightarrow> uint) \<Rightarrow> ('a pst_scheme, unit) kmon" where
  "procdump ebp =
    kseq (kprintf ([NEWL] @ ''%s'' @ concat (replicate 10 ([TAB] @ ''%s'')) @ [NEWL])
      (map (\<lambda>x. FStr (Some x)) [''PID'', ''Name'', ''UID'', ''GID'', ''PPID'', ''Prio'', ''Elapsed'', ''CPU'',
        ''State'', ''Size'', ''PCs''])) (
    kfor (dump_proc ebp) [0..<NPROC])"

definition print_chain :: "string \<Rightarrow> (nat \<Rightarrow> ('a pst_scheme, farg list) kmon) \<Rightarrow> nat option \<Rightarrow> ('a pst_scheme, unit) kmon" where
  "print_chain fmt args =
    each_from NPROC (\<lambda>p.
      kbind (args p) (\<lambda>as.
      kbind (get_next p) (\<lambda>nx.
      kprintf (if nx \<noteq> None then fmt @ '' -> '' else fmt) as)))"

definition print_ready :: "nat \<Rightarrow> ('a pst_scheme, unit) kmon" where
  "print_ready i =
    kbind (get_head (LReady i)) (\<lambda>h.
    if h \<noteq> None then
      kseq (kprintf ([NEWL] @ ''%d: '') [FInt (of_nat i)]) (
      kseq (print_chain ''(%d, %d)'' (\<lambda>p. gets (\<lambda>s. [FInt (pid (procs s p)), FInt (budget (procs s p))])) h) (
      kprintf [NEWL] []))
    else kprintf ([NEWL] @ ''%d: Empty.'' @ [NEWL]) [FInt (of_nat i)])"

definition printReadyList :: "('a pst_scheme, unit) kmon" where
  "printReadyList =
    kseq (kprintf ([NEWL] @ ''Ready List Processes:'' @ [NEWL]) []) (
    kfor print_ready [0..<MAXPRIO + 1])"

fun chain_length :: "nat \<Rightarrow> nat option \<Rightarrow> ('a pst_scheme, nat) kmon" where
  "chain_length n None = ret 0"
| "chain_length 0 (Some p) = stop Diverge"
| "chain_length (Suc n) (Some p) = kbind (get_next p) (\<lambda>nx. kbind (chain_length n nx) (\<lambda>k. ret (Suc k)))"

definition printFreeList :: "('a pst_scheme, unit) kmon" where
  "printFreeList =
    kbind (get_head LFree) (\<lambda>h.
    if h \<noteq> None then
      kbind (chain_length NPROC h) (\<lambda>k.
      kprintf ([NEWL] @ ''Free List Size: %d processes'' @ [NEWL]) [FInt (of_nat k)])
    else kprintf ([NEWL] @ ''No processes on Free List.'' @ [NEWL]) [])"

definition printSleepList :: "('a pst_scheme, unit) kmon" where
  "printSleepList =
    kbind (get_head LSleep) (\<lambda>h.
    if h \<noteq> None then
      kseq (kprintf ([NEWL] @ ''Sleep List Processes:'' @ [NEWL]) []) (
      kseq (print_chain ''%d'' (\<lambda>p. gets (\<lambda>s. [FInt (pid (procs s p))])) h) (
      kprintf [NEWL] []))
    else kprintf ([NEWL] @ ''No processes on Sleep List.'' @ [NEWL]) [])"

definition printZombieList :: "('a pst_scheme, unit) kmon" where
  "printZombieList =
    kbind (get_head LZombie) (\<lambda>h.
    if h \<noteq> None then
      kseq (kprintf ([NEWL] @ ''Zombie List Processes:'' @ [NEWL]) []) (
      kseq (print_chain ''(%d, %d)'' (\<lambda>p.
        kbind (gets (\<lambda>s. pid (procs s p))) (\<lambda>n.
        kbind (parent_pid p) (\<lambda>pp. ret [FInt n, FInt pp]))) h) (
      kprintf [NEWL] []))
    else kprintf ([NEWL] @ ''No processes on Zombie List.'' @ [NEWL]) [])"

end
