(* ===== verification/Syscall.thy ===== *)
theory Syscall
  imports Proc
begin

text \<open>
  The argument access of \<^verbatim>\<open>syscall.c\<close>. A system call finds its arguments on the user stack of the current
  process; each is read through the page table after a check against the size of the process. A
  string argument is returned as its bytes, a pointer argument as the checked user address.
\<close>

definition cur :: "('a pst_scheme, proc) kmon" where
  "cur = kbind the_proc (\<lambda>p. gets (\<lambda>s. procs s p))"

definition fetchint :: "uint \<Rightarrow> ('a pst_scheme, uint option) kmon" where
  "fetchint addr =
    kbind cur (\<lambda>r.
    if addr \<ge> sz r \<or> addr + 4 > sz r then ret None
    else kbind (uloads (pgdir r) addr 4) (\<lambda>bs. ret (Some (word32 bs))))"

text \<open>The scan of \<open>fetchstr\<close> sees at most the bytes from \<open>addr\<close> to the end of the process.\<close>

fun fetchstr_loop :: "nat \<Rightarrow> uint \<Rightarrow> uint \<Rightarrow> ('a kmemst_scheme, uchar list option) kmon" where
  "fetchstr_loop 0 pd s = ret None"
| "fetchstr_loop (Suc n) pd s =
    kbind (uload pd s) (\<lambda>c.
    if c = 0 then ret (Some [])
    else kbind (fetchstr_loop n pd (s + 1)) (\<lambda>r. ret (map_option ((#) c) r)))"

definition fetchstr :: "uint \<Rightarrow> ('a pst_scheme, uchar list option) kmon" where
  "fetchstr addr =
    kbind cur (\<lambda>r.
    if addr \<ge> sz r then ret None
    else fetchstr_loop (unat (sz r) - unat addr) (pgdir r) addr)"

definition argint :: "nat \<Rightarrow> ('a pst_scheme, uint option) kmon" where
  "argint n = kbind cur (\<lambda>r. fetchint (tf_esp (tf r) + 4 + 4 * of_nat n))"

definition argptr :: "nat \<Rightarrow> uint \<Rightarrow> ('a pst_scheme, uint option) kmon" where
  "argptr n len =
    kbind (argint n) (\<lambda>io.
    case io of None \<Rightarrow> ret None | Some i \<Rightarrow>
    kbind cur (\<lambda>r.
    if i \<ge> sz r \<or> i + len > sz r then ret None else ret (Some i)))"

definition argstr :: "nat \<Rightarrow> ('a pst_scheme, uchar list option) kmon" where
  "argstr n = kbind (argint n) (\<lambda>ao. case ao of None \<Rightarrow> ret None | Some a \<Rightarrow> fetchstr a)"

text \<open>Kernel stores to the memory of the current process.\<close>

definition user_store :: "uint \<Rightarrow> uchar list \<Rightarrow> ('a pst_scheme, unit) kmon" where
  "user_store va bs = kbind cur (\<lambda>r. ustores (pgdir r) va bs)"

definition user_load :: "uint \<Rightarrow> nat \<Rightarrow> ('a pst_scheme, uchar list) kmon" where
  "user_load va n = kbind cur (\<lambda>r. uloads (pgdir r) va n)"

end
