(* ===== verification/Pagetab.thy ===== *)
theory Pagetab
  imports Vm
begin

text \<open>
  What the page tables of \<^verbatim>\<open>vm.c\<close> mean. \<open>vm_rep\<close> describes all page directories in use at once: the tables they point to,
  the free list, and that no page has two roles. Under it \<open>xlate\<close> depends only on \<open>leaf\<close>, the entry of an
  address, \<^verbatim>\<open>walkpgdir\<close> leaves every entry as it is, and storing an entry changes that entry of that directory only.
  From this follow the properties of \<^verbatim>\<open>mappages\<close> and of the copying loop of \<^verbatim>\<open>copyuvm\<close>.
\<close>

section \<open>Words and page table entries\<close>

lemma p2v_v2p [simp]: "p2v (v2p a) = a" "v2p (p2v a) = a"
  by (simp_all add: p2v_def v2p_def)

lemma aligned_bits: "aligned x \<longleftrightarrow> (\<forall>n < 12. \<not> bit x n)"
proof -
  have "aligned x \<longleftrightarrow> take_bit 12 x = 0" by (simp add: aligned_def PGSIZE_def take_bit_eq_mod)
  also have "\<dots> \<longleftrightarrow> (\<forall>n < 12. \<not> bit x n)" by (auto simp: bit_eq_iff bit_simps)
  finally show ?thesis .
qed

lemma small_bits: "(f :: uint) < 4096 \<Longrightarrow> bit f n \<Longrightarrow> n < 12"
proof -
  assume "f < 4096" "bit f n"
  then have "take_bit 12 f = f" by (simp add: take_bit_eq_mod unat_mod word_less_nat_alt word_unat_eq_iff)
  then show "n < 12" using \<open>bit f n\<close> by (metis bit_take_bit_iff)
qed

lemma mask12: "(0xFFF :: uint) = mask 12" by (simp add: mask_eq_exp_minus_1)

lemma pte_addr:
  assumes "aligned x" "f < 4096"
  shows "PTE_ADDR (x OR f) = x" "PTE_FLAGS (x OR f) = f"
  using assms small_bits[OF assms(2)]
  by (auto simp: PTE_ADDR_def PTE_FLAGS_def mask12 aligned_bits bit_simps intro!: bit_word_eqI)

lemma pte_bit:
  assumes "aligned x" "n < 12"
  shows "(x OR f) AND push_bit n 1 = f AND push_bit n 1"
  using assms by (intro bit_word_eqI) (auto simp: aligned_bits bit_simps)

lemma pte_flag:
  assumes "aligned x"
  shows "(x OR f) AND PTE_P = f AND PTE_P" "(x OR f) AND PTE_W = f AND PTE_W" "(x OR f) AND PTE_U = f AND PTE_U"
  using pte_bit[OF assms, of 0 f] pte_bit[OF assms, of 1 f] pte_bit[OF assms, of 2 f] by (simp_all add: layout)

lemma aligned_p2v: "aligned (p2v a) = aligned a" "aligned (v2p a) = aligned a"
proof -
  have *: "aligned (a + KERNBASE) = aligned a" for a
    by (simp add: aligned_unat unat_word_ariths layout mod_mod_cancel) (simp add: mod_add_eq[symmetric, of "unat a" 2147483648])
  show "aligned (p2v a) = aligned a" "aligned (v2p a) = aligned a" using *[of a] *[of "v2p a"] by (simp_all add: p2v_def v2p_def)
qed

lemma mask10: "x AND 0x3FF = take_bit 10 (x :: uint)"
  by (simp add: take_bit_eq_mask mask_eq_exp_minus_1)

lemma unat_PDX: "unat (PDX va) = unat va div 2 ^ 22"
proof -
  have "unat va div 2 ^ 22 < 2 ^ 10" using uint32_less[of va] by (simp add: div_less_iff_less_mult)
  then show ?thesis by (simp add: PDX_def mask10 unat_drop_bit_eq drop_bit_eq_div take_bit_eq_mod unat_mod unat_div)
qed

lemma unat_PTX: "unat (PTX va) = unat va div 2 ^ 12 mod 2 ^ 10"
  by (simp add: PTX_def mask10 unat_drop_bit_eq drop_bit_eq_div take_bit_eq_mod unat_mod unat_div)

lemma page_index: "PDX a = PDX b \<and> PTX a = PTX b \<longleftrightarrow> PGROUNDDOWN a = PGROUNDDOWN b"
proof -
  have 1: "PDX a = PDX b \<and> PTX a = PTX b \<longleftrightarrow> unat a div 2 ^ 12 = unat b div 2 ^ 12"
  proof -
    have d: "unat x div 2 ^ 22 = unat x div 2 ^ 12 div 2 ^ 10" for x :: uint by (simp add: div_mult2_eq[symmetric])
    show ?thesis unfolding word_unat_eq_iff unat_PDX unat_PTX d by (metis div_mult_mod_eq)
  qed
  have "unat x - unat x mod 4096 = unat x div 4096 * 4096" for x :: uint by (simp add: minus_mod_eq_div_mult)
  then have "PGROUNDDOWN a = PGROUNDDOWN b \<longleftrightarrow> unat a div 4096 = unat b div 4096"
    by (simp add: word_unat_eq_iff unat_PGROUNDDOWN)
  then show ?thesis using 1 by simp
qed

lemma index_less: "unat (PDX a) < 1024" "unat (PTX a) < 1024"
  using uint32_less[of a] by (simp_all add: unat_PDX unat_PTX div_less_iff_less_mult)

text \<open>Words of different pages or at different indices do not overlap.\<close>

lemma unat_word_in_page:
  assumes "aligned t" "unat i < 1024" "k < 4"
  shows "unat (t + 4 * i + of_nat k) = unat t + 4 * unat i + k"
proof -
  have i: "unat (4 * i + of_nat k :: uint) = 4 * unat i + k" using assms(2,3) by (simp add: unat_word_ariths unat_of_nat)
  then have "unat (t + (4 * i + of_nat k)) = unat t + (4 * unat i + k)"
    using aligned_add[OF assms(1), of "4 * i + of_nat k"] assms(2,3) by simp
  then show ?thesis by (simp add: add.assoc)
qed

lemma word_apart:
  assumes "aligned t" "aligned u" "unat i < 1024" "unat j < 1024" "(t, i) \<noteq> (u, j)" "k < 4" "l < 4"
  shows "t + 4 * i + of_nat k \<noteq> u + 4 * j + of_nat l"
proof
  assume "t + 4 * i + of_nat k = u + 4 * j + of_nat l"
  then have e: "unat t + 4 * unat i + k = unat u + 4 * unat j + l"
    using unat_word_in_page[OF assms(1,3,6)] unat_word_in_page[OF assms(2,4,7)] by simp
  obtain p q where pq: "unat t = 4096 * p" "unat u = 4096 * q"
    using assms(1,2) by (metis aligned_unat dvd_eq_mod_eq_0 dvdE)
  have s: "4 * unat i + k < 4096" "4 * unat j + l < 4096" using assms(3,4,6,7) by simp_all
  have "(4096 * p + (4 * unat i + k)) div 4096 = (4096 * q + (4 * unat j + l)) div 4096"
    using e pq by (simp add: add.assoc)
  then have "p = q" using s by (simp add: div_mult_self4)
  then have "(4 * unat i + k) div 4 = (4 * unat j + l) div 4" using e pq by simp
  then have "unat i = unat j" using assms(6,7) by simp
  then show False using assms(5) pq \<open>p = q\<close> by (simp add: word_unat_eq_iff)
qed

lemma load32_store32_apart:
  assumes "aligned t" "aligned u" "unat i < 1024" "unat j < 1024" "(t, i) \<noteq> (u, j)"
  shows "load32 (store32 m (t + 4 * i) w) (u + 4 * j) = load32 m (u + 4 * j)"
proof -
  have b: "store32 m (t + 4 * i) w (u + 4 * j + of_nat l) = m (u + 4 * j + of_nat l)" if "l < 4" for l
    using word_apart[OF assms _ that, of 0] word_apart[OF assms _ that, of 1] word_apart[OF assms _ that, of 2]
      word_apart[OF assms _ that, of 3] by (simp add: store32_def del: add_left_cancel add_right_cancel)
  show ?thesis using b[of 0] b[of 1] b[of 2] b[of 3] by (simp add: load32_def)
qed

text \<open>Memory as words of pages.\<close>

definition pw :: "memory \<Rightarrow> uint \<Rightarrow> uint \<Rightarrow> uint" where
  "pw m x i = load32 m (x + 4 * i)"

lemma pw_0: "load32 m x = pw m x 0"
  by (simp add: pw_def)

lemma pw_store:
  assumes "aligned x" "aligned y" "unat i < 1024" "unat j < 1024"
  shows "pw (store32 m (x + 4 * i) w) y j = (if x = y \<and> i = j then w else pw m y j)"
  using load32_store32_apart[OF assms] by (auto simp: pw_def load32_store32)

lemma byte_of_word: "unat j < 1024 \<Longrightarrow> l < 4 \<Longrightarrow> unat (4 * j + of_nat l :: uint) = 4 * unat j + l"
  by (simp add: unat_word_ariths unat_of_nat)

lemma pw_memset:
  assumes "aligned x" "aligned y" "unat j < 1024"
  shows "pw (memset m x 0 PGSIZE) y j = (if x = y then 0 else pw m y j)"
proof -
  have b: "memset_at m x 0 PGSIZE (y + 4 * j + of_nat l) = (if x = y then 0 else m (y + 4 * j + of_nat l))" if "l < 4" for l
  proof -
    have l: "unat (4 * j + of_nat l :: uint) < 4096" using byte_of_word[OF assms(3) that] assms(3) that by simp
    show ?thesis
    proof (cases "x = y")
      case True
      then show ?thesis using l by (simp add: memset_at_def PGSIZE_def word_less_nat_alt add.assoc)
    next
      case False
      then show ?thesis using memset_at_apart[OF assms(1,2) False l, of m 0] by (simp add: add.assoc)
    qed
  qed
  show ?thesis using b[of 0] b[of 1] b[of 2] b[of 3] by (simp add: pw_def load32_def memset_eq)
qed

lemma store32_page:
  assumes "aligned t" "aligned x" "t \<noteq> x" "unat i < 1024" "unat j < 4096"
  shows "store32 m (t + 4 * i) w (x + j) = m (x + j)"
proof -
  have b: "t + 4 * i + of_nat l \<noteq> x + j" if "l < 4" for l
    using aligned_apart[OF assms(1,2,3), of "4 * i + of_nat l" j] byte_of_word[OF assms(4) that] assms(4,5) that
    by (simp add: add.assoc)
  show ?thesis using b[of 0] b[of 1] b[of 2] b[of 3] by (auto simp: store32_def)
qed

definition off_pages :: "uint set \<Rightarrow> memory \<Rightarrow> memory \<Rightarrow> bool" where
  "off_pages P m m' \<longleftrightarrow> (\<forall>x j. aligned x \<longrightarrow> x \<notin> P \<longrightarrow> unat j < 4096 \<longrightarrow> m' (x + j) = m (x + j))"

lemma off_pages_refl [simp]: "off_pages P m m"
  by (simp add: off_pages_def)

lemma off_pages_trans: "off_pages P m m' \<Longrightarrow> off_pages P' m' m'' \<Longrightarrow> P' \<subseteq> P \<Longrightarrow> off_pages P m m''"
  by (auto simp: off_pages_def subset_iff)

lemma off_pages_store: "aligned t \<Longrightarrow> unat i < 1024 \<Longrightarrow> t \<in> P \<Longrightarrow> off_pages P m (store32 m (t + 4 * i) w)"
  unfolding off_pages_def using store32_page by metis

lemma off_pages_memset: "aligned t \<Longrightarrow> t \<in> P \<Longrightarrow> off_pages P m (memset m t c PGSIZE)"
  unfolding off_pages_def memset_eq using memset_at_apart by metis

section \<open>Page directories\<close>

text \<open>
  \<open>vm_rep kend H ie D T ps s\<close>: \<open>D\<close> are the page directories in use, \<open>T\<close> maps a directory and an index to the page
  table there, \<open>ps\<close> is the free list; all these pages are different. \<open>leaf\<close> is the entry for an address,
  zero when there is no table.
\<close>

fun pde_is :: "uint \<Rightarrow> uint option \<Rightarrow> bool" where
  "pde_is e None \<longleftrightarrow> e AND PTE_P = 0"
| "pde_is e (Some t) \<longleftrightarrow> e = v2p t OR 7"

definition vm_rep :: "uint \<Rightarrow> lockid set \<Rightarrow> bool \<Rightarrow> uint set \<Rightarrow> (uint \<times> uint \<Rightarrow> uint option) \<Rightarrow> uint list \<Rightarrow>
    'a kmemst_scheme \<Rightarrow> bool" where
  "vm_rep kend H ie D T ps s \<longleftrightarrow> mach_holds H ie s \<and> KmemLock \<notin> H \<and> kmem_rep kend s ps \<and>
    (\<forall>pd \<in> D. kpage kend pd) \<and> D \<inter> set ps = {} \<and>
    (\<forall>x \<in> dom T. fst x \<in> D \<and> unat (snd x) < 1024) \<and> inj_on T (dom T) \<and>
    (\<forall>t \<in> ran T. kpage kend t) \<and> ran T \<inter> D = {} \<and> ran T \<inter> set ps = {} \<and>
    (\<forall>pd \<in> D. \<forall>i. unat i < 1024 \<longrightarrow> pde_is (pw (mem s) pd i) (T (pd, i)))"

definition leaf :: "memory \<Rightarrow> (uint \<times> uint \<Rightarrow> uint option) \<Rightarrow> uint \<Rightarrow> uint \<Rightarrow> uint" where
  "leaf m T pd va = (case T (pd, PDX va) of None \<Rightarrow> 0 | Some t \<Rightarrow> pw m t (PTX va))"

definition vm_ext :: "uint set \<Rightarrow> (uint \<times> uint \<Rightarrow> uint option) \<Rightarrow> uint list \<Rightarrow> memory \<Rightarrow>
    (uint \<times> uint \<Rightarrow> uint option) \<Rightarrow> uint list \<Rightarrow> memory \<Rightarrow> bool" where
  "vm_ext D T ps m T' ps' m' \<longleftrightarrow> T \<subseteq>\<^sub>m T' \<and> set ps' \<subseteq> set ps \<and> ran T' \<subseteq> ran T \<union> set ps \<and>
    off_pages (D \<union> ran T \<union> set ps) m m'"

lemma vm_ext_refl [simp]: "vm_ext D T ps m T ps m"
  by (auto simp: vm_ext_def)

lemma vm_ext_trans:
  assumes "vm_ext D T ps m T' ps' m'" "vm_ext D T' ps' m' T'' ps'' m''"
  shows "vm_ext D T ps m T'' ps'' m''"
  using assms unfolding vm_ext_def by (auto intro: map_le_trans elim!: off_pages_trans)

lemma vm_aligned:
  assumes "vm_rep kend H ie D T ps s"
  shows "pd \<in> D \<Longrightarrow> aligned pd" "T x = Some t \<Longrightarrow> aligned t" "p \<in> set ps \<Longrightarrow> aligned p"
  using assms by (auto simp: vm_rep_def kmem_rep_def list_all_iff intro: kpage_aligned ranI)

lemma pde_bits:
  assumes "aligned t"
  shows "(v2p t OR 7) AND PTE_P \<noteq> 0" "(v2p t OR 7) AND PTE_W \<noteq> 0" "p2v (PTE_ADDR (v2p t OR 7)) = t"
proof -
  have a: "aligned (v2p t)" using assms by (simp add: aligned_p2v)
  show "(v2p t OR 7) AND PTE_P \<noteq> 0" "(v2p t OR 7) AND PTE_W \<noteq> 0" using pte_flag[OF a, of 7] by (simp_all add: layout)
  show "p2v (PTE_ADDR (v2p t OR 7)) = t" using pte_addr(1)[OF a, of 7] by simp
qed

lemma xlate_leaf:
  assumes r: "vm_rep kend H ie D T ps s" and pd: "pd \<in> D"
  shows "xlate (mem s) pd w va = (let e = leaf (mem s) T pd va in
    if e AND PTE_P = 0 \<or> w \<and> e AND PTE_W = 0 then None else Some (p2v (PTE_ADDR e) + (va AND 0xFFF)))"
proof (cases "T (pd, PDX va)")
  case None
  then have "pw (mem s) pd (PDX va) AND PTE_P = 0" using r pd index_less(1)[of va] by (fastforce simp: vm_rep_def)
  then show ?thesis using None by (simp add: xlate_def leaf_def pw_def)
next
  case (Some t)
  then have e: "load32 (mem s) (pd + 4 * PDX va) = v2p t OR 7" using r pd index_less(1)[of va]
    by (fastforce simp: vm_rep_def pw_def)
  note b = pde_bits[OF vm_aligned(2)[OF r Some]]
  show ?thesis using b by (simp add: xlate_def leaf_def Some e pw_def Let_def)
qed

lemma kmem_rep_mem:
  assumes "kmem_rep kend s ps" "\<And>p. p \<in> set ps \<Longrightarrow> load32 m p = load32 (mem s) p"
  shows "kmem_rep kend (s\<lparr>mem := m\<rparr>) ps"
  using assms free_chain_agree[of ps m "mem s"] by (simp add: kmem_rep_def)

lemma vm_kalloc:
  assumes "vm_rep kend H ie D T ps s"
  shows "\<exists>t. kalloc s = Inr (case ps of [] \<Rightarrow> 0 | p # _ \<Rightarrow> p, t) \<and> mem t = mem s \<and> vm_rep kend H ie D T (tl ps) t"
proof -
  have s: "mach_holds H ie s" "KmemLock \<notin> H" "kmem_rep kend s ps" using assms by (auto simp: vm_rep_def)
  obtain t where t: "kalloc s = Inr (case ps of [] \<Rightarrow> 0 | p # _ \<Rightarrow> p, t)" "kmem_rep kend t (tl ps)" "mach_holds H ie t"
    using kalloc_rep[OF s] by auto
  have m: "mem t = mem s" using t(1) kalloc_eq[OF s(1,2)] by auto
  have "set (tl ps) \<subseteq> set ps" by (cases ps) auto
  then have "vm_rep kend H ie D T (tl ps) t" using assms t m unfolding vm_rep_def by auto
  then show ?thesis using t(1) m by blast
qed

lemma vm_new_table:
  assumes r: "vm_rep kend H ie D T ps s" and pd: "pd \<in> D" and i: "unat i < 1024" and none: "T (pd, i) = None"
    and p: "kpage kend p" "p \<notin> set ps" "p \<notin> D" "p \<notin> ran T"
  defines "m \<equiv> store32 (memset (mem s) p 0 PGSIZE) (pd + 4 * i) (v2p p OR 7)"
  shows "vm_rep kend H ie D (T((pd, i) \<mapsto> p)) ps (s\<lparr>mem := m\<rparr>)" "leaf m (T((pd, i) \<mapsto> p)) = leaf (mem s) T"
    "off_pages (insert p D) (mem s) m"
proof -
  have ap: "aligned p" "aligned pd" using p(1) vm_aligned(1)[OF r pd] by (auto intro: kpage_aligned)
  have w: "pw m y j = (if y = pd \<and> j = i then v2p p OR 7 else if y = p then 0 else pw (mem s) y j)"
    if "aligned y" "unat j < 1024" for y j
    using that ap i by (auto simp: m_def pw_store pw_memset)
  have "p \<noteq> pd" using p(3) pd by auto
  have lf: "leaf m (T((pd, i) \<mapsto> p)) d va = leaf (mem s) T d va" for d va
  proof (cases "T (d, PDX va)")
    case None
    then show ?thesis using w[OF ap(1) index_less(2)] \<open>p \<noteq> pd\<close> by (auto simp: leaf_def)
  next
    case (Some t)
    then have "t \<in> ran T" by (rule ranI)
    then have "t \<noteq> p" "t \<noteq> pd" "(d, PDX va) \<noteq> (pd, i)" using p(4) r pd Some none by (auto simp: vm_rep_def)
    then show ?thesis using w[OF vm_aligned(2)[OF r Some] index_less(2)] Some by (auto simp: leaf_def)
  qed
  then show "leaf m (T((pd, i) \<mapsto> p)) = leaf (mem s) T" by (intro ext)
  show "off_pages (insert p D) (mem s) m" unfolding m_def
    by (rule off_pages_trans[OF off_pages_memset off_pages_store]) (use ap i pd in auto)
  have "kmem_rep kend (s\<lparr>mem := m\<rparr>) ps"
    by (rule kmem_rep_mem) (use r w vm_aligned(3)[OF r] p pd in \<open>auto simp: vm_rep_def pw_0\<close>)
  moreover have "pde_is (pw m d j) ((T((pd, i) \<mapsto> p)) (d, j))"
    if "d \<in> D" "unat j < 1024" for d j
  proof (cases "d = pd \<and> j = i")
    case False
    then have "pw m d j = pw (mem s) d j" "(T((pd, i) \<mapsto> p)) (d, j) = T (d, j)"
      using w[OF vm_aligned(1)[OF r that(1)] that(2)] that p(3) by auto
    then show ?thesis using r that by (simp add: vm_rep_def)
  qed (use w that vm_aligned(1)[OF r that(1)] in simp)
  moreover have "inj_on (T((pd, i) \<mapsto> p)) (dom (T((pd, i) \<mapsto> p)))"
    using r p(4) unfolding vm_rep_def by (auto simp: inj_on_def ran_def)
  moreover have "ran (T((pd, i) \<mapsto> p)) = insert p (ran T)" using none by (simp add: ran_map_upd)
  ultimately show "vm_rep kend H ie D (T((pd, i) \<mapsto> p)) ps (s\<lparr>mem := m\<rparr>)"
    using r p pd i unfolding vm_rep_def by simp
qed

lemma wp_walkpgdir:
  assumes r: "vm_rep kend H ie D T ps s" and pd: "pd \<in> D"
    and none: "\<And>t. T (pd, PDX va) = None \<Longrightarrow> \<not> al \<or> ps = [] \<Longrightarrow> mem t = mem s \<Longrightarrow> vm_rep kend H ie D T ps t \<Longrightarrow> Q None t"
    and some: "\<And>T' ps' tb t. vm_rep kend H ie D T' ps' t \<Longrightarrow> leaf (mem t) T' = leaf (mem s) T \<Longrightarrow>
      vm_ext D T ps (mem s) T' ps' (mem t) \<Longrightarrow> T' (pd, PDX va) = Some tb \<Longrightarrow> Q (Some (tb + 4 * PTX va)) t"
  shows "wp (walkpgdir pd va al) Q s"
proof (cases "T (pd, PDX va)")
  case (Some tb)
  then have "load32 (mem s) (pd + 4 * PDX va) = v2p tb OR 7"
    using r pd index_less(1)[of va] by (fastforce simp: vm_rep_def pw_def)
  then show ?thesis using pde_bits[OF vm_aligned(2)[OF r Some]] some[OF r refl vm_ext_refl Some]
    by (simp add: walkpgdir_def wp_simps)
next
  case None
  then have np: "load32 (mem s) (pd + 4 * PDX va) AND PTE_P = 0"
    using r pd index_less(1)[of va] by (fastforce simp: vm_rep_def pw_def)
  obtain t where t: "kalloc s = Inr (case ps of [] \<Rightarrow> 0 | p # _ \<Rightarrow> p, t)" "mem t = mem s" "vm_rep kend H ie D T (tl ps) t"
    using vm_kalloc[OF r] by auto
  have wk: "wp kalloc R s = R (case ps of [] \<Rightarrow> 0 | p # _ \<Rightarrow> p) t" for R using t(1) by (simp add: wp_def)
  show ?thesis
  proof (cases "\<not> al \<or> ps = []")
    case True
    then show ?thesis using none[OF None _ refl r] none[OF None _ t(2)] t np
      by (auto simp: walkpgdir_def wp_simps wk)
  next
    case False
    then obtain p qs where ps: "ps = p # qs" by (cases ps) auto
    let ?m = "store32 (memset (mem t) p 0 PGSIZE) (pd + 4 * PDX va) (v2p p OR 7)"
    have p: "kpage kend p" "p \<notin> set qs" "p \<notin> D" "p \<notin> ran T" "p \<noteq> 0"
      using r not_kpage_0 by (auto simp: vm_rep_def kmem_rep_def ps)
    have rt: "vm_rep kend H ie D T qs t" using t(3) ps by simp
    note n = vm_new_table[OF rt pd index_less(1) None p(1-4)]
    have "vm_ext D T ps (mem s) (T((pd, PDX va) \<mapsto> p)) qs ?m"
      using n(3) t(2) None by (auto simp: vm_ext_def ps map_le_def ran_map_upd elim: off_pages_trans[of _ _ _ "{}"] simp: off_pages_def)
    then have "Q (Some (p + 4 * PTX va)) (t\<lparr>mem := ?m\<rparr>)"
      using some[OF n(1)] n(2) t(2) by simp
    then show ?thesis using False np t(1) p(5)
      by (simp add: walkpgdir_def wp_simps wk ps kmemset_def kstore32_def layout)
  qed
qed

lemma vm_set_leaf:
  fixes e :: uint
  assumes r: "vm_rep kend H ie D T ps s" and tb: "T (pd, PDX va) = Some tb"
  defines "m \<equiv> store32 (mem s) (tb + 4 * PTX va) e"
  shows "vm_rep kend H ie D T ps (s\<lparr>mem := m\<rparr>)" "vm_ext D T ps (mem s) T ps m"
    "leaf m T d v = (if d = pd \<and> PGROUNDDOWN v = PGROUNDDOWN va then e else leaf (mem s) T d v)"
proof -
  have al: "aligned tb" and rn: "tb \<in> ran T" using vm_aligned(2)[OF r tb] tb by (auto intro: ranI)
  have w: "pw m y j = (if y = tb \<and> j = PTX va then e else pw (mem s) y j)" if "aligned y" "unat j < 1024" for y j
    using that al index_less(2)[of va] by (auto simp: m_def pw_store)
  have keep: "pw m y j = pw (mem s) y j" if "y \<in> D \<or> y \<in> set ps" "unat j < 1024" for y j
    using w[OF _ that(2)] that(1) vm_aligned(1,3)[OF r] rn r by (auto simp: vm_rep_def)
  show "leaf m T d v = (if d = pd \<and> PGROUNDDOWN v = PGROUNDDOWN va then e else leaf (mem s) T d v)"
  proof (cases "T (d, PDX v)")
    case None
    then show ?thesis using tb page_index[of v va] by (auto simp: leaf_def)
  next
    case (Some t)
    have "t = tb \<longleftrightarrow> (d, PDX v) = (pd, PDX va)"
      using r tb Some unfolding vm_rep_def inj_on_def by (metis domI option.inject)
    then show ?thesis using w[OF vm_aligned(2)[OF r Some] index_less(2)] Some page_index[of v va] by (auto simp: leaf_def)
  qed
  have "kmem_rep kend (s\<lparr>mem := m\<rparr>) ps"
    by (rule kmem_rep_mem) (use r keep in \<open>auto simp: vm_rep_def pw_0\<close>)
  then show "vm_rep kend H ie D T ps (s\<lparr>mem := m\<rparr>)" using r keep unfolding vm_rep_def by simp
  show "vm_ext D T ps (mem s) T ps m"
    using off_pages_store[OF al index_less(2)[of va], of "D \<union> ran T \<union> set ps"] rn by (auto simp: vm_ext_def m_def)
qed

section \<open>Mapping a range of pages\<close>

text \<open>The entries after the first \<open>k\<close> pages of a range have been mapped.\<close>

definition mapped :: "nat \<Rightarrow> uint \<Rightarrow> uint \<Rightarrow> uint \<Rightarrow> uint \<Rightarrow> (uint \<Rightarrow> uint \<Rightarrow> uint) \<Rightarrow> uint \<Rightarrow> uint \<Rightarrow> uint" where
  "mapped k pd a pa perm L d v =
    (let off = PGROUNDDOWN v - a in
     if d = pd \<and> unat off div 4096 < k then (pa + off) OR perm OR PTE_P else L d v)"

lemma aligned_plus: "aligned y \<Longrightarrow> aligned (x + y) \<longleftrightarrow> aligned x"
  by (simp add: aligned_unat unat_word_ariths mod_mod_cancel) (simp add: mod_add_eq[symmetric, of "unat x" "unat y"])

lemma aligned_diff: "aligned x \<Longrightarrow> aligned y \<Longrightarrow> aligned (x - y)"
  using aligned_plus[of y "x - y"] by simp

lemma aligned_times: "aligned (4096 * x)"
  by (simp add: aligned_unat unat_word_ariths mod_mod_cancel)

lemma page_step:
  fixes off :: uint
  assumes "aligned off" "k < 2 ^ 20"
  shows "unat off div 4096 < Suc k \<longleftrightarrow> off = 0 \<or> unat (off - 4096) div 4096 < k"
proof (cases "off = 0")
  case True
  then show ?thesis by simp
next
  case False
  obtain q where q: "unat off = 4096 * q" using assms(1) by (metis aligned_unat dvd_eq_mod_eq_0 dvdE)
  have "0 < q" using False q by (cases q) (auto simp: unat_eq_zero)
  then have "unat (off - 4096) = 4096 * (q - 1)" using q by (simp add: unat_sub word_le_nat_alt diff_mult_distrib2)
  then show ?thesis using q False \<open>0 < q\<close> by auto
qed

lemma mapped_0 [simp]: "mapped 0 pd a pa perm L = L"
  by (simp add: mapped_def fun_eq_iff Let_def)

lemma mapped_Suc:
  assumes "aligned a" "k < 2 ^ 20"
    and L': "\<And>d v. L' d v = (if d = pd \<and> PGROUNDDOWN v = a then pa OR perm OR PTE_P else L d v)"
    and k: "\<not> 4294963200 div 4096 < k"
  shows "mapped k pd (a + PGSIZE) (pa + PGSIZE) perm L' = mapped (Suc k) pd a pa perm L"
proof (intro ext)
  fix d v
  let ?off = "PGROUNDDOWN v - a"
  have o: "PGROUNDDOWN v - (a + PGSIZE) = ?off - 4096" by (simp add: PGSIZE_def algebra_simps)
  have st: "unat ?off div 4096 < Suc k \<longleftrightarrow> ?off = 0 \<or> unat (?off - 4096) div 4096 < k"
    by (rule page_step) (use assms(1,2) aligned_PGROUNDDOWN in \<open>auto intro: aligned_diff\<close>)
  have pa: "pa + PGSIZE + (?off - 4096) = pa + ?off" by (simp add: PGSIZE_def)
  show "mapped k pd (a + PGSIZE) (pa + PGSIZE) perm L' d v = mapped (Suc k) pd a pa perm L d v"
  proof (cases "d = pd")
    case True
    show ?thesis
    proof (cases "?off = 0")
      case True
      then have "PGROUNDDOWN v = a" by simp
      then show ?thesis using k \<open>d = pd\<close> by (simp add: mapped_def L' PGSIZE_def)
    next
      case False
      then have "PGROUNDDOWN v \<noteq> a" by simp
      then show ?thesis using st False by (simp only: mapped_def Let_def o pa L' \<open>d = pd\<close>) simp
    qed
  qed (simp add: mapped_def L' Let_def)
qed

lemma PGROUNDDOWN_aligned: "aligned a \<Longrightarrow> PGROUNDDOWN a = a"
  by (simp add: word_unat_eq_iff unat_PGROUNDDOWN aligned_unat)

lemma wp_map_step:
  assumes r: "vm_rep kend H ie D T ps s" and pd: "pd \<in> D" and a: "aligned a" and free: "leaf (mem s) T pd a AND PTE_P = 0"
    and fail: "\<And>t. ps = [] \<Longrightarrow> mem t = mem s \<Longrightarrow> vm_rep kend H ie D T ps t \<Longrightarrow> Q (- 1) t"
    and ok: "\<And>T' ps' t. vm_rep kend H ie D T' ps' t \<Longrightarrow> vm_ext D T ps (mem s) T' ps' (mem t) \<Longrightarrow>
      (\<And>d v. leaf (mem t) T' d v = (if d = pd \<and> PGROUNDDOWN v = a then pa OR perm OR PTE_P else leaf (mem s) T d v)) \<Longrightarrow>
      wp (if a = la then ret 0 else mappages_loop fuel pd (a + PGSIZE) la (pa + PGSIZE) perm) Q t"
  shows "wp (mappages_loop (Suc fuel) pd a la pa perm) Q s"
proof -
  let ?go = "if a = la then ret 0 else mappages_loop fuel pd (a + PGSIZE) la (pa + PGSIZE) perm"
  let ?rest = "\<lambda>r. case r of None \<Rightarrow> ret (- 1) | Some pte \<Rightarrow>
      kbind (gets (\<lambda>s. load32 (mem s) pte)) (\<lambda>e.
      if e AND PTE_P \<noteq> 0 then panic ''remap'' else kseq (kstore32 pte (pa OR perm OR PTE_P)) ?go)"
  have "wp (walkpgdir pd a True) (\<lambda>r. wp (?rest r) Q) s"
  proof (rule wp_walkpgdir[OF r pd])
    fix T' ps' tb and t :: "'a kmemst_scheme"
    assume t: "vm_rep kend H ie D T' ps' t" "leaf (mem t) T' = leaf (mem s) T" "vm_ext D T ps (mem s) T' ps' (mem t)"
      and tb: "T' (pd, PDX a) = Some tb"
    let ?e = "pa OR perm OR PTE_P" and ?pte = "tb + 4 * PTX a"
    note st = vm_set_leaf[OF t(1) tb, of ?e]
    have e: "load32 (mem t) ?pte AND PTE_P = 0" using free tb fun_cong[OF fun_cong[OF t(2), of pd], of a]
      by (simp add: leaf_def pw_def)
    have "wp ?go Q (t\<lparr>mem := store32 (mem t) ?pte ?e\<rparr>)"
      by (rule ok[OF st(1)]) (use st(2,3) t a in \<open>auto simp: PGROUNDDOWN_aligned intro: vm_ext_trans\<close>)
    then show "wp (?rest (Some ?pte)) Q t" using e by (simp add: wp_fun kstore32_def)
  qed (use fail in \<open>simp_all add: wp_simps\<close>)
  then show ?thesis by (simp add: wp_fun)
qed

text \<open>After \<open>mappages\<close>: it mapped all \<open>n\<close> pages, or it failed for want of a page for a table.\<close>

definition map_post :: "uint \<Rightarrow> lockid set \<Rightarrow> bool \<Rightarrow> uint set \<Rightarrow> (uint \<times> uint \<Rightarrow> uint option) \<Rightarrow> uint list \<Rightarrow> memory \<Rightarrow>
    (nat \<Rightarrow> uint \<Rightarrow> uint \<Rightarrow> uint) \<Rightarrow> nat \<Rightarrow> int \<Rightarrow> 'a kmemst_scheme \<Rightarrow> bool" where
  "map_post kend H ie D T ps m L n r t \<longleftrightarrow> (\<exists>T' ps' k. vm_rep kend H ie D T' ps' t \<and> vm_ext D T ps m T' ps' (mem t) \<and>
    leaf (mem t) T' = L k \<and> (r = 0 \<and> k = n \<or> r = - 1 \<and> k < n \<and> ps' = []))"

lemma map_post_step:
  assumes "vm_ext D T ps m T' ps' m'" "map_post kend H ie D T' ps' m' L' n r t" "\<And>k. k \<le> n \<Longrightarrow> L' k = L (Suc k)"
  shows "map_post kend H ie D T ps m L (Suc n) r t"
proof -
  obtain T'' ps'' k where t: "vm_rep kend H ie D T'' ps'' t" "vm_ext D T' ps' m' T'' ps'' (mem t)" "leaf (mem t) T'' = L' k"
    "r = 0 \<and> k = n \<or> r = - 1 \<and> k < n \<and> ps'' = []" using assms(2) by (auto simp: map_post_def)
  then show ?thesis unfolding map_post_def
    using vm_ext_trans[OF assms(1) t(2)] assms(3)[of k] by (intro exI[of _ T''] exI[of _ ps''] exI[of _ "Suc k"]) auto
qed

lemma wp_mappages_loop:
  assumes "vm_rep kend H ie D T ps s" "pd \<in> D" "aligned a" "n < 2 ^ 20"
    and "\<forall>i \<le> n. leaf (mem s) T pd (a + 4096 * of_nat i) AND PTE_P = 0"
  shows "wp (mappages_loop (Suc n) pd a (a + 4096 * of_nat n) pa perm)
    (map_post kend H ie D T ps (mem s) (\<lambda>k. mapped k pd a pa perm (leaf (mem s) T)) (Suc n)) s"
  using assms
proof (induction n arbitrary: T ps s a pa)
  case (0 T ps s a pa)
  have "wp (if a = a then ret 0 else mappages_loop 0 pd (a + PGSIZE) a (pa + PGSIZE) perm)
      (map_post kend H ie D T ps (mem s) (\<lambda>k. mapped k pd a pa perm (leaf (mem s) T)) (Suc 0)) t"
    if t: "vm_rep kend H ie D T' ps' t" "vm_ext D T ps (mem s) T' ps' (mem t)"
      "\<And>d v. leaf (mem t) T' d v = (if d = pd \<and> PGROUNDDOWN v = a then pa OR perm OR PTE_P else leaf (mem s) T d v)"
    for t :: "'a kmemst_scheme" and T' ps'
  proof -
    have "leaf (mem t) T' = mapped (Suc 0) pd a pa perm (leaf (mem s) T)"
      using mapped_Suc[OF 0(3), of 0 "leaf (mem t) T'" pd pa perm "leaf (mem s) T"] t(3) by simp
    then show ?thesis using t(1,2) unfolding map_post_def by (auto simp: wp_simps)
  qed
  moreover have "map_post kend H ie D T ps (mem s) (\<lambda>k. mapped k pd a pa perm (leaf (mem s) T)) (Suc 0) (- 1) t"
    if "ps = []" "mem t = mem s" "vm_rep kend H ie D T ps t" for t :: "'a kmemst_scheme"
    unfolding map_post_def using that by (intro exI[of _ T] exI[of _ ps] exI[of _ 0]) simp
  ultimately show ?case using 0(5) by (simp del: mappages_loop.simps) (rule wp_map_step[OF 0(1-3)]; simp)
next
  case (Suc n T ps s a pa)
  let ?Q = "map_post kend H ie D T ps (mem s) (\<lambda>k. mapped k pd a pa perm (leaf (mem s) T)) (Suc (Suc n))"
  have la: "a + 4096 * of_nat (Suc n) = (a + PGSIZE) + 4096 * of_nat n" by (simp add: PGSIZE_def algebra_simps)
  have ne: "a + 4096 * of_nat i \<noteq> a" if "0 < i" "i < 2 ^ 20" for i :: nat
  proof -
    have "unat (4096 * of_nat i :: uint) = 4096 * i" using that by (simp add: unat_word_ariths unat_of_nat)
    then have "4096 * of_nat i \<noteq> (0 :: uint)" using that by (auto simp: unat_eq_zero[symmetric] simp del: of_nat_eq_0_iff)
    then show ?thesis by simp
  qed
  have ok: "wp (if a = a + 4096 * of_nat (Suc n) then ret 0
      else mappages_loop (Suc n) pd (a + PGSIZE) (a + 4096 * of_nat (Suc n)) (pa + PGSIZE) perm) ?Q t"
    if t: "vm_rep kend H ie D T' ps' t" "vm_ext D T ps (mem s) T' ps' (mem t)"
      "\<And>d v. leaf (mem t) T' d v = (if d = pd \<and> PGROUNDDOWN v = a then pa OR perm OR PTE_P else leaf (mem s) T d v)"
    for t :: "'a kmemst_scheme" and T' ps'
  proof -
    have al: "aligned (a + PGSIZE)" "aligned (a + 4096 * of_nat i)" for i
      using Suc.prems(3) aligned_times[of 1] by (simp_all add: aligned_plus aligned_times PGSIZE_def)
    have "leaf (mem t) T' pd (a + PGSIZE + 4096 * of_nat i) AND PTE_P = 0" if "i \<le> n" for i
    proof -
      have v: "a + PGSIZE + 4096 * of_nat i = a + 4096 * of_nat (Suc i)" by (simp add: PGSIZE_def algebra_simps)
      have "PGROUNDDOWN (a + 4096 * of_nat (Suc i)) \<noteq> a"
        using ne[of "Suc i"] that Suc.prems(4) al(2)[of "Suc i"] by (simp add: PGROUNDDOWN_aligned)
      then show ?thesis unfolding v t(3) using Suc.prems(5) that by auto
    qed
    then have "wp (mappages_loop (Suc n) pd (a + PGSIZE) ((a + PGSIZE) + 4096 * of_nat n) (pa + PGSIZE) perm)
        (map_post kend H ie D T' ps' (mem t) (\<lambda>k. mapped k pd (a + PGSIZE) (pa + PGSIZE) perm (leaf (mem t) T')) (Suc n)) t"
      using Suc.prems t(1) al(1) by (intro Suc.IH) auto
    then have "wp (mappages_loop (Suc n) pd (a + PGSIZE) ((a + PGSIZE) + 4096 * of_nat n) (pa + PGSIZE) perm) ?Q t"
      by (rule wp_mono) (erule map_post_step[OF t(2)], rule mapped_Suc[OF Suc.prems(3)], use Suc.prems(4) t(3) in auto)
    moreover have "a \<noteq> a + 4096 * of_nat (Suc n)" using ne[of "Suc n"] Suc.prems(4) by simp
    ultimately show ?thesis unfolding la[symmetric] by (simp only: if_False)
  qed
  have "?Q (- 1) t" if "ps = []" "mem t = mem s" "vm_rep kend H ie D T ps t" for t :: "'a kmemst_scheme"
    unfolding map_post_def using that by (intro exI[of _ T] exI[of _ ps] exI[of _ 0]) simp
  moreover have "leaf (mem s) T pd a AND PTE_P = 0" using Suc.prems(5)[rule_format, of 0] by simp
  ultimately show ?case by (intro wp_map_step[OF Suc.prems(1-3)] ok)
qed

text \<open>The pages a call of \<open>mappages\<close> covers, as byte offsets from the first one.\<close>

definition covers :: "uint \<Rightarrow> uint \<Rightarrow> uint \<Rightarrow> bool" where
  "covers va n v \<longleftrightarrow> PGROUNDDOWN v - PGROUNDDOWN va \<le> PGROUNDDOWN (va + n - 1) - PGROUNDDOWN va"

lemma pages_between:
  fixes a b :: uint
  assumes "aligned a" "aligned b"
  shows "b = a + 4096 * of_nat (unat ((b - a) div PGSIZE))" "unat ((b - a) div PGSIZE) < 2 ^ 20"
    "aligned x \<Longrightarrow> unat x div 4096 < Suc (unat ((b - a) div PGSIZE)) \<longleftrightarrow> x \<le> b - a"
proof -
  define d where "d = b - a"
  have al: "aligned d" using aligned_diff[OF assms(2,1)] by (simp add: d_def)
  then obtain q where q: "unat d = 4096 * q" by (metis aligned_unat dvd_eq_mod_eq_0 dvdE)
  have N: "unat (d div PGSIZE) = q" using q by (simp add: PGSIZE_def unat_div)
  have s: "4096 * q < 2 ^ 32" using uint32_less[of d] q by simp
  then have "unat (d div PGSIZE) < 2 ^ 20" unfolding N by simp
  then show "unat ((b - a) div PGSIZE) < 2 ^ 20" unfolding d_def .
  have "unat (4096 * of_nat q :: uint) = unat d" using s by (simp add: unat_word_ariths unat_of_nat q)
  then have dq: "4096 * of_nat q = d" by (rule word_unat_eq_iff[THEN iffD2])
  have "b = a + d" by (simp add: d_def)
  then have "b = a + 4096 * of_nat (unat (d div PGSIZE))" unfolding N dq .
  then show "b = a + 4096 * of_nat (unat ((b - a) div PGSIZE))" unfolding d_def .
  show "unat x div 4096 < Suc (unat ((b - a) div PGSIZE)) \<longleftrightarrow> x \<le> b - a" if x: "aligned x"
  proof -
    obtain p where "unat x = 4096 * p" using x by (metis aligned_unat dvd_eq_mod_eq_0 dvdE)
    then have "unat x div 4096 < Suc (unat (d div PGSIZE)) \<longleftrightarrow> x \<le> d"
      unfolding N word_le_nat_alt q by (simp add: less_Suc_eq_le)
    then show ?thesis by (simp only: d_def)
  qed
qed

lemma covers_offset:
  "unat (PGROUNDDOWN v - PGROUNDDOWN va) div 4096 < Suc (unat ((PGROUNDDOWN (va + n - 1) - PGROUNDDOWN va) div PGSIZE)) \<longleftrightarrow>
    covers va n v"
  unfolding covers_def
  by (rule pages_between(3)) (simp_all add: aligned_PGROUNDDOWN aligned_diff)

lemma wp_mappages:
  assumes r: "vm_rep kend H ie D T ps s" and pd: "pd \<in> D"
    and free: "\<forall>v. covers va n v \<longrightarrow> leaf (mem s) T pd v AND PTE_P = 0"
  shows "wp (mappages pd va n pa perm)
    (map_post kend H ie D T ps (mem s) (\<lambda>k. mapped k pd (PGROUNDDOWN va) pa perm (leaf (mem s) T))
      (Suc (unat ((PGROUNDDOWN (va + n - 1) - PGROUNDDOWN va) div PGSIZE)))) s"
proof -
  define a where "a = PGROUNDDOWN va"
  define b where "b = PGROUNDDOWN (va + n - 1)"
  define N where "N = unat ((b - a) div PGSIZE)"
  have al: "aligned a" "aligned b" by (simp_all add: a_def b_def aligned_PGROUNDDOWN)
  have bN: "b = a + 4096 * of_nat N" and N: "N < 2 ^ 20" using pages_between(1,2)[OF al] by (simp_all only: N_def)
  have "leaf (mem s) T pd (a + 4096 * of_nat i) AND PTE_P = 0" if "i \<le> N" for i
  proof -
    have pg: "PGROUNDDOWN (a + 4096 * of_nat i) = a + 4096 * of_nat i"
      using al(1) by (simp add: PGROUNDDOWN_aligned aligned_plus aligned_times)
    have "unat (4096 * of_nat i :: uint) = 4096 * i" using that N by (simp add: unat_word_ariths unat_of_nat)
    then have "unat (PGROUNDDOWN (a + 4096 * of_nat i) - a) div 4096 < Suc N"
      using that unfolding pg by simp
    then show ?thesis using free covers_offset[of "a + 4096 * of_nat i" va n] unfolding N_def a_def b_def by blast
  qed
  then have "wp (mappages_loop (Suc N) pd a b pa perm)
      (map_post kend H ie D T ps (mem s) (\<lambda>k. mapped k pd a pa perm (leaf (mem s) T)) (Suc N)) s"
    unfolding bN using N by (intro wp_mappages_loop[OF r pd al(1)]) auto
  then show ?thesis unfolding mappages_def Let_def a_def[symmetric] b_def[symmetric] N_def[symmetric] by (simp only: Suc_eq_plus1)
qed

lemma xlate_entry:
  assumes "vm_rep kend H ie D T ps s" "pd \<in> D" "leaf (mem s) T pd v = f OR perm OR PTE_P" "aligned f" "perm < 4096"
  shows "xlate (mem s) pd w v = (if w \<and> perm AND PTE_W = 0 then None else Some (p2v f + (v AND 0xFFF)))"
proof -
  have p: "perm OR PTE_P < 4096" using OR_upper[of "uint perm" 12 1] assms(5)
    by (simp add: word_less_alt layout unsigned_or_eq)
  have "(perm OR PTE_P) AND PTE_P \<noteq> 0" "(perm OR PTE_P) AND PTE_W = perm AND PTE_W"
    by (simp_all add: layout bit.conj_disj_distrib2)
  then show ?thesis using pte_flag[OF assms(4), of "perm OR PTE_P"] pte_addr(1)[OF assms(4) p] xlate_leaf[OF assms(1,2)]
    by (simp add: assms(3) Let_def)
qed

lemma leaf_absent:
  assumes "vm_rep kend H ie D T ps s" "pd \<in> D"
  shows "xlate (mem s) pd False v = None \<longleftrightarrow> leaf (mem s) T pd v AND PTE_P = 0"
  using xlate_leaf[OF assms] by (simp add: Let_def)

lemma mapped_xlate:
  assumes r: "vm_rep kend H ie D T ps s" and t: "vm_rep kend H ie D T' ps' t" and d: "d \<in> D"
    and m: "leaf (mem t) T' = mapped k pd (PGROUNDDOWN va) pa perm (leaf (mem s) T)"
    and k: "k \<le> Suc (unat ((PGROUNDDOWN (va + n - 1) - PGROUNDDOWN va) div PGSIZE))"
    and off: "\<not> (d = pd \<and> covers va n v)"
  shows "xlate (mem t) d w v = xlate (mem s) d w v"
proof -
  have "leaf (mem t) T' d v = leaf (mem s) T d v"
    using off k covers_offset[of v va n] unfolding m mapped_def Let_def by auto
  then show ?thesis by (simp add: xlate_leaf[OF r d] xlate_leaf[OF t d])
qed


lemma kmem1_vm: "vm_rep 0x80200000 {} True {0x80401000} Map.empty [0x80400000] kmem1"
  using kmem1_rep kmem1_holds by (simp add: vm_rep_def kpage_def layout v2p_def pw_def load32_def kmem1_def)


section \<open>Copying an address space\<close>

text \<open>A page handed out by the allocator and not used as a table stays apart from the tables.\<close>

lemma kpage_unat: "kpage kend v \<Longrightarrow> unat v + 4096 < 2 ^ 32"
proof -
  assume "kpage kend v"
  then have "unat (v2p v) < 0xE000000" by (simp add: kpage_def word_less_nat_alt layout)
  moreover have "unat (v2p v + KERNBASE) = (unat (v2p v) + 0x80000000) mod 2 ^ 32"
    by (simp only: unat_word_ariths) (simp add: layout)
  moreover have "v2p v + KERNBASE = v" by (simp add: v2p_def)
  ultimately show ?thesis by simp
qed

lemma memmove_page:
  assumes "kpage kend p" "kpage kend f" "p \<noteq> f"
  shows "unat j < 4096 \<Longrightarrow> memmove m p f PGSIZE (p + j) = m (f + j)" "p \<in> P \<Longrightarrow> off_pages P m (memmove m p f PGSIZE)"
proof -
  have e: "memmove m p f PGSIZE = (\<lambda>a. if a - p < PGSIZE then m (f + (a - p)) else m a)"
    by (rule memmove_eq) (use kpage_unat[OF assms(1)] kpage_unat[OF assms(2)] in \<open>simp_all add: layout\<close>)
  show "unat j < 4096 \<Longrightarrow> memmove m p f PGSIZE (p + j) = m (f + j)" unfolding e by (simp add: layout word_less_nat_alt)
  have "\<not> (x + j) - p < PGSIZE" if "aligned x" "x \<noteq> p" "unat j < 4096" for x j
  proof
    assume "(x + j) - p < PGSIZE"
    then have "unat ((x + j) - p) < 4096" by (simp add: PGSIZE_def word_less_nat_alt)
    then have "p + ((x + j) - p) \<noteq> x + j" using aligned_apart kpage_aligned[OF assms(1)] that by metis
    then show False by simp
  qed
  then show "p \<in> P \<Longrightarrow> off_pages P m (memmove m p f PGSIZE)" by (auto simp: off_pages_def e)
qed

lemma vm_data_write:
  assumes r: "vm_rep kend H ie D T ps s" and o: "off_pages {p} (mem s) m" and p: "p \<notin> D \<union> ran T \<union> set ps"
  shows "vm_rep kend H ie D T ps (s\<lparr>mem := m\<rparr>)" "leaf m T = leaf (mem s) T"
proof -
  have w: "pw m x i = pw (mem s) x i" if "aligned x" "x \<noteq> p" "unat i < 1024" for x i
  proof -
    have "m (x + 4 * i + of_nat l) = mem s (x + 4 * i + of_nat l)" if "l < 4" for l
      using o \<open>aligned x\<close> \<open>x \<noteq> p\<close> byte_of_word[OF \<open>unat i < 1024\<close> that] \<open>unat i < 1024\<close> that
      by (simp add: off_pages_def add.assoc)
    from this[of 0] this[of 1] this[of 2] this[of 3] show ?thesis by (simp add: pw_def load32_def)
  qed
  have keep: "pw m y j = pw (mem s) y j" if "y \<in> D \<union> ran T \<union> set ps" "unat j < 1024" for y j
  proof (rule w[OF _ _ that(2)])
    show "aligned y" using that(1) vm_aligned[OF r] by (auto simp: ran_def)
    show "y \<noteq> p" using that(1) p by blast
  qed
  have "kmem_rep kend (s\<lparr>mem := m\<rparr>) ps"
    by (rule kmem_rep_mem) (use r keep in \<open>auto simp: vm_rep_def pw_0\<close>)
  then show "vm_rep kend H ie D T ps (s\<lparr>mem := m\<rparr>)" using r keep unfolding vm_rep_def by simp
  show "leaf m T = leaf (mem s) T" using keep index_less(2) by (auto simp: leaf_def fun_eq_iff ran_def split: option.split)
qed

text \<open>
  \<open>copied m L m' L' pd d ps U v\<close>: the page of \<open>v\<close> in the directory \<open>d\<close> is a page that was free, is not in \<open>U\<close>, has the
  flags of the page of \<open>v\<close> in \<open>pd\<close> and holds the same bytes.
\<close>

definition copied :: "memory \<Rightarrow> (uint \<Rightarrow> uint \<Rightarrow> uint) \<Rightarrow> memory \<Rightarrow> (uint \<Rightarrow> uint \<Rightarrow> uint) \<Rightarrow> uint \<Rightarrow> uint \<Rightarrow> uint set \<Rightarrow> uint set \<Rightarrow>
    uint \<Rightarrow> bool" where
  "copied m L m' L' pd d A U v \<longleftrightarrow> (\<exists>p \<in> A. p \<notin> U \<and> L' d v = v2p p OR PTE_FLAGS (L pd v) \<and>
    (\<forall>j. unat j < 4096 \<longrightarrow> m' (p + j) = m (p2v (PTE_ADDR (L pd v)) + j)))"

lemma flags_present:
  assumes "e AND PTE_P \<noteq> 0"
  shows "PTE_FLAGS e OR PTE_P = PTE_FLAGS e" "PTE_FLAGS e < 4096"
proof -
  have "bit e 0" using assms by (auto simp: layout and_one_eq bit_0 odd_iff_mod_2_eq_one)
  then show "PTE_FLAGS e OR PTE_P = PTE_FLAGS e" by (intro bit_word_eqI) (auto simp: PTE_FLAGS_def layout bit_simps mask12)
  have "PTE_FLAGS e = take_bit 12 e" by (simp add: PTE_FLAGS_def mask12 take_bit_eq_mask)
  then show "PTE_FLAGS e < 4096" by (simp add: take_bit_eq_mod word_less_nat_alt unat_mod)
qed

lemma page_end:
  assumes "aligned i"
  shows "PGROUNDDOWN (i + PGSIZE - 1) = i"
proof -
  have e: "i + PGSIZE - 1 = i + 4095" by (simp add: PGSIZE_def)
  have u: "unat (i + 4095) = unat i + 4095" using aligned_add[OF assms, of 4095] by simp
  obtain q where "unat i = 4096 * q" using assms by (metis aligned_unat dvd_eq_mod_eq_0 dvdE)
  then have "unat (PGROUNDDOWN (i + 4095)) = unat i" unfolding unat_PGROUNDDOWN u by simp
  then show ?thesis unfolding e word_unat_eq_iff .
qed

lemma page_self:
  assumes "aligned i"
  shows "covers i PGSIZE v \<longleftrightarrow> PGROUNDDOWN v = i"
  using assms by (simp add: covers_def page_end PGROUNDDOWN_aligned)

lemma mapped_page:
  assumes "aligned i" "k \<le> 1"
  shows "mapped k pd i pa perm L d v = (if k = 1 \<and> d = pd \<and> PGROUNDDOWN v = i then pa OR perm OR PTE_P else L d v)"
proof -
  have "unat (PGROUNDDOWN v - i) div 4096 < 1 \<longleftrightarrow> PGROUNDDOWN v = i"
    using covers_offset[of v i PGSIZE] page_self[OF assms(1)]
    by (simp only: page_end[OF assms(1)] PGROUNDDOWN_aligned[OF assms(1)]) simp
  then show ?thesis using assms(2) by (cases k) (auto simp: mapped_def Let_def)
qed

lemma vm_ext_apart: "vm_ext D T ps m T' ps' m' \<Longrightarrow> f \<notin> D \<union> ran T \<union> set ps \<Longrightarrow> f \<notin> D \<union> ran T' \<union> set ps'"
  by (auto simp: vm_ext_def)

lemma vm_ext_bytes:
  "vm_ext D T ps m T' ps' m' \<Longrightarrow> f \<notin> D \<union> ran T \<union> set ps \<Longrightarrow> aligned f \<Longrightarrow> unat j < 4096 \<Longrightarrow> m' (f + j) = m (f + j)"
  by (simp add: vm_ext_def off_pages_def)

lemma leaf_page: "PGROUNDDOWN v = PGROUNDDOWN v' \<Longrightarrow> leaf m T d v = leaf m T d v'"
  using page_index[of v v'] by (auto simp: leaf_def split: option.split)

definition src_page :: "uint \<Rightarrow> uint set \<Rightarrow> (uint \<times> uint \<Rightarrow> uint option) \<Rightarrow> uint list \<Rightarrow> memory \<Rightarrow> uint \<Rightarrow> uint \<Rightarrow> bool" where
  "src_page kend D T ps m pd v \<longleftrightarrow> (let e = leaf m T pd v; f = p2v (PTE_ADDR e) in
    e AND PTE_P \<noteq> 0 \<and> kpage kend f \<and> f \<notin> D \<union> ran T \<union> set ps)"

lemma wp_copy_page:
  assumes r: "vm_rep kend H ie D T ps s" and d: "d \<in> D" and i: "aligned i" and e: "e AND PTE_P \<noteq> 0"
    and f: "kpage kend (p2v (PTE_ADDR e))" "p2v (PTE_ADDR e) \<notin> D \<union> ran T \<union> set ps" and dst: "leaf (mem s) T d i AND PTE_P = 0"
    and fail: "\<And>T' t. vm_rep kend H ie D T' [] t \<Longrightarrow> vm_ext D T ps (mem s) T' [] (mem t) \<Longrightarrow>
      leaf (mem t) T' = leaf (mem s) T \<Longrightarrow> Q False t"
    and ok: "\<And>p T' ps' t. vm_rep kend H ie D T' ps' t \<Longrightarrow> vm_ext D T ps (mem s) T' ps' (mem t) \<Longrightarrow>
      (\<And>c v. leaf (mem t) T' c v = (if c = d \<and> PGROUNDDOWN v = i then v2p p OR PTE_FLAGS e else leaf (mem s) T c v)) \<Longrightarrow>
      p \<in> set ps \<Longrightarrow> p \<notin> D \<union> ran T' \<union> set ps' \<Longrightarrow>
      (\<And>j. unat j < 4096 \<Longrightarrow> mem t (p + j) = mem s (p2v (PTE_ADDR e) + j)) \<Longrightarrow> wp go Q t"
  shows "wp (kbind kalloc (\<lambda>pg. if pg = 0 then ret False else
      kseq (modify (\<lambda>s. s\<lparr>mem := memmove (mem s) pg (p2v (PTE_ADDR e)) PGSIZE\<rparr>)) (
      kbind (mappages d i PGSIZE (v2p pg) (PTE_FLAGS e)) (\<lambda>z. if z < 0 then ret False else go)))) Q s"
proof -
  let ?f = "p2v (PTE_ADDR e)"
  obtain t where t: "kalloc s = Inr (case ps of [] \<Rightarrow> 0 | p # _ \<Rightarrow> p, t)" "mem t = mem s" "vm_rep kend H ie D T (tl ps) t"
    using vm_kalloc[OF r] by auto
  have wk: "wp kalloc R s = R (case ps of [] \<Rightarrow> 0 | p # _ \<Rightarrow> p) t" for R using t(1) by (simp add: wp_def)
  show ?thesis
  proof (cases ps)
    case Nil
    then have "Q False t" using fail[of T t] t(2,3) by simp
    then show ?thesis using Nil by (simp add: wp_simps wk)
  next
    case (Cons p qs)
    have p: "kpage kend p" "p \<notin> D \<union> ran T \<union> set qs" "p \<noteq> 0" "p \<noteq> ?f"
      using r f(2) not_kpage_0 by (auto simp: vm_rep_def kmem_rep_def Cons)
    let ?m = "memmove (mem t) p ?f PGSIZE" and ?u = "t\<lparr>mem := memmove (mem t) p ?f PGSIZE\<rparr>"
    note mv = memmove_page[OF p(1) f(1) p(4), of _ "mem t"]
    have rt: "vm_rep kend H ie D T qs t" using t(3) Cons by simp
    have u: "vm_rep kend H ie D T qs ?u" "leaf ?m T = leaf (mem s) T"
      using vm_data_write[OF rt mv(2)[of "{p}"] p(2)] t(2) by auto
    have su: "vm_ext D T ps (mem s) T qs ?m"
      using mv(2)[of "D \<union> ran T \<union> set ps"] t(2) by (auto simp: vm_ext_def Cons)
    have "wp (mappages d i PGSIZE (v2p p) (PTE_FLAGS e)) (\<lambda>z. wp (if z < 0 then ret False else go) Q) ?u"
    proof (rule wp_mono[OF wp_mappages[OF u(1) d]])
      show "\<forall>v. covers i PGSIZE v \<longrightarrow> leaf (mem ?u) T d v AND PTE_P = 0"
      proof (intro allI impI)
        fix v assume "covers i PGSIZE v"
        then have "leaf (mem s) T d v = leaf (mem s) T d i"
          by (intro leaf_page) (simp add: page_self[OF i] PGROUNDDOWN_aligned[OF i])
        then show "leaf (mem ?u) T d v AND PTE_P = 0" using dst u(2) by simp
      qed
      fix z and w :: "'a kmemst_scheme"
      assume "map_post kend H ie D T qs (mem ?u) (\<lambda>k. mapped k d (PGROUNDDOWN i) (v2p p) (PTE_FLAGS e) (leaf (mem ?u) T))
        (Suc (unat ((PGROUNDDOWN (i + PGSIZE - 1) - PGROUNDDOWN i) div PGSIZE))) z w"
      then obtain T' ps' k where w: "vm_rep kend H ie D T' ps' w" "vm_ext D T qs ?m T' ps' (mem w)"
        "leaf (mem w) T' = mapped k d i (v2p p) (PTE_FLAGS e) (leaf (mem s) T)" "z = 0 \<and> k = 1 \<or> z = - 1 \<and> k = 0 \<and> ps' = []"
        by (auto simp: map_post_def page_end[OF i] PGROUNDDOWN_aligned[OF i] u(2))
      have ext: "vm_ext D T ps (mem s) T' ps' (mem w)"
        using vm_ext_trans[OF su w(2)] .
      have lf: "leaf (mem w) T' c v = (if k = 1 \<and> c = d \<and> PGROUNDDOWN v = i then v2p p OR PTE_FLAGS e else leaf (mem s) T c v)" for c v
        using w(4) mapped_page[OF i, of k d "v2p p" "PTE_FLAGS e" "leaf (mem s) T" c v] flags_present(1)[OF e]
        by (auto simp: w(3) or.assoc)
      show "wp (if z < 0 then ret False else go) Q w"
      proof (cases "z = 0")
        case True
        have "mem w (p + j) = mem s (?f + j)" if "unat j < 4096" for j
          using vm_ext_bytes[OF w(2) p(2) kpage_aligned[OF p(1)] that] mv(1)[OF that] t(2) by simp
        then show ?thesis using ok[OF w(1) ext, of p] lf w(4) True vm_ext_apart[OF w(2) p(2)] Cons by simp
      next
        case False
        then show ?thesis using fail[of T' w] w ext lf by (auto simp: wp_simps fun_eq_iff)
      qed
    qed
    then show ?thesis using p(3) Cons by (simp add: wp_fun wk)
  qed
qed

text \<open>The pages from \<open>i\<close> up to the size \<open>n\<close>.\<close>

definition upage :: "uint \<Rightarrow> uint \<Rightarrow> uint \<Rightarrow> bool" where
  "upage i n v \<longleftrightarrow> i \<le> PGROUNDDOWN v \<and> PGROUNDDOWN v < n"

definition copy_post :: "uint \<Rightarrow> lockid set \<Rightarrow> bool \<Rightarrow> uint set \<Rightarrow> (uint \<times> uint \<Rightarrow> uint option) \<Rightarrow> uint list \<Rightarrow> memory \<Rightarrow>
    uint \<Rightarrow> uint \<Rightarrow> uint \<Rightarrow> uint \<Rightarrow> bool \<Rightarrow> 'a kmemst_scheme \<Rightarrow> bool" where
  "copy_post kend H ie D T ps m pd d i n ok t \<longleftrightarrow> (\<exists>T' ps'. vm_rep kend H ie D T' ps' t \<and> vm_ext D T ps m T' ps' (mem t) \<and>
    (\<forall>c v. c \<noteq> d \<or> \<not> upage i n v \<longrightarrow> leaf (mem t) T' c v = leaf m T c v) \<and> (\<not> ok \<longrightarrow> ps' = []) \<and>
    (ok \<longrightarrow> (\<forall>v. upage i n v \<longrightarrow>
        copied m (leaf m T) (mem t) (leaf (mem t) T') pd d (set ps) (D \<union> ran T' \<union> set ps') v) \<and>
      (\<forall>v v'. upage i n v \<longrightarrow> upage i n v' \<longrightarrow> PTE_ADDR (leaf (mem t) T' d v) = PTE_ADDR (leaf (mem t) T' d v') \<longrightarrow>
        PGROUNDDOWN v = PGROUNDDOWN v')))"

lemma upage_step:
  assumes "aligned i" "i < n" "unat n \<le> 2 ^ 31"
  shows "upage i n v \<longleftrightarrow> PGROUNDDOWN v = i \<or> upage (i + PGSIZE) n v" "\<not> upage (i + PGSIZE) n v \<or> PGROUNDDOWN v \<noteq> i"
    "unat (i + PGSIZE) = unat i + 4096"
proof -
  show u: "unat (i + PGSIZE) = unat i + 4096"
    using assms(2,3) by (simp add: unat_word_ariths layout word_less_nat_alt)
  have "i \<le> PGROUNDDOWN v \<longleftrightarrow> PGROUNDDOWN v = i \<or> i + PGSIZE \<le> PGROUNDDOWN v"
    using aligned_below[OF assms(1) aligned_PGROUNDDOWN, of v] u by (auto simp: word_le_nat_alt word_less_nat_alt word_unat_eq_iff)
  then show "upage i n v \<longleftrightarrow> PGROUNDDOWN v = i \<or> upage (i + PGSIZE) n v" using assms(2) by (auto simp: upage_def)
  show "\<not> upage (i + PGSIZE) n v \<or> PGROUNDDOWN v \<noteq> i" using u by (auto simp: upage_def word_le_nat_alt)
qed

lemma pte_addr_page: "kpage kend p \<Longrightarrow> PTE_ADDR (v2p p OR PTE_FLAGS e) = v2p p"
proof -
  assume "kpage kend p"
  then have a: "aligned (v2p p)" by (simp add: aligned_p2v kpage_aligned)
  have "PTE_FLAGS e = take_bit 12 e" by (simp add: PTE_FLAGS_def mask12 take_bit_eq_mask)
  then have "PTE_FLAGS e < 4096" by (simp add: take_bit_eq_mod word_less_nat_alt unat_mod)
  then show ?thesis using pte_addr(1)[OF a] by simp
qed

lemma copy_post_step:
  assumes i: "aligned i" "i < n" "unat n \<le> 2 ^ 31" and ne: "pd \<noteq> d"
    and r: "vm_rep kend H ie D T ps s" and m: "m = mem s"
    and ext: "vm_ext D T ps m T' ps' m'" and p: "p \<in> set ps" "p \<notin> D \<union> ran T' \<union> set ps'"
    and lf: "\<And>c v. leaf m' T' c v = (if c = d \<and> PGROUNDDOWN v = i then v2p p OR PTE_FLAGS (leaf m T pd i) else leaf m T c v)"
    and bytes: "\<And>j. unat j < 4096 \<Longrightarrow> m' (p + j) = m (p2v (PTE_ADDR (leaf m T pd i)) + j)"
    and src: "\<forall>v. upage i n v \<longrightarrow> src_page kend D T ps m pd v"
    and post: "copy_post kend H ie D T' ps' m' pd d (i + PGSIZE) n ok t"
  shows "copy_post kend H ie D T ps m pd d i n ok t"
proof -
  obtain T2 ps2 where t: "vm_rep kend H ie D T2 ps2 t" "vm_ext D T' ps' m' T2 ps2 (mem t)" "\<not> ok \<Longrightarrow> ps2 = []"
    and keep: "\<And>c v. c \<noteq> d \<or> \<not> upage (i + PGSIZE) n v \<Longrightarrow> leaf (mem t) T2 c v = leaf m' T' c v"
    and cp: "\<And>v. ok \<Longrightarrow> upage (i + PGSIZE) n v \<Longrightarrow> copied m' (leaf m' T') (mem t) (leaf (mem t) T2) pd d (set ps') (D \<union> ran T2 \<union> set ps2) v"
    and inj: "\<And>v v'. ok \<Longrightarrow> upage (i + PGSIZE) n v \<Longrightarrow> upage (i + PGSIZE) n v' \<Longrightarrow>
      PTE_ADDR (leaf (mem t) T2 d v) = PTE_ADDR (leaf (mem t) T2 d v') \<Longrightarrow> PGROUNDDOWN v = PGROUNDDOWN v'"
    using post unfolding copy_post_def by blast
  note up = upage_step[OF i]
  have kp: "kpage kend q" if "q \<in> set ps" for q using r that by (auto simp: vm_rep_def kmem_rep_def list_all_iff)
  have ps': "set ps' \<subseteq> set ps" using ext by (simp add: vm_ext_def)
  have pt: "p \<notin> D \<union> ran T2 \<union> set ps2" by (rule vm_ext_apart[OF t(2) p(2)])
  have first: "leaf (mem t) T2 d v = v2p p OR PTE_FLAGS (leaf m T pd v)" if "PGROUNDDOWN v = i" for v
    using that keep[of d v] lf[of d v] up(2)[of v] leaf_page[of v i m T pd] by (auto simp: PGROUNDDOWN_aligned[OF i(1)])
  have cp1: "copied m (leaf m T) (mem t) (leaf (mem t) T2) pd d (set ps) (D \<union> ran T2 \<union> set ps2) v" if "PGROUNDDOWN v = i" for v
    unfolding copied_def
  proof (intro bexI[of _ p] conjI allI impI)
    fix j :: uint assume j: "unat j < 4096"
    show "mem t (p + j) = m (p2v (PTE_ADDR (leaf m T pd v)) + j)"
      using vm_ext_bytes[OF t(2) p(2) kpage_aligned[OF kp[OF p(1)]] j] bytes[OF j] leaf_page[of v i m T pd] that
      by (simp add: PGROUNDDOWN_aligned[OF i(1)])
  qed (use that first pt p in auto)
  have cp2: "copied m (leaf m T) (mem t) (leaf (mem t) T2) pd d (set ps) (D \<union> ran T2 \<union> set ps2) v"
    if a: "ok" "upage (i + PGSIZE) n v" for v
  proof -
    have l: "leaf m' T' pd v = leaf m T pd v" using lf[of pd v] ne by simp
    have "src_page kend D T ps m pd v" using src up(1) a by blast
    then have "m' (p2v (PTE_ADDR (leaf m T pd v)) + j) = m (p2v (PTE_ADDR (leaf m T pd v)) + j)" if "unat j < 4096" for j
      using vm_ext_bytes[OF ext _ kpage_aligned that] by (auto simp: src_page_def Let_def)
    moreover obtain q where q: "q \<in> set ps'" "q \<notin> D \<union> ran T2 \<union> set ps2" "leaf (mem t) T2 d v = v2p q OR PTE_FLAGS (leaf m T pd v)"
      "\<forall>j. unat j < 4096 \<longrightarrow> mem t (q + j) = m' (p2v (PTE_ADDR (leaf m T pd v)) + j)"
      using cp[OF a] unfolding copied_def l by auto
    ultimately show ?thesis using ps' unfolding copied_def by (intro bexI[of _ q]) auto
  qed
  have mixed: False if a: "ok" "PGROUNDDOWN v = i" "upage (i + PGSIZE) n v'"
    "PTE_ADDR (leaf (mem t) T2 d v) = PTE_ADDR (leaf (mem t) T2 d v')" for v v'
  proof -
    obtain q where q: "q \<in> set ps'" "leaf (mem t) T2 d v' = v2p q OR PTE_FLAGS (leaf m' T' pd v')"
      using cp[OF a(1,3)] by (auto simp: copied_def)
    have "v2p p = v2p q" using a(4) first[OF a(2)] pte_addr_page[OF kp[OF p(1)]] pte_addr_page[OF kp] q ps' by auto
    then have "p = q" by (metis p2v_v2p(1))
    then show False using q(1) p(2) by blast
  qed
  show ?thesis unfolding copy_post_def
  proof (intro exI[of _ T2] exI[of _ ps2] conjI)
    show "vm_ext D T ps m T2 ps2 (mem t)" using vm_ext_trans[OF ext t(2)] .
    show "\<forall>c v. c \<noteq> d \<or> \<not> upage i n v \<longrightarrow> leaf (mem t) T2 c v = leaf m T c v" using keep lf up(1) by auto
    show "ok \<longrightarrow> (\<forall>v. upage i n v \<longrightarrow> copied m (leaf m T) (mem t) (leaf (mem t) T2) pd d (set ps) (D \<union> ran T2 \<union> set ps2) v) \<and>
      (\<forall>v v'. upage i n v \<longrightarrow> upage i n v' \<longrightarrow> PTE_ADDR (leaf (mem t) T2 d v) = PTE_ADDR (leaf (mem t) T2 d v') \<longrightarrow>
        PGROUNDDOWN v = PGROUNDDOWN v')"
    proof (intro impI conjI allI)
      fix v v' assume a: ok "upage i n v" "upage i n v'" "PTE_ADDR (leaf (mem t) T2 d v) = PTE_ADDR (leaf (mem t) T2 d v')"
      show "PGROUNDDOWN v = PGROUNDDOWN v'"
        using a up(1)[of v] up(1)[of v'] mixed[OF a(1) _ _ a(4)] mixed[OF a(1) _ _ a(4)[symmetric]] inj[OF a(1) _ _ a(4)]
        by (cases "PGROUNDDOWN v = i"; cases "PGROUNDDOWN v' = i") auto
    qed (use cp1 cp2 up(1) in blast)
  qed (use t in blast)+
qed

lemma copy_post_done: "vm_rep kend H ie D T ps s \<Longrightarrow> \<not> i < n \<Longrightarrow> copy_post kend H ie D T ps (mem s) pd d i n True s"
  unfolding copy_post_def by (intro exI[of _ T] exI[of _ ps]) (auto simp: upage_def)

lemma wp_copyuvm_loop:
  assumes "vm_rep kend H ie D T ps s" "pd \<in> D" "d \<in> D" "pd \<noteq> d" "aligned i" "unat n \<le> 2 ^ 31"
    and "\<forall>v. upage i n v \<longrightarrow> src_page kend D T ps (mem s) pd v \<and> leaf (mem s) T d v AND PTE_P = 0"
    and "unat n \<le> unat i + 4096 * fuel"
  shows "wp (copyuvm_loop fuel pd d i n) (copy_post kend H ie D T ps (mem s) pd d i n) s"
  using assms
proof (induction fuel arbitrary: T ps s i)
  case (0 T ps s i)
  then have "\<not> i < n" by (simp add: word_less_nat_alt)
  then show ?case using copy_post_done[OF 0(1)] by (simp add: wp_simps)
next
  case (Suc fuel T ps s i)
  show ?case
  proof (cases "i < n")
    case False
    then show ?thesis using copy_post_done[OF Suc.prems(1)] by (simp add: wp_simps)
  next
    case True
    note up = upage_step[OF Suc.prems(5) True Suc.prems(6)]
    have pg: "PGROUNDDOWN i = i" by (rule PGROUNDDOWN_aligned[OF Suc.prems(5)])
    have "upage i n i" using True by (simp add: upage_def pg)
    then have src: "src_page kend D T ps (mem s) pd i" and dst: "leaf (mem s) T d i AND PTE_P = 0" using Suc.prems(7) by auto
    let ?e = "leaf (mem s) T pd i" and ?Q = "copy_post kend H ie D T ps (mem s) pd d i n"
    have e: "?e AND PTE_P \<noteq> 0" "kpage kend (p2v (PTE_ADDR ?e))" "p2v (PTE_ADDR ?e) \<notin> D \<union> ran T \<union> set ps"
      using src by (auto simp: src_page_def Let_def)
    obtain tb where tb: "T (pd, PDX i) = Some tb" using e(1) by (cases "T (pd, PDX i)") (auto simp: leaf_def)
    have "load32 (mem s) (pd + 4 * PDX i) = v2p tb OR 7"
      using Suc.prems(1,2) tb index_less(1)[of i] by (fastforce simp: vm_rep_def pw_def)
    then have walk: "wp (walkpgdir pd i False) R s = R (Some (tb + 4 * PTX i)) s" for R
      using pde_bits[OF vm_aligned(2)[OF Suc.prems(1) tb]] by (simp add: walkpgdir_def wp_simps)
    have ld: "load32 (mem s) (tb + 4 * PTX i) = ?e" using tb by (simp add: leaf_def pw_def)
    have "wp (kbind kalloc (\<lambda>pg. if pg = 0 then ret False else
      kseq (modify (\<lambda>s. s\<lparr>mem := memmove (mem s) pg (p2v (PTE_ADDR ?e)) PGSIZE\<rparr>)) (
      kbind (mappages d i PGSIZE (v2p pg) (PTE_FLAGS ?e)) (\<lambda>z. if z < 0 then ret False
        else copyuvm_loop fuel pd d (i + PGSIZE) n)))) ?Q s"
    proof (rule wp_copy_page[OF Suc.prems(1,3,5) e dst])
      fix T' and t :: "'a kmemst_scheme"
      assume t: "vm_rep kend H ie D T' [] t" "vm_ext D T ps (mem s) T' [] (mem t)" "leaf (mem t) T' = leaf (mem s) T"
      then show "?Q False t" by (auto simp: copy_post_def)
    next
      fix p T' ps' and t :: "'a kmemst_scheme"
      assume t: "vm_rep kend H ie D T' ps' t" "vm_ext D T ps (mem s) T' ps' (mem t)"
        and lf: "\<And>c v. leaf (mem t) T' c v = (if c = d \<and> PGROUNDDOWN v = i then v2p p OR PTE_FLAGS ?e else leaf (mem s) T c v)"
        and p: "p \<in> set ps" "p \<notin> D \<union> ran T' \<union> set ps'"
        and cont: "\<And>j. unat j < 4096 \<Longrightarrow> mem t (p + j) = mem s (p2v (PTE_ADDR ?e) + j)"
      have "src_page kend D T' ps' (mem t) pd v \<and> leaf (mem t) T' d v AND PTE_P = 0" if "upage (i + PGSIZE) n v" for v
      proof -
        have "src_page kend D T ps (mem s) pd v" "leaf (mem s) T d v AND PTE_P = 0" "PGROUNDDOWN v \<noteq> i"
          using Suc.prems(7) up(1,2) that by blast+
        then show ?thesis using lf[of pd v] lf[of d v] Suc.prems(4) vm_ext_apart[OF t(2)] by (simp add: src_page_def Let_def)
      qed
      moreover have "aligned (i + PGSIZE)" using Suc.prems(5) aligned_times[of 1] by (simp add: aligned_plus PGSIZE_def)
      ultimately have "wp (copyuvm_loop fuel pd d (i + PGSIZE) n) (copy_post kend H ie D T' ps' (mem t) pd d (i + PGSIZE) n) t"
        using Suc.prems(2,3,4,6,8) t(1) up(3) by (intro Suc.IH) auto
      then show "wp (copyuvm_loop fuel pd d (i + PGSIZE) n) ?Q t"
      proof (rule wp_mono)
        fix ok and u :: "'a kmemst_scheme"
        assume u: "copy_post kend H ie D T' ps' (mem t) pd d (i + PGSIZE) n ok u"
        have "\<forall>v. upage i n v \<longrightarrow> src_page kend D T ps (mem s) pd v" using Suc.prems(7) by blast
        then show "?Q ok u"
          by (intro copy_post_step[OF Suc.prems(5) True Suc.prems(6,4,1) refl t(2) p] lf cont u)
      qed
    qed
    then show ?thesis using True e(1) by (simp add: walk wp_kbind wp_gets ld cong: if_cong)
  qed
qed

text \<open>The byte a process sees at an address, and the physical page behind it.\<close>

definition ubyte :: "memory \<Rightarrow> uint \<Rightarrow> uint \<Rightarrow> uchar option" where
  "ubyte m pd v = map_option m (xlate m pd False v)"

definition frame :: "memory \<Rightarrow> uint \<Rightarrow> uint \<Rightarrow> uint option" where
  "frame m pd v = map_option PGROUNDDOWN (xlate m pd False v)"

lemma page_offset: "unat (v AND 0xFFF :: uint) < 4096" "aligned p \<Longrightarrow> PGROUNDDOWN (p + (v AND 0xFFF)) = p"
proof -
  have "v AND 0xFFF = take_bit 12 v" by (simp add: mask12 take_bit_eq_mask)
  then show o: "unat (v AND 0xFFF :: uint) < 4096" by (simp add: take_bit_eq_mod unat_mod)
  assume p: "aligned p"
  obtain q where q: "unat p = 4096 * q" using p by (metis aligned_unat dvd_eq_mod_eq_0 dvdE)
  have "unat (PGROUNDDOWN (p + (v AND 0xFFF))) = unat p"
    unfolding unat_PGROUNDDOWN aligned_add[OF p o] using o q by simp
  then show "PGROUNDDOWN (p + (v AND 0xFFF)) = p" by (simp only: word_unat_eq_iff)
qed

lemma xlate_present:
  assumes "vm_rep kend H ie D T ps s" "pd \<in> D" "leaf (mem s) T pd v AND PTE_P \<noteq> 0"
  shows "xlate (mem s) pd False v = Some (p2v (PTE_ADDR (leaf (mem s) T pd v)) + (v AND 0xFFF))"
    "xlate (mem s) pd True v = None \<longleftrightarrow> leaf (mem s) T pd v AND PTE_W = 0"
  using xlate_leaf[OF assms(1,2)] assms(3) by (simp_all add: Let_def)

lemma flags_bits: "PTE_FLAGS e AND PTE_P = e AND PTE_P" "PTE_FLAGS e AND PTE_W = e AND PTE_W"
proof -
  have "PTE_FLAGS e AND push_bit k 1 = e AND push_bit k 1" if "k < 12" for k
    using that by (intro bit_word_eqI) (auto simp: PTE_FLAGS_def mask12 bit_simps)
  from this[of 0] this[of 1] show "PTE_FLAGS e AND PTE_P = e AND PTE_P" "PTE_FLAGS e AND PTE_W = e AND PTE_W"
    by (simp_all add: layout)
qed

lemma copied_view:
  assumes r: "vm_rep kend H ie D T ps s" and t: "vm_rep kend H ie D T' ps' t" and D: "pd \<in> D" "d \<in> D"
    and src: "src_page kend D T ps (mem s) pd v"
    and cp: "copied (mem s) (leaf (mem s) T) (mem t) (leaf (mem t) T') pd d (set ps) U v"
  shows "ubyte (mem t) d v = ubyte (mem s) pd v" "ubyte (mem s) pd v \<noteq> None" "\<exists>p \<in> set ps. frame (mem t) d v = Some p"
    "xlate (mem t) d True v = None \<longleftrightarrow> xlate (mem s) pd True v = None"
    "frame (mem t) d v = Some (p2v (PTE_ADDR (leaf (mem t) T' d v)))"
proof -
  let ?e = "leaf (mem s) T pd v" and ?o = "v AND 0xFFF"
  obtain p where p: "p \<in> set ps" "leaf (mem t) T' d v = v2p p OR PTE_FLAGS ?e"
    "\<forall>j. unat j < 4096 \<longrightarrow> mem t (p + j) = mem s (p2v (PTE_ADDR ?e) + j)" using cp by (auto simp: copied_def)
  have kp: "kpage kend p" using r p(1) by (auto simp: vm_rep_def kmem_rep_def list_all_iff)
  have al: "aligned (v2p p)" using kpage_aligned[OF kp] by (simp add: aligned_p2v)
  have e: "?e AND PTE_P \<noteq> 0" using src by (simp add: src_page_def Let_def)
  have l: "leaf (mem t) T' d v AND PTE_P \<noteq> 0" "leaf (mem t) T' d v AND PTE_W = ?e AND PTE_W"
    using e pte_flag[OF al] flags_bits by (simp_all add: p(2))
  note x = xlate_present[OF r D(1) e] xlate_present[OF t D(2) l(1)]
  have ad: "p2v (PTE_ADDR (leaf (mem t) T' d v)) = p" unfolding p(2) pte_addr_page[OF kp] by simp
  show "ubyte (mem t) d v = ubyte (mem s) pd v" "ubyte (mem s) pd v \<noteq> None"
    using p(3) page_offset(1)[of v] by (auto simp: ubyte_def x ad)
  show f: "frame (mem t) d v = Some (p2v (PTE_ADDR (leaf (mem t) T' d v)))"
    using page_offset(2)[OF kpage_aligned[OF kp], of v] by (simp add: frame_def x ad)
  then show "\<exists>p \<in> set ps. frame (mem t) d v = Some p" using p(1) by (simp add: ad)
  show "xlate (mem t) d True v = None \<longleftrightarrow> xlate (mem s) pd True v = None" by (simp add: x l(2))
qed

lemma src_view:
  assumes r: "vm_rep kend H ie D T ps s" and D: "pd \<in> D" and src: "src_page kend D T ps (mem s) pd v"
  shows "\<exists>f. frame (mem s) pd v = Some f \<and> f \<notin> D \<union> ran T \<union> set ps \<and> xlate (mem s) pd False v = Some (f + (v AND 0xFFF)) \<and>
    aligned f"
proof -
  let ?e = "leaf (mem s) T pd v"
  have s: "?e AND PTE_P \<noteq> 0" "kpage kend (p2v (PTE_ADDR ?e))" "p2v (PTE_ADDR ?e) \<notin> D \<union> ran T \<union> set ps"
    using src by (auto simp: src_page_def Let_def)
  show ?thesis using s(3) page_offset(2)[OF kpage_aligned[OF s(2)], of v] kpage_aligned[OF s(2)]
    by (simp add: frame_def xlate_present[OF r D s(1)])
qed


text \<open>Two directories and two free pages, for the witness; the first directory maps the page at 0.\<close>

definition two_dirs :: kmemst where
  "two_dirs = kmem1\<lparr>mem := store32 (\<lambda>_. 0) 0x80400000 0x80405000\<rparr>"

definition one_page :: kmemst where
  "one_page = two_dirs\<lparr>mem := store32 (store32 (memset (mem two_dirs) 0x80403000 0 PGSIZE) (0x80401000 + 4 * PDX 0)
    (v2p 0x80403000 OR 7)) (0x80403000 + 4 * PTX 0) (v2p 0x80404000 OR 7)\<rparr>"

lemma two_dirs_vm: "vm_rep 0x80200000 {} True {0x80401000, 0x80402000} Map.empty [0x80400000, 0x80405000] two_dirs"
proof -
  have z: "pw (\<lambda>_. 0) x i = 0" for x i by (simp add: pw_def load32_def)
  have al: "aligned 0x80400000" "aligned 0x80401000" "aligned 0x80402000" "aligned 0x80405000" by (simp_all add: aligned_def layout)
  have w: "pw (mem two_dirs) x i = (if x = 0x80400000 \<and> i = 0 then 0x80405000 else 0)" if "aligned x" "unat i < 1024" for x i
    using pw_store[OF al(1) that(1), of 0 i] that(2) z by (auto simp: two_dirs_def)
  have "kmem_rep 0x80200000 two_dirs [0x80400000, 0x80405000]"
    using w[OF al(1), of 0] w[OF al(4), of 0]
    by (simp add: kmem_rep_def pw_0) (simp add: two_dirs_def kmem1_def kpage_def layout v2p_def)
  moreover have "mach_holds {} True two_dirs" using kmem1_holds by (simp add: two_dirs_def)
  ultimately show ?thesis using w[OF al(2)] w[OF al(3)] by (simp add: vm_rep_def kpage_def layout v2p_def)
qed

lemma one_page_vm:
  defines "T \<equiv> [(0x80401000 :: uint, PDX 0) \<mapsto> 0x80403000 :: uint]"
  shows "vm_rep 0x80200000 {} True {0x80401000, 0x80402000} T [0x80400000, 0x80405000] one_page"
    "leaf (mem one_page) T c v = (if c = 0x80401000 \<and> PGROUNDDOWN v = 0 then v2p 0x80404000 OR 7 else 0)"
proof -
  let ?m = "store32 (memset (mem two_dirs) 0x80403000 0 PGSIZE) (0x80401000 + 4 * PDX 0) (v2p 0x80403000 OR 7)"
  have kp: "kpage 0x80200000 0x80403000" by (simp add: kpage_def layout v2p_def)
  have n: "vm_rep 0x80200000 {} True {0x80401000, 0x80402000} T [0x80400000, 0x80405000] (two_dirs\<lparr>mem := ?m\<rparr>)"
    "leaf ?m T = leaf (mem two_dirs) Map.empty"
    unfolding T_def using kp index_less(1)[of 0] by (auto intro!: vm_new_table[OF two_dirs_vm])
  have tb: "T (0x80401000, PDX 0) = Some 0x80403000" by (simp add: T_def)
  note st = vm_set_leaf[OF n(1) tb, of "v2p 0x80404000 OR 7"]
  show "vm_rep 0x80200000 {} True {0x80401000, 0x80402000} T [0x80400000, 0x80405000] one_page"
    using st(1) by (simp add: one_page_def)
  show "leaf (mem one_page) T c v = (if c = 0x80401000 \<and> PGROUNDDOWN v = 0 then v2p 0x80404000 OR 7 else 0)"
    using st(3)[of c v] n(2) by (simp add: one_page_def leaf_def PGROUNDDOWN_def)
qed


end
