(* ===== verification/Args.thy ===== *)
theory Args
  imports Syscall Pagetab
begin

text \<open>
  What the argument checks of \<^verbatim>\<open>syscall.c\<close> guarantee: the bytes of a string argument and the extent of a buffer
  argument, in terms of what the process sees through its page table.
\<close>

section \<open>What a pointer from a process can reach\<close>

lemma cur_run:
  assumes "me s = Some p"
  shows "cur s = Inr (procs s p, s)"
  using assms by (simp add: cur_def the_proc_def kbind_def gets_def ret_def)

lemma kbind_cur: "me s = Some p \<Longrightarrow> kbind cur f s = f (procs s p) s"
  by (simp add: kbind_def cur_run)

lemma uload_run: "uload pd va s = (case ubyte (mem s) pd va of None \<Rightarrow> Inl (Panic ''trap'') | Some c \<Rightarrow> Inr (c, s))"
  by (simp add: uload_def ubyte_def kbind_def gets_def ret_def stop_def split: option.split)

lemma fetchstr_loop_sound:
  assumes "fetchstr_loop n pd a s = Inr (Some bs, t)"
  shows "t = s \<and> length bs < n \<and> 0 \<notin> set bs \<and> (\<forall>i \<le> length bs. ubyte (mem s) pd (a + of_nat i) = Some ((bs @ [0]) ! i))"
  using assms
proof (induction n arbitrary: a bs)
  case (Suc n)
  obtain c where c: "ubyte (mem s) pd a = Some c"
    using Suc.prems by (cases "ubyte (mem s) pd a") (simp_all add: kbind_def uload_run)
  show ?case
  proof (cases "c = 0")
    case True
    then have "bs = []" "t = s" using Suc.prems c by (simp_all add: kbind_def uload_run ret_def)
    then show ?thesis using c True by simp
  next
    case False
    then obtain bs' where b: "fetchstr_loop n pd (a + 1) s = Inr (Some bs', t)" "bs = c # bs'"
      using Suc.prems c by (auto simp: kbind_def uload_run ret_def split: sum.splits prod.splits)
    note ih = Suc.IH[OF b(1)]
    have "ubyte (mem s) pd (a + of_nat i) = Some ((bs @ [0]) ! i)" if "i \<le> length bs" for i
    proof (cases i)
      case (Suc j)
      have "a + of_nat (Suc j) = a + 1 + of_nat j" by simp
      moreover have "ubyte (mem s) pd (a + 1 + of_nat j) = Some ((bs' @ [0]) ! j)" using ih that Suc b(2) by simp
      ultimately show ?thesis using Suc b(2) by (simp only: append_Cons nth_Cons_Suc)
    qed (use c b(2) in simp)
    then show ?thesis using ih b(2) False by simp
  qed
qed (simp add: ret_def)

text \<open>
  C27. A string argument lies inside the process: when \<^verbatim>\<open>fetchstr\<close> accepts an address, the bytes it hands to
  the kernel are those the process sees from that address on, they contain no NUL, and they end with a NUL
  that is still below the size of the process. The call changes nothing.
\<close>

theorem fetchstr_in_process:
  assumes "me s = Some p" "fetchstr addr s = Inr (Some bs, t)"
  shows "t = s \<and> unat addr + length bs < unat (sz (procs s p)) \<and> 0 \<notin> set bs \<and>
    (\<forall>i \<le> length bs. ubyte (mem s) (pgdir (procs s p)) (addr + of_nat i) = Some ((bs @ [0]) ! i))"
proof -
  let ?r = "procs s p"
  have "fetchstr_loop (unat (sz ?r) - unat addr) (pgdir ?r) addr s = Inr (Some bs, t)" "addr < sz ?r"
    using assms by (auto simp: fetchstr_def kbind_cur ret_def split: if_splits)
  then show ?thesis using fetchstr_loop_sound[of "unat (sz ?r) - unat addr" "pgdir ?r" addr s bs t]
    by (auto simp: word_less_nat_alt)
qed

text \<open>
  C28. A buffer argument: with a length below two gigabytes \<^verbatim>\<open>argptr\<close> accepts exactly the addresses whose whole buffer lies in a process
  that ends below the kernel; but the sum is taken modulo \<open>2 ^ 32\<close>, so with the length -1 it accepts every address of the process except 0.
\<close>

theorem argptr_bounds:
  assumes "me s = Some p" "argint n s = Inr (Some a, s)" "sz (procs s p) \<le> KERNBASE"
  shows "(len < 0x80000000 \<longrightarrow> argptr n len s =
      Inr (if unat a + unat len \<le> unat (sz (procs s p)) \<and> a < sz (procs s p) then Some a else None, s)) \<and>
    (0 < a \<and> a < sz (procs s p) \<longrightarrow> argptr n (- 1) s = Inr (Some a, s))"
proof -
  let ?z = "sz (procs s p)"
  have run: "argptr n l s = Inr (if a \<ge> ?z \<or> a + l > ?z then None else Some a, s)" for l
    using assms(1,2) by (simp add: argptr_def kbind_def[of "argint n"] kbind_cur ret_def)
  have z: "unat ?z \<le> 2 ^ 31" using assms(3) by (simp add: word_le_nat_alt layout)
  show ?thesis
  proof (intro conjI impI)
    assume "len < 0x80000000"
    then have "a + len \<le> ?z \<longleftrightarrow> unat a + unat len \<le> unat ?z" if "a < ?z"
      using that z by (simp add: word_le_nat_alt word_less_nat_alt unat_word_ariths)
    then show "argptr n len s = Inr (if unat a + unat len \<le> unat ?z \<and> a < ?z then Some a else None, s)"
      unfolding run by (cases "a < ?z") (auto simp flip: not_le)
  next
    assume a: "0 < a \<and> a < ?z"
    then have "a \<noteq> 0" by auto
    then have "unat (a - 1) < unat ?z" using a by (auto simp: unat_minus_one word_less_nat_alt)
    then have "a + (- 1) \<le> ?z" by (simp add: word_le_nat_alt)
    then show "argptr n (- 1) s = Inr (Some a, s)" unfolding run using a by (simp add: not_le not_less)
  qed
qed

text \<open>A process with one page that holds the argument 97 and the string \<open>a\<close> at address 4, for the witnesses.\<close>

definition upst :: pst where
  "upst = pst1\<lparr>mem := (mem one_page)(0x80404004 := 97), procs := (procs pst1)(0 := (procs pst1 0)\<lparr>pgdir := 0x80401000, sz := 4096,
    tf := (tf (procs pst1 0))\<lparr>tf_esp := 0\<rparr>\<rparr>)\<rparr>"

lemma upst_sel: "me upst = Some 0" "sz (procs upst 0) = 4096" "pgdir (procs upst 0) = 0x80401000" "tf_esp (tf (procs upst 0)) = 0"
  using pst1_proc(1) by (simp_all add: upst_def me_def)

lemma one_page_zero: "unat j < 4096 \<Longrightarrow> mem one_page (0x80404000 + j) = 0"
proof -
  assume j: "unat j < 4096"
  have al: "aligned 0x80400000" "aligned 0x80401000" "aligned 0x80403000" "aligned 0x80404000" by (simp_all add: aligned_def layout)
  let ?P = "{0x80400000, 0x80401000, 0x80403000} :: uint set"
  have "off_pages ?P (\<lambda>_. 0) (mem two_dirs)"
    using off_pages_store[OF al(1), of 0 ?P "\<lambda>_. 0" "0x80405000"] by (simp add: two_dirs_def)
  moreover have "off_pages ?P (mem two_dirs) (memset (mem two_dirs) 0x80403000 0 PGSIZE)"
    by (rule off_pages_memset) (use al in simp_all)
  moreover have "off_pages ?P (memset (mem two_dirs) 0x80403000 0 PGSIZE) (mem one_page)"
    unfolding one_page_def by (simp, rule off_pages_trans[OF off_pages_store off_pages_store]) (use al index_less in auto)
  ultimately have "off_pages ?P (\<lambda>_. 0) (mem one_page)" by (blast intro: off_pages_trans)
  then show ?thesis using j al(4) by (simp add: off_pages_def)
qed

lemma upst_byte:
  assumes "unat v < 4096"
  shows "ubyte (mem upst) 0x80401000 v = Some (if v = 4 then 97 else 0)"
proof -
  let ?m = "(mem one_page)(0x80404004 := 97)" and ?T = "[(0x80401000 :: uint, PDX 0) \<mapsto> 0x80403000 :: uint]"
  have al: "aligned 0x80404000" "aligned (v2p 0x80404000)" by (simp_all add: aligned_def layout v2p_def)
  have "0x80404004 \<noteq> x + j" if "aligned x" "x \<noteq> 0x80404000" "unat j < 4096" for x j :: uint
    using aligned_apart[OF that(1) al(1) that(2,3), of 4] by auto
  then have off: "off_pages {0x80404000} (mem one_page) ?m" by (auto simp: off_pages_def)
  note w = vm_data_write[OF one_page_vm(1) off]
  have r: "vm_rep 0x80200000 {} True {0x80401000, 0x80402000} ?T [0x80400000, 0x80405000] (one_page\<lparr>mem := ?m\<rparr>)"
    "leaf ?m ?T = leaf (mem one_page) ?T" by (intro w; simp)+
  have v: "v AND 0xFFF = v" using assms by (simp add: mask12 take_bit_eq_mask[symmetric] take_bit_eq_mod word_unat_eq_iff unat_mod)
  have "PGROUNDDOWN v = 0" using assms by (simp add: word_unat_eq_iff unat_PGROUNDDOWN)
  then have e: "leaf ?m ?T 0x80401000 v = v2p 0x80404000 OR 7" using one_page_vm(2)[of "0x80401000" v] r(2) by simp
  then have "leaf ?m ?T 0x80401000 v AND PTE_P \<noteq> 0" "p2v (PTE_ADDR (leaf ?m ?T 0x80401000 v)) = 0x80404000"
    using pte_flag[OF al(2), of 7] pte_addr(1)[OF al(2), of 7] by (simp_all add: layout)
  then have "xlate ?m 0x80401000 False v = Some (0x80404000 + v)"
    using xlate_present(1)[OF r(1), of "0x80401000" v] v by simp
  then show ?thesis using one_page_zero[OF assms] by (auto simp: ubyte_def upst_def)
qed

theorem fetchstr_in_process_witness:
  "fetchstr 4 upst = Inr (Some [97], upst) \<and> unat (4 :: uint) + 1 < unat (sz (procs upst 0))"
proof -
  have "fetchstr_loop (Suc (Suc n)) 0x80401000 4 upst = Inr (Some [97], upst)" for n
    using upst_byte[of 4] upst_byte[of 5] by (simp add: kbind_def uload_run ret_def)
  moreover have "unat (4096 :: uint) - unat (4 :: uint) = Suc (Suc 4090)" by simp
  moreover have "\<not> (4096 :: uint) \<le> 4" by simp
  ultimately have f: "fetchstr 4 upst = Inr (Some [97], upst)"
    by (simp only: fetchstr_def kbind_cur[OF upst_sel(1)] upst_sel if_False)
  then show ?thesis using fetchstr_in_process[OF upst_sel(1) f] by simp
qed

lemma upst_arg: "argint 0 upst = Inr (Some 97, upst)"
proof -
  have four: "(4 :: nat) = Suc (Suc (Suc (Suc 0)))" by simp
  have b: "uload 0x80401000 4 upst = Inr (97, upst)" "uload 0x80401000 5 upst = Inr (0, upst)"
    "uload 0x80401000 6 upst = Inr (0, upst)" "uload 0x80401000 7 upst = Inr (0, upst)" by (simp_all add: uload_run upst_byte)
  have "uloads 0x80401000 4 4 upst = Inr ([97, 0, 0, 0], upst)" unfolding four by (simp add: kbind_def b ret_def)
  then show ?thesis
    by (simp add: argint_def fetchint_def kbind_cur upst_sel) (simp add: kbind_def ret_def word32_def join32_def)
qed

theorem argptr_bounds_witness:
  "argptr 0 100 upst = Inr (Some 97, upst) \<and> argptr 0 4096 upst = Inr (None, upst) \<and> argptr 0 (- 1) upst = Inr (Some 97, upst)"
  using argptr_bounds[OF upst_sel(1) upst_arg, of 100] argptr_bounds[OF upst_sel(1) upst_arg, of 4096]
  by (simp add: upst_sel layout)

end
