(* ===== verification/Exec.thy ===== *)
theory Exec
  imports Proc
begin

text \<open>
  \<^verbatim>\<open>exec.c\<close> and \<^verbatim>\<open>loaduvm\<close>: a program image is read from an ELF file into a fresh page table, the argument
  strings and the argument vector go on a new stack, and only then does the process switch to it. Every
  failure before that point leaves through \<^verbatim>\<open>bad\<close>.
\<close>

definition ELF_MAGIC :: uint where [layout]: "ELF_MAGIC = 0x464C457F"
definition ELF_PROG_LOAD :: uint where [layout]: "ELF_PROG_LOAD = 1"
definition ELFHDR :: nat where [layout]: "ELFHDR = 52"
definition PROGHDR :: nat where [layout]: "PROGHDR = 32"
definition MAXARG :: nat where [layout]: "MAXARG = 32"

record elfhdr =
  e_magic :: uint
  e_entry :: uint
  e_phoff :: uint
  e_phnum :: ushort

record proghdr =
  ph_type :: uint
  ph_off :: uint
  ph_vaddr :: uint
  ph_filesz :: uint
  ph_memsz :: uint

definition dec_elfhdr :: "uchar list \<Rightarrow> elfhdr" where
  "dec_elfhdr bs = \<lparr>e_magic = get32 bs 0, e_entry = get32 bs 24, e_phoff = get32 bs 28,
    e_phnum = word16 (slice bs 44 2)\<rparr>"

definition dec_proghdr :: "uchar list \<Rightarrow> proghdr" where
  "dec_proghdr bs = \<lparr>ph_type = get32 bs 0, ph_off = get32 bs 4, ph_vaddr = get32 bs 8, ph_filesz = get32 bs 16,
    ph_memsz = get32 bs 20\<rparr>"

text \<open>The permission bits of a file: who may execute it, and whether it runs under its owner.\<close>

definition mode_o_x :: "uint \<Rightarrow> bool" where "mode_o_x m = bit m 0"
definition mode_g_x :: "uint \<Rightarrow> bool" where "mode_g_x m = bit m 3"
definition mode_u_x :: "uint \<Rightarrow> bool" where "mode_u_x m = bit m 6"
definition mode_setuid :: "uint \<Rightarrow> bool" where "mode_setuid m = bit m 9"

definition may_exec :: "proc \<Rightarrow> stat \<Rightarrow> bool" where
  "may_exec r st =
    (if st_uid st = uid r \<and> mode_u_x (st_mode st) then True
     else if st_gid st = gid r \<and> mode_g_x (st_mode st) then True
     else mode_o_x (st_mode st))"

fun loaduvm_loop :: "nat \<Rightarrow> 'a ist_scheme devsw \<Rightarrow> uint \<Rightarrow> uint \<Rightarrow> nat \<Rightarrow> uint \<Rightarrow> uint \<Rightarrow> uint \<Rightarrow> ('a ist_scheme, int) kmon" where
  "loaduvm_loop 0 dv pd addr ip offset n i = (if i < n then stop Diverge else ret 0)"
| "loaduvm_loop (Suc fuel) dv pd addr ip offset n i =
    (if i < n then
      kbind (walkpgdir pd (addr + i) False) (\<lambda>po.
      case po of None \<Rightarrow> panic ''loaduvm: address should exist'' | Some pte \<Rightarrow>
      kbind (gets (\<lambda>s. PTE_ADDR (load32 (mem s) pte))) (\<lambda>pa.
      let k = (if n - i < PGSIZE then n - i else PGSIZE) in
      kbind (readi dv ip (offset + i) k) (\<lambda>(z, bs).
      kseq (modify (\<lambda>s. s\<lparr>mem := store_bytes (mem s) (p2v pa) bs\<rparr>)) (
      if of_int z \<noteq> k then ret (- 1)
      else loaduvm_loop fuel dv pd addr ip offset n (i + PGSIZE)))))
     else ret 0)"

definition loaduvm :: "'a ist_scheme devsw \<Rightarrow> uint \<Rightarrow> uint \<Rightarrow> nat \<Rightarrow> uint \<Rightarrow> uint \<Rightarrow> ('a ist_scheme, int) kmon" where
  "loaduvm dv pd addr ip offset n =
    (if addr mod PGSIZE \<noteq> 0 then panic ''loaduvm: addr must be page aligned''
     else loaduvm_loop (unat n div unat PGSIZE + 1) dv pd addr ip offset n 0)"

text \<open>The loop over the program headers; \<open>None\<close> is the exit to \<^verbatim>\<open>bad\<close>.\<close>

fun load_segments :: "nat \<Rightarrow> uint \<Rightarrow> 'a ist_scheme devsw \<Rightarrow> uint \<Rightarrow> nat \<Rightarrow> uint \<Rightarrow> uint \<Rightarrow> ('a ist_scheme, uint option) kmon" where
  "load_segments 0 kend dv pd ip off z = ret (Some z)"
| "load_segments (Suc k) kend dv pd ip off z =
    kbind (readi dv ip off (of_nat PROGHDR)) (\<lambda>(n, bs).
    let ph = dec_proghdr bs in
    if n \<noteq> int PROGHDR then ret None
    else if ph_type ph \<noteq> ELF_PROG_LOAD then load_segments k kend dv pd ip (off + of_nat PROGHDR) z
    else if ph_memsz ph < ph_filesz ph then ret None
    else
      kbind (allocuvm kend pd z (ph_vaddr ph + ph_memsz ph)) (\<lambda>z'.
      if z' = 0 then ret None
      else
        kbind (loaduvm dv pd (ph_vaddr ph) ip (ph_off ph) (ph_filesz ph)) (\<lambda>r.
        if r < 0 then ret None
        else load_segments k kend dv pd ip (off + of_nat PROGHDR) z')))"

text \<open>Pushing the argument strings: the stack pointer and the addresses of the strings so far.\<close>

fun push_args :: "uint \<Rightarrow> uchar list list \<Rightarrow> uint \<Rightarrow> uint list \<Rightarrow> ('a kmemst_scheme, (uint \<times> uint list) option) kmon" where
  "push_args pd [] sp us = ret (Some (sp, us))"
| "push_args pd (a # argv) sp us =
    (if length us \<ge> MAXARG then ret None
     else
      let sp' = (sp - of_nat (length a + 1)) AND NOT 3 in
      kbind (copyout pd sp' (a @ [0])) (\<lambda>r.
      if r < 0 then ret None else push_args pd argv sp' (us @ [sp'])))"

definition basename :: "uchar list \<Rightarrow> uchar list" where
  "basename path = rev (takeWhile (\<lambda>c. c \<noteq> SLASH) (rev path))"

text \<open>The part of \<open>exec\<close> up to the call of \<open>end_op\<close>, with the inode locked: reading the file.\<close>

definition exec_read :: "uint \<Rightarrow> uint \<Rightarrow> 'a ist_scheme devsw \<Rightarrow> nat \<Rightarrow> ('a ist_scheme, uint \<times> (elfhdr \<times> uint) option) kmon" where
  "exec_read kend kdata dv ip =
    kbind (readi dv ip 0 (of_nat ELFHDR)) (\<lambda>(n, bs).
    if n < 0 then stop (Undef ''uninitialised header'')
    else if n < int ELFHDR then ret (0, None)
    else
      let elf = dec_elfhdr bs in
      if e_magic elf \<noteq> ELF_MAGIC then ret (0, None)
      else
        kbind (setupkvm kdata) (\<lambda>pd.
        if pd = 0 then ret (0, None)
        else
          kbind (load_segments (unat (e_phnum elf)) kend dv pd ip (e_phoff elf) 0) (\<lambda>zo.
          ret (pd, map_option (\<lambda>z. (elf, z)) zo))))"

text \<open>The stack of the new image.\<close>

definition exec_stack :: "uint \<Rightarrow> uint \<Rightarrow> uint \<Rightarrow> uchar list list \<Rightarrow> ('a pst_scheme, (uint \<times> uint) option) kmon" where
  "exec_stack kend pd z argv =
    (let z0 = PGROUNDUP z in
    kbind (allocuvm kend pd z0 (z0 + 2 * PGSIZE)) (\<lambda>z'.
    if z' = 0 then ret None
    else
      kseq (clearpteu pd (z' - 2 * PGSIZE)) (
      kbind (push_args pd argv z' []) (\<lambda>r.
      case r of None \<Rightarrow> ret None | Some (sp, us) \<Rightarrow>
      let argc = of_nat (length us); sp' = sp - (3 + argc + 1) * 4;
        ustack = [0xffffffff, argc, sp - (argc + 1) * 4] @ us @ [0] in
      kbind (copyout pd sp' (concat (map bytes32 ustack))) (\<lambda>c.
      if c < 0 then ret None else ret (Some (z', sp')))))))"

definition exec_commit :: "uint \<Rightarrow> nat \<Rightarrow> uchar list \<Rightarrow> stat \<Rightarrow> uint \<Rightarrow> uint \<Rightarrow> uint \<Rightarrow> uint \<Rightarrow> ('a pst_scheme, int) kmon" where
  "exec_commit kend p path st pd z entry sp =
    kseq (set_proc p (\<lambda>r. r\<lparr>pname := safestrcpy_l PNAME (basename path)\<rparr>)) (
    kbind (gets (\<lambda>s. pgdir (procs s p))) (\<lambda>oldpd.
    kseq (set_proc p (\<lambda>r. r\<lparr>pgdir := pd, sz := z, tf := (tf r)\<lparr>tf_eip := entry, tf_esp := sp\<rparr>\<rparr>)) (
    kseq (kwhen (mode_setuid (st_mode st)) (set_proc p (\<lambda>r. r\<lparr>uid := st_uid st\<rparr>))) (
    kseq (switchuvm p) (
    kseq (freevm kend oldpd) (
    ret 0))))))"

definition exec_bad :: "uint \<Rightarrow> uint \<Rightarrow> nat option \<Rightarrow> ('a ist_scheme, int) kmon" where
  "exec_bad kend pd ipo =
    kseq (kwhen (pd \<noteq> 0) (freevm kend pd)) (
    kseq (case ipo of None \<Rightarrow> ret () | Some ip \<Rightarrow> kseq (iunlockput ip) end_op) (
    ret (- 1)))"

definition exec :: "uint \<Rightarrow> uint \<Rightarrow> 'a ist_scheme devsw \<Rightarrow> uchar list \<Rightarrow> uchar list list \<Rightarrow> ('a ist_scheme, int) kmon" where
  "exec kend kdata dv path argv =
    kseq begin_op (
    kbind (namei dv path) (\<lambda>ipo.
    case ipo of None \<Rightarrow> kseq end_op (ret (- 1)) | Some ip \<Rightarrow>
    kseq (ilock ip) (
    kbind (stati ip) (\<lambda>st.
    kbind the_proc (\<lambda>p.
    kbind (gets (\<lambda>s. procs s p)) (\<lambda>r.
    if \<not> may_exec r st then exec_bad kend 0 (Some ip)
    else
      kbind (exec_read kend kdata dv ip) (\<lambda>(pd, res).
      case res of None \<Rightarrow> exec_bad kend pd (Some ip) | Some (elf, z) \<Rightarrow>
      kseq (iunlockput ip) (
      kseq end_op (
      kbind (exec_stack kend pd z argv) (\<lambda>so.
      case so of None \<Rightarrow> exec_bad kend pd None | Some (z', sp) \<Rightarrow>
      exec_commit kend p path st pd z' (e_entry elf) sp))))))))))"

end
