(* ===== verification/Sysfile.thy ===== *)
theory Sysfile
  imports Syscall Exec
begin

text \<open>
  \<^verbatim>\<open>sysfile.c\<close>: the system calls on files. Each reads its arguments, works inside a transaction where it
  changes the file system, and undoes what it did on its error paths. Flags of \<^verbatim>\<open>open\<close> are the bits of
  \<^verbatim>\<open>fcntl.h\<close>.
\<close>

definition OM_WRONLY :: uint where [layout]: "OM_WRONLY = 1"
definition OM_RDWR :: uint where [layout]: "OM_RDWR = 2"
definition OM_CREATE :: uint where [layout]: "OM_CREATE = 0x200"
definition STATSIZE :: uint where [layout]: "STATSIZE = 32"

section \<open>Descriptors\<close>

definition argfd :: "nat \<Rightarrow> ('a fist_scheme, (nat \<times> nat) option) kmon" where
  "argfd n =
    kbind (argint n) (\<lambda>fo.
    case fo of None \<Rightarrow> ret None | Some fd \<Rightarrow>
    kbind cur (\<lambda>r.
    if sint fd < 0 \<or> sint fd \<ge> int NOFILE then ret None
    else case ofile r ! unat fd of None \<Rightarrow> ret None | Some f \<Rightarrow> ret (Some (unat fd, f))))"

definition set_fd :: "nat \<Rightarrow> nat option \<Rightarrow> ('a pst_scheme, unit) kmon" where
  "set_fd fd fo = kbind the_proc (\<lambda>p. set_proc p (\<lambda>r. r\<lparr>ofile := (ofile r)[fd := fo]\<rparr>))"

definition fdalloc :: "nat \<Rightarrow> ('a pst_scheme, nat option) kmon" where
  "fdalloc f =
    kbind cur (\<lambda>r.
    case find (\<lambda>fd. ofile r ! fd = None) [0..<NOFILE] of
      None \<Rightarrow> ret None
    | Some fd \<Rightarrow> kseq (set_fd fd (Some f)) (ret (Some fd)))"

definition sys_dup :: "('a fist_scheme, int) kmon" where
  "sys_dup =
    kbind (argfd 0) (\<lambda>a.
    case a of None \<Rightarrow> ret (- 1) | Some (_, f) \<Rightarrow>
    kbind (fdalloc f) (\<lambda>fo.
    case fo of None \<Rightarrow> ret (- 1) | Some fd \<Rightarrow>
    kbind (filedup f) (\<lambda>_.
    ret (int fd))))"

definition rw_args :: "('a fist_scheme, (nat \<times> uint \<times> uint) option) kmon" where
  "rw_args =
    kbind (argfd 0) (\<lambda>a.
    case a of None \<Rightarrow> ret None | Some (_, f) \<Rightarrow>
    kbind (argint 2) (\<lambda>no.
    case no of None \<Rightarrow> ret None | Some n \<Rightarrow>
    kbind (argptr 1 n) (\<lambda>po.
    case po of None \<Rightarrow> ret None | Some p \<Rightarrow> ret (Some (f, p, n)))))"

definition sys_read :: "'a fist_scheme devsw \<Rightarrow> ('a fist_scheme, int) kmon" where
  "sys_read dv =
    kbind rw_args (\<lambda>a.
    case a of None \<Rightarrow> ret (- 1) | Some (f, p, n) \<Rightarrow>
    kbind (fileread dv f (sint n)) (\<lambda>(k, bs).
    kseq (user_store p bs) (
    ret k)))"

definition sys_write :: "'a fist_scheme devsw \<Rightarrow> ('a fist_scheme, int) kmon" where
  "sys_write dv =
    kbind rw_args (\<lambda>a.
    case a of None \<Rightarrow> ret (- 1) | Some (f, p, n) \<Rightarrow>
    kbind (user_load p (nat (sint n))) (\<lambda>src.
    filewrite dv f (sint n) src))"

definition sys_close :: "uint \<Rightarrow> ('a fist_scheme, int) kmon" where
  "sys_close kend =
    kbind (argfd 0) (\<lambda>a.
    case a of None \<Rightarrow> ret (- 1) | Some (fd, f) \<Rightarrow>
    kseq (set_fd fd None) (
    kseq (fileclose kend f) (
    ret 0)))"

text \<open>The fields of \<^verbatim>\<open>struct stat\<close> at their offsets; the padding between them is not written.\<close>

definition store_stat :: "uint \<Rightarrow> stat \<Rightarrow> ('a pst_scheme, unit) kmon" where
  "store_stat va st =
    kfor (\<lambda>(off, bs). user_store (va + off) bs)
      [(4, bytes32 (st_dev st)), (8, bytes32 (st_ino st)), (0, bytes16 (st_type st)), (12, bytes16 (st_nlink st)),
       (28, bytes32 (st_size st)), (16, bytes32 (st_uid st)), (20, bytes32 (st_gid st)), (24, bytes32 (st_mode st))]"

definition sys_fstat :: "('a fist_scheme, int) kmon" where
  "sys_fstat =
    kbind (argfd 0) (\<lambda>a.
    case a of None \<Rightarrow> ret (- 1) | Some (_, f) \<Rightarrow>
    kbind (argptr 1 STATSIZE) (\<lambda>po.
    case po of None \<Rightarrow> ret (- 1) | Some va \<Rightarrow>
    kbind (filestat f) (\<lambda>(r, sto).
    kseq (case sto of None \<Rightarrow> ret () | Some st \<Rightarrow> store_stat va st) (
    ret r))))"

section \<open>Names\<close>

definition nlink_add :: "nat \<Rightarrow> ushort \<Rightarrow> ('a ist_scheme, unit) kmon" where
  "nlink_add i d = kseq (set_inode i (\<lambda>ip. ip\<lparr>inlink := inlink ip + d\<rparr>)) (iupdate i)"

definition link_bad :: "nat \<Rightarrow> ('a ist_scheme, int) kmon" where
  "link_bad i =
    kseq (ilock i) (
    kseq (nlink_add i (- 1)) (
    kseq (iunlockput i) (
    kseq end_op (
    ret (- 1)))))"

definition link_to :: "'a ist_scheme devsw \<Rightarrow> nat \<Rightarrow> uchar list \<Rightarrow> ('a ist_scheme, int) kmon" where
  "link_to dv i new =
    kbind (nameiparent dv new) (\<lambda>dpo.
    case dpo of None \<Rightarrow> link_bad i | Some (dp, name) \<Rightarrow>
    kseq (ilock dp) (
    kbind (inode_of dp) (\<lambda>d.
    kbind (inode_of i) (\<lambda>ip.
    kbind (if idev d \<noteq> idev ip then ret (- 1) else dirlink dv dp name (inum ip)) (\<lambda>z.
    if z < 0 then kseq (iunlockput dp) (link_bad i)
    else
      kseq (iunlockput dp) (
      kseq (iput i) (
      kseq end_op (
      ret 0))))))))"

definition sys_link :: "'a fist_scheme devsw \<Rightarrow> ('a fist_scheme, int) kmon" where
  "sys_link dv =
    kbind (argstr 0) (\<lambda>oldo. case oldo of None \<Rightarrow> ret (- 1) | Some old \<Rightarrow>
    kbind (argstr 1) (\<lambda>newo. case newo of None \<Rightarrow> ret (- 1) | Some new \<Rightarrow>
    kseq begin_op (
    kbind (namei dv old) (\<lambda>io.
    case io of None \<Rightarrow> kseq end_op (ret (- 1)) | Some i \<Rightarrow>
    kseq (ilock i) (
    kbind (inode_of i) (\<lambda>ip.
    if itype ip = T_DIR then
      kseq (iunlockput i) (kseq end_op (ret (- 1)))
    else
      kseq (nlink_add i 1) (
      kseq (iunlock i) (
      link_to dv i new))))))))"

definition isdirempty :: "'a ist_scheme devsw \<Rightarrow> nat \<Rightarrow> ('a ist_scheme, bool) kmon" where
  "isdirempty dv dp =
    kbind (inode_of dp) (\<lambda>ip.
    kbind (kfind (\<lambda>off.
      kbind (readi dv dp (of_nat off) (of_nat DIRENT)) (\<lambda>(n, bs).
      if n \<noteq> int DIRENT then panic ''isdirempty: readi''
      else ret (if de_inum (dec_dirent bs) \<noteq> 0 then Some off else None))) (drop 2 (dir_offsets (isize ip)))) (\<lambda>r.
    ret (r = None)))"

definition unlink_bad :: "nat \<Rightarrow> ('a ist_scheme, int) kmon" where
  "unlink_bad dp = kseq (iunlockput dp) (kseq end_op (ret (- 1)))"

definition unlink_entry :: "'a ist_scheme devsw \<Rightarrow> nat \<Rightarrow> nat \<Rightarrow> nat \<Rightarrow> ('a ist_scheme, int) kmon" where
  "unlink_entry dv dp i off =
    kbind (writei dv dp (replicate DIRENT 0) (of_nat off)) (\<lambda>n.
    if n \<noteq> int DIRENT then panic ''unlink: writei''
    else
      kbind (inode_of i) (\<lambda>ip.
      kseq (kwhen (itype ip = T_DIR) (nlink_add dp (- 1))) (
      kseq (iunlockput dp) (
      kseq (nlink_add i (- 1)) (
      kseq (iunlockput i) (
      kseq end_op (
      ret 0)))))))"

definition sys_unlink :: "'a fist_scheme devsw \<Rightarrow> ('a fist_scheme, int) kmon" where
  "sys_unlink dv =
    kbind (argstr 0) (\<lambda>po. case po of None \<Rightarrow> ret (- 1) | Some path \<Rightarrow>
    kseq begin_op (
    kbind (nameiparent dv path) (\<lambda>dpo.
    case dpo of None \<Rightarrow> kseq end_op (ret (- 1)) | Some (dp, name) \<Rightarrow>
    kseq (ilock dp) (
    if namecmp name (str ''.'') = 0 \<or> namecmp name (str ''..'') = 0 then unlink_bad dp
    else
      kbind (dirlookup dv dp name) (\<lambda>eo.
      case eo of None \<Rightarrow> unlink_bad dp | Some (i, off) \<Rightarrow>
      kseq (ilock i) (
      kbind (inode_of i) (\<lambda>ip.
      if sint (inlink ip) < 1 then panic ''unlink: nlink < 1''
      else
        kbind (if itype ip = T_DIR then isdirempty dv i else ret True) (\<lambda>e.
        if \<not> e then kseq (iunlockput i) (unlink_bad dp)
        else unlink_entry dv dp i off))))))))"

definition create_new :: "'a ist_scheme devsw \<Rightarrow> nat \<Rightarrow> uchar list \<Rightarrow> ushort \<Rightarrow> ushort \<Rightarrow> ushort \<Rightarrow> ('a ist_scheme, nat) kmon" where
  "create_new dv dp name ty mj mn =
    kbind (inode_of dp) (\<lambda>d.
    kbind (ialloc (idev d) ty) (\<lambda>i.
    kseq (ilock i) (
    kseq (set_inode i (\<lambda>ip. ip\<lparr>imajor := mj, iminor := mn, inlink := 1\<rparr>)) (
    kseq (iupdate i) (
    kbind (inode_of i) (\<lambda>ip.
    kseq (kwhen (ty = T_DIR) (
      kseq (nlink_add dp 1) (
      kbind (dirlink dv i (str ''.'') (inum ip)) (\<lambda>z1.
      kbind (if z1 < 0 then ret z1 else dirlink dv i (str ''..'') (inum d)) (\<lambda>z2.
      if z2 < 0 then panic ''create dots'' else ret ()))))) (
    kbind (dirlink dv dp name (inum ip)) (\<lambda>z.
    if z < 0 then panic ''create: dirlink''
    else
      kseq (iunlockput dp) (
      ret i)))))))))"

definition create :: "'a ist_scheme devsw \<Rightarrow> uchar list \<Rightarrow> ushort \<Rightarrow> ushort \<Rightarrow> ushort \<Rightarrow> ('a ist_scheme, nat option) kmon" where
  "create dv path ty mj mn =
    kbind (nameiparent dv path) (\<lambda>dpo.
    case dpo of None \<Rightarrow> ret None | Some (dp, name) \<Rightarrow>
    kseq (ilock dp) (
    kbind (dirlookup dv dp name) (\<lambda>eo.
    case eo of
      Some (i, _) \<Rightarrow>
        kseq (iunlockput dp) (
        kseq (ilock i) (
        kbind (inode_of i) (\<lambda>ip.
        if ty = T_FILE \<and> itype ip = T_FILE then ret (Some i)
        else kseq (iunlockput i) (ret None))))
    | None \<Rightarrow> kbind (create_new dv dp name ty mj mn) (\<lambda>i. ret (Some i)))))"

section \<open>Opening\<close>

definition open_inode :: "'a ist_scheme devsw \<Rightarrow> uchar list \<Rightarrow> uint \<Rightarrow> ('a ist_scheme, nat option) kmon" where
  "open_inode dv path omode =
    (if omode AND OM_CREATE \<noteq> 0 then create dv path T_FILE 0 0
     else
      kbind (namei dv path) (\<lambda>io.
      case io of None \<Rightarrow> ret None | Some i \<Rightarrow>
      kseq (ilock i) (
      kbind (inode_of i) (\<lambda>ip.
      if itype ip = T_DIR \<and> omode \<noteq> 0 then kseq (iunlockput i) (ret None)
      else ret (Some i)))))"

definition open_file :: "nat \<Rightarrow> nat \<Rightarrow> uint \<Rightarrow> ('a fist_scheme, unit) kmon" where
  "open_file f i omode =
    set_file f (\<lambda>r. r\<lparr>ftype := FD_INODE, fip := i, foff := 0, readable := (omode AND OM_WRONLY = 0),
      writable := (omode AND OM_WRONLY \<noteq> 0 \<or> omode AND OM_RDWR \<noteq> 0)\<rparr>)"

definition sys_open :: "uint \<Rightarrow> 'a fist_scheme devsw \<Rightarrow> ('a fist_scheme, int) kmon" where
  "sys_open kend dv =
    kbind (argstr 0) (\<lambda>po. case po of None \<Rightarrow> ret (- 1) | Some path \<Rightarrow>
    kbind (argint 1) (\<lambda>mo. case mo of None \<Rightarrow> ret (- 1) | Some omode \<Rightarrow>
    kseq begin_op (
    kbind (open_inode dv path omode) (\<lambda>io.
    case io of None \<Rightarrow> kseq end_op (ret (- 1)) | Some i \<Rightarrow>
    kbind filealloc (\<lambda>fo.
    case fo of
      None \<Rightarrow> kseq (iunlockput i) (kseq end_op (ret (- 1)))
    | Some f \<Rightarrow>
        kbind (fdalloc f) (\<lambda>fdo.
        case fdo of
          None \<Rightarrow> kseq (fileclose kend f) (kseq (iunlockput i) (kseq end_op (ret (- 1))))
        | Some fd \<Rightarrow>
            kseq (iunlock i) (
            kseq end_op (
            kseq (open_file f i omode) (
            ret (int fd))))))))))"

definition create_call :: "'a fist_scheme devsw \<Rightarrow> uchar list \<Rightarrow> ushort \<Rightarrow> ushort \<Rightarrow> ushort \<Rightarrow> ('a fist_scheme, int) kmon" where
  "create_call dv path ty mj mn =
    kbind (create dv path ty mj mn) (\<lambda>io.
    case io of
      None \<Rightarrow> kseq end_op (ret (- 1))
    | Some i \<Rightarrow> kseq (iunlockput i) (kseq end_op (ret 0)))"

definition sys_mkdir :: "'a fist_scheme devsw \<Rightarrow> ('a fist_scheme, int) kmon" where
  "sys_mkdir dv =
    kseq begin_op (
    kbind (argstr 0) (\<lambda>po. case po of
      None \<Rightarrow> kseq end_op (ret (- 1))
    | Some path \<Rightarrow> create_call dv path T_DIR 0 0))"

definition sys_mknod :: "'a fist_scheme devsw \<Rightarrow> ('a fist_scheme, int) kmon" where
  "sys_mknod dv =
    kseq begin_op (
    kbind (argstr 0) (\<lambda>po. case po of None \<Rightarrow> kseq end_op (ret (- 1)) | Some path \<Rightarrow>
    kbind (argint 1) (\<lambda>mjo. case mjo of None \<Rightarrow> kseq end_op (ret (- 1)) | Some mj \<Rightarrow>
    kbind (argint 2) (\<lambda>mno. case mno of None \<Rightarrow> kseq end_op (ret (- 1)) | Some mn \<Rightarrow>
    create_call dv path T_DEV (ucast mj) (ucast mn)))))"

definition sys_chdir :: "'a fist_scheme devsw \<Rightarrow> ('a fist_scheme, int) kmon" where
  "sys_chdir dv =
    kseq begin_op (
    kbind (argstr 0) (\<lambda>po. case po of None \<Rightarrow> kseq end_op (ret (- 1)) | Some path \<Rightarrow>
    kbind (namei dv path) (\<lambda>io. case io of None \<Rightarrow> kseq end_op (ret (- 1)) | Some i \<Rightarrow>
    kseq (ilock i) (
    kbind (inode_of i) (\<lambda>ip.
    if itype ip \<noteq> T_DIR then kseq (iunlockput i) (kseq end_op (ret (- 1)))
    else
      kseq (iunlock i) (
      kbind the_proc (\<lambda>p.
      kbind (gets (\<lambda>s. cwd (procs s p))) (\<lambda>d.
      kseq (case d of None \<Rightarrow> stop (Undef ''null pointer'') | Some j \<Rightarrow> iput j) (
      kseq end_op (
      kseq (set_proc p (\<lambda>r. r\<lparr>cwd := Some i\<rparr>)) (
      ret 0)))))))))))"

fun fetch_argv :: "nat \<Rightarrow> uint \<Rightarrow> ('a pst_scheme, uchar list list option) kmon" where
  "fetch_argv 0 uargv = ret None"
| "fetch_argv (Suc n) uargv =
    kbind (fetchint uargv) (\<lambda>ao. case ao of None \<Rightarrow> ret None | Some uarg \<Rightarrow>
    if uarg = 0 then ret (Some [])
    else
      kbind (fetchstr uarg) (\<lambda>so. case so of None \<Rightarrow> ret None | Some a \<Rightarrow>
      kbind (fetch_argv n (uargv + 4)) (\<lambda>r. ret (map_option ((#) a) r))))"

definition sys_exec :: "uint \<Rightarrow> uint \<Rightarrow> 'a fist_scheme devsw \<Rightarrow> ('a fist_scheme, int) kmon" where
  "sys_exec kend kdata dv =
    kbind (argstr 0) (\<lambda>po. case po of None \<Rightarrow> ret (- 1) | Some path \<Rightarrow>
    kbind (argint 1) (\<lambda>uo. case uo of None \<Rightarrow> ret (- 1) | Some uargv \<Rightarrow>
    kbind (fetch_argv MAXARG uargv) (\<lambda>ao. case ao of None \<Rightarrow> ret (- 1) | Some argv \<Rightarrow>
    exec kend kdata dv path argv)))"

definition pipe_bad :: "uint \<Rightarrow> nat \<Rightarrow> nat \<Rightarrow> ('a fist_scheme, int) kmon" where
  "pipe_bad kend rfile wfile = kseq (fileclose kend rfile) (kseq (fileclose kend wfile) (ret (- 1)))"

definition sys_pipe :: "uint \<Rightarrow> ('a fist_scheme, int) kmon" where
  "sys_pipe kend =
    kbind (argptr 0 8) (\<lambda>vo. case vo of None \<Rightarrow> ret (- 1) | Some va \<Rightarrow>
    kbind (pipealloc kend) (\<lambda>po. case po of None \<Rightarrow> ret (- 1) | Some (rfile, wfile) \<Rightarrow>
    kbind (fdalloc rfile) (\<lambda>fo0. case fo0 of None \<Rightarrow> pipe_bad kend rfile wfile | Some fd0 \<Rightarrow>
    kbind (fdalloc wfile) (\<lambda>fo1. case fo1 of
      None \<Rightarrow> kseq (set_fd fd0 None) (pipe_bad kend rfile wfile)
    | Some fd1 \<Rightarrow>
        kseq (user_store va (bytes32 (of_nat fd0))) (
        kseq (user_store (va + 4) (bytes32 (of_nat fd1))) (
        ret 0))))))"

definition sys_chown :: "'a fist_scheme devsw \<Rightarrow> ('a fist_scheme, int) kmon" where
  "sys_chown dv =
    kbind (argstr 0) (\<lambda>po. case po of None \<Rightarrow> ret (- 1) | Some path \<Rightarrow>
    kbind (argint 1) (\<lambda>oo. case oo of None \<Rightarrow> ret (- 2) | Some owner \<Rightarrow>
    if sint owner < 0 \<or> sint owner > 32767 then ret (- 2)
    else
      kbind (argint 1) (\<lambda>go. case go of None \<Rightarrow> ret (- 3) | Some grp \<Rightarrow>
      if sint grp < 0 \<or> sint grp > 32767 then ret (- 3)
      else chown dv path (sint owner) (sint grp))))"

end
