(* ===== verification/Console.thy ===== *)
theory Console
  imports Proc
begin

text \<open>
  \<^verbatim>\<open>console.c\<close>, \<^verbatim>\<open>kbd.c\<close> and \<^verbatim>\<open>kbd.h\<close>: the text screen, the input line discipline and the decoding of scan
  codes. The state has the CGA memory and cursor, the bytes given to the serial port, the circular
  input buffer with its read, write and edit indices, and the modifier keys of the keyboard driver.

  The interrupt handler gets the characters its \<^verbatim>\<open>getc\<close> argument returns before it returns a negative
  value as a list; a keyboard interrupt gets the scan codes waiting in the controller.
\<close>

definition INPUT_BUF :: nat where [layout]: "INPUT_BUF = 128"
definition BACKSPACE :: int where [layout]: "BACKSPACE = 0x100"
definition CONSOLE :: nat where [layout]: "CONSOLE = 1"

record cist = fist +
  locking :: bool
  crt :: "nat \<Rightarrow> ushort"
  crtpos :: int
  serial :: "int list"
  inbuf :: "uchar list"
  in_r :: uint
  in_w :: uint
  in_e :: uint
  kshift :: uint

section \<open>The screen\<close>

text \<open>The cell updates of \<open>cgaputc\<close> before it scrolls, and the scroll by one line.\<close>

definition cga_advance :: "int \<Rightarrow> (nat \<Rightarrow> ushort) \<times> int \<Rightarrow> (nat \<Rightarrow> ushort) \<times> int" where
  "cga_advance c = (\<lambda>(m, pos).
    if c = 10 then (m, pos + (80 - pos mod 80))
    else if c = BACKSPACE then (m, if pos > 0 then pos - 1 else pos)
    else (m(nat pos := of_int (c mod 256) OR 0x0700), pos + 1))"

definition cga_scroll :: "(nat \<Rightarrow> ushort) \<times> int \<Rightarrow> (nat \<Rightarrow> ushort) \<times> int" where
  "cga_scroll = (\<lambda>(m, pos).
    if pos div 80 \<ge> 24 then
      let m' = (\<lambda>i. if i < 23 * 80 then m (i + 80) else m i); pos' = pos - 80 in
      (\<lambda>i. if nat pos' \<le> i \<and> i < 24 * 80 then 0 else m' i, pos')
    else (m, pos))"

definition cgaputc :: "int \<Rightarrow> ('a cist_scheme, unit) kmon" where
  "cgaputc c =
    kbind (gets (\<lambda>s. cga_advance c (crt s, crtpos s))) (\<lambda>(m, pos).
    if pos < 0 \<or> pos > 25 * 80 then panic ''pos under/overflow''
    else
      let (m', pos') = cga_scroll (m, pos) in
      modify (\<lambda>s. s\<lparr>crt := m'(nat pos' := 0x0720), crtpos := pos'\<rparr>))"

definition uartputc :: "int \<Rightarrow> ('a cist_scheme, unit) kmon" where
  "uartputc c = modify (\<lambda>s. s\<lparr>serial := serial s @ [c]\<rparr>)"

definition consputc :: "int \<Rightarrow> ('a cist_scheme, unit) kmon" where
  "consputc c =
    kseq (if c = BACKSPACE then kseq (uartputc 8) (kseq (uartputc 32) (uartputc 8)) else uartputc c) (
    cgaputc c)"

section \<open>Input\<close>

definition in_at :: "uint \<Rightarrow> 'a cist_scheme \<Rightarrow> uchar" where
  "in_at i s = inbuf s ! (unat i mod INPUT_BUF)"

definition erase :: "('a cist_scheme, unit) kmon" where
  "erase = kseq (modify (\<lambda>s. s\<lparr>in_e := in_e s - 1\<rparr>)) (consputc BACKSPACE)"

text \<open>The loop of control-U goes back at most to \<^verbatim>\<open>input.w\<close>.\<close>

fun kill_line :: "nat \<Rightarrow> ('a cist_scheme, unit) kmon" where
  "kill_line 0 = ret ()"
| "kill_line (Suc n) =
    kbind (gets (\<lambda>s. in_e s \<noteq> in_w s \<and> in_at (in_e s - 1) s \<noteq> 10)) (\<lambda>go.
    kwhen go (kseq erase (kill_line n)))"

definition input_char :: "int \<Rightarrow> ('a cist_scheme, unit) kmon" where
  "input_char c =
    kbind (gets (\<lambda>s. c \<noteq> 0 \<and> in_e s - in_r s < of_nat INPUT_BUF)) (\<lambda>ok.
    kwhen ok (
      let c = (if c = 13 then 10 else c) in
      kseq (modify (\<lambda>s. s\<lparr>inbuf := (inbuf s)[unat (in_e s) mod INPUT_BUF := of_int c], in_e := in_e s + 1\<rparr>)) (
      kseq (consputc c) (
      kbind (gets (\<lambda>s. c = 10 \<or> c = 4 \<or> in_e s = in_r s + of_nat INPUT_BUF)) (\<lambda>eol.
      kwhen eol (
        kseq (modify (\<lambda>s. s\<lparr>in_w := in_e s\<rparr>)) (
        wakeup ChInput)))))))"

definition intr_char :: "int \<Rightarrow> ('a cist_scheme, unit) kmon" where
  "intr_char c =
    (if c \<in> {16, 18, 6, 19, 26} then ret ()
     else if c = 21 then kbind (gets (\<lambda>s. unat (in_e s - in_w s))) kill_line
     else if c = 8 \<or> c = 127 then kbind (gets (\<lambda>s. in_e s \<noteq> in_w s)) (\<lambda>b. kwhen b erase)
     else input_char c)"

text \<open>The list to print after the loop: the last of the control keys R, F, S, Z.\<close>

definition ctrlkey :: "int list \<Rightarrow> nat" where
  "ctrlkey cs = fold (\<lambda>c k. if c = 18 then 1 else if c = 6 then 2 else if c = 19 then 3 else if c = 26 then 4 else k) cs 0"

definition intr_loop :: "int list \<Rightarrow> ('a cist_scheme, unit) kmon" where
  "intr_loop cs = kseq (acquire ConsLock) (kseq (kfor intr_char cs) (release ConsLock))"

definition consoleintr :: "(nat \<Rightarrow> uint) \<Rightarrow> int list \<Rightarrow> ('a cist_scheme, unit) kmon" where
  "consoleintr ebp cs =
    kseq (intr_loop cs) (
    kseq (kwhen (16 \<in> set cs) (procdump ebp)) (
    if ctrlkey cs = 1 then printReadyList
    else if ctrlkey cs = 2 then printFreeList
    else if ctrlkey cs = 3 then printSleepList
    else if ctrlkey cs = 4 then printZombieList
    else ret ()))"

text \<open>
  The copy loop of \<open>consoleread\<close>: it is done, the process was killed, or it must sleep; each with the
  bytes stored so far.
\<close>

datatype conres = ConDone "uchar list" | ConKilled "uchar list" | ConBlocked "uchar list"

fun con_cons :: "uchar \<Rightarrow> conres \<Rightarrow> conres" where
  "con_cons c (ConDone cs) = ConDone (c # cs)"
| "con_cons c (ConKilled cs) = ConKilled (c # cs)"
| "con_cons c (ConBlocked cs) = ConBlocked (c # cs)"

definition con_killed :: "('a pst_scheme, bool) kmon" where
  "con_killed = kbind the_proc (\<lambda>p. gets (\<lambda>s. killed (procs s p)))"

fun consoleread_loop :: "nat \<Rightarrow> nat \<Rightarrow> ('a cist_scheme, conres) kmon" where
  "consoleread_loop target 0 = ret (ConDone [])"
| "consoleread_loop target (Suc n) =
    kbind (gets (\<lambda>s. in_r s = in_w s)) (\<lambda>empty.
    if empty then kbind con_killed (\<lambda>k. ret (if k then ConKilled [] else ConBlocked []))
    else
      kbind (gets (\<lambda>s. in_at (in_r s) s)) (\<lambda>c.
      kseq (modify (\<lambda>s. s\<lparr>in_r := in_r s + 1\<rparr>)) (
      if c = 4 then
        kseq (kwhen (Suc n < target) (modify (\<lambda>s. s\<lparr>in_r := in_r s - 1\<rparr>))) (ret (ConDone []))
      else if c = 10 then ret (ConDone [c])
      else kbind (consoleread_loop target n) (\<lambda>r. ret (con_cons c r)))))"

definition consoleread :: "nat \<Rightarrow> int \<Rightarrow> ('a cist_scheme, int \<times> uchar list) kmon" where
  "consoleread i n =
    kseq (iunlock i) (
    kseq (acquire ConsLock) (
    kbind (consoleread_loop (nat n) (nat n)) (\<lambda>r.
    case r of
      ConKilled bs \<Rightarrow> kseq (release ConsLock) (kseq (ilock i) (ret (- 1, bs)))
    | ConBlocked bs \<Rightarrow> sleep ChInput ConsLock
    | ConDone bs \<Rightarrow> kseq (release ConsLock) (kseq (ilock i) (ret (int (length bs), bs))))))"

definition consolewrite :: "nat \<Rightarrow> uchar list \<Rightarrow> ('a cist_scheme, int) kmon" where
  "consolewrite i src =
    kseq (iunlock i) (
    kseq (acquire ConsLock) (
    kseq (kfor (\<lambda>c. consputc (uint c)) src) (
    kseq (release ConsLock) (
    kseq (ilock i) (
    ret (int (length src)))))))"

definition cons_devsw :: "'a cist_scheme devsw" where
  "cons_devsw = (\<lambda>mj. if mj = CONSOLE then \<lparr>dread = Some consoleread, dwrite = Some consolewrite\<rparr>
    else \<lparr>dread = None, dwrite = None\<rparr>)"

definition consoleinit :: "('a cist_scheme, unit) kmon" where
  "consoleinit = kseq (initlock ConsLock) (modify (\<lambda>s. s\<lparr>locking := True\<rparr>))"

section \<open>The keyboard\<close>

definition keytable :: "uchar list \<Rightarrow> (uchar \<times> uchar) list \<Rightarrow> uchar \<Rightarrow> uchar" where
  "keytable row extra k =
    (if unat k < length row then row ! unat k else case map_of extra k of None \<Rightarrow> 0 | Some v \<Rightarrow> v)"

definition shiftcode :: "uchar \<Rightarrow> uchar" where
  "shiftcode = keytable [] [(0x1D, 2), (0x2A, 1), (0x36, 1), (0x38, 4), (0x9D, 2), (0xB8, 4)]"

definition togglecode :: "uchar \<Rightarrow> uchar" where
  "togglecode = keytable [] [(0x3A, 8), (0x45, 16), (0x46, 32)]"

definition keypad :: "(uchar \<times> uchar) list" where
  "keypad = [(0xC8, 226), (0xD0, 227), (0xC9, 230), (0xD1, 231), (0xCB, 228), (0xCD, 229), (0x97, 224), (0xCF, 225),
    (0xD2, 232), (0xD3, 233)]"

definition normalmap :: "uchar \<Rightarrow> uchar" where
  "normalmap = keytable
    [0, 27, 49, 50, 51, 52, 53, 54, 55, 56, 57, 48, 45, 61, 8, 9,
     113, 119, 101, 114, 116, 121, 117, 105, 111, 112, 91, 93, 10, 0, 97, 115,
     100, 102, 103, 104, 106, 107, 108, 59, 39, 96, 0, 92, 122, 120, 99, 118,
     98, 110, 109, 44, 46, 47, 0, 42, 0, 32, 0, 0, 0, 0, 0, 0,
     0, 0, 0, 0, 0, 0, 0, 55, 56, 57, 45, 52, 53, 54, 43, 49,
     50, 51, 48, 46]
    ([(0x9C, 10), (0xB5, 47)] @ keypad)"

definition shiftmap :: "uchar \<Rightarrow> uchar" where
  "shiftmap = keytable
    [0, 27, 33, 64, 35, 36, 37, 94, 38, 42, 40, 41, 95, 43, 8, 9,
     81, 87, 69, 82, 84, 89, 85, 73, 79, 80, 123, 125, 10, 0, 65, 83,
     68, 70, 71, 72, 74, 75, 76, 58, 34, 126, 0, 124, 90, 88, 67, 86,
     66, 78, 77, 60, 62, 63, 0, 42, 0, 32, 0, 0, 0, 0, 0, 0,
     0, 0, 0, 0, 0, 0, 0, 55, 56, 57, 45, 52, 53, 54, 43, 49,
     50, 51, 48, 46]
    ([(0x9C, 10), (0xB5, 47)] @ keypad)"

definition ctlmap :: "uchar \<Rightarrow> uchar" where
  "ctlmap = keytable
    [0, 0, 0, 0, 0, 0, 0, 0, 0, 0, 0, 0, 0, 0, 0, 0,
     17, 23, 5, 18, 20, 25, 21, 9, 15, 16, 0, 0, 13, 0, 1, 19,
     4, 6, 7, 8, 10, 11, 12, 0, 0, 0, 0, 28, 26, 24, 3, 22,
     2, 14, 13, 0, 0, 239, 0, 0]
    ([(0x9C, 13), (0xB5, 239)] @ keypad)"

definition KSHIFT :: uint where [layout]: "KSHIFT = 1"
definition KCTL :: uint where [layout]: "KCTL = 2"
definition KCAPSLOCK :: uint where [layout]: "KCAPSLOCK = 8"
definition E0ESC :: uint where [layout]: "E0ESC = 64"

definition charcode :: "uint \<Rightarrow> uchar \<Rightarrow> uchar" where
  "charcode k = (if k = 0 then normalmap else if k = 1 then shiftmap else ctlmap)"

definition recase :: "uchar \<Rightarrow> uchar" where
  "recase c = (if 97 \<le> c \<and> c \<le> 122 then c - 32 else if 65 \<le> c \<and> c \<le> 90 then c + 32 else c)"

text \<open>One scan code: the character, zero for none, and the new modifier state.\<close>

definition kbdgetc :: "uint \<Rightarrow> uchar \<Rightarrow> uchar \<times> uint" where
  "kbdgetc shift data =
    (if data = 0xE0 then (0, shift OR E0ESC)
     else if data AND 0x80 \<noteq> 0 then
       let data = (if shift AND E0ESC \<noteq> 0 then data else data AND 0x7F) in
       (0, shift AND NOT (ucast (shiftcode data) OR E0ESC))
     else
       let (data, shift) = (if shift AND E0ESC \<noteq> 0 then (data OR 0x80, shift AND NOT E0ESC) else (data, shift));
         shift = (shift OR ucast (shiftcode data)) XOR ucast (togglecode data);
         c = charcode (shift AND (KCTL OR KSHIFT)) data in
       (if shift AND KCAPSLOCK \<noteq> 0 then recase c else c, shift))"

fun kbd_chars :: "uint \<Rightarrow> uchar list \<Rightarrow> uchar list \<times> uint" where
  "kbd_chars sh [] = ([], sh)"
| "kbd_chars sh (d # ds) = (let (c, sh') = kbdgetc sh d; (cs, sh'') = kbd_chars sh' ds in (c # cs, sh''))"

definition kbdintr :: "(nat \<Rightarrow> uint) \<Rightarrow> uchar list \<Rightarrow> ('a cist_scheme, unit) kmon" where
  "kbdintr ebp codes =
    kbind (gets (\<lambda>s. kbd_chars (kshift s) codes)) (\<lambda>(cs, sh).
    kseq (modify (\<lambda>s. s\<lparr>kshift := sh\<rparr>)) (
    consoleintr ebp (map uint cs)))"

section \<open>The screen stays in bounds\<close>

lemma put_kern_cist [simp]:
  "crt (put_kern k s) = crt s" "crtpos (put_kern k s) = crtpos s" "serial (put_kern k s) = serial s"
  "inbuf (put_kern k s) = inbuf s" "in_r (put_kern k s) = in_r s" "in_w (put_kern k s) = in_w s"
  "in_e (put_kern k s) = in_e s"
  by (simp_all add: put_kern_def)

definition screen_ok :: "'a cist_scheme \<Rightarrow> bool" where
  "screen_ok s \<longleftrightarrow> 0 \<le> crtpos s \<and> crtpos s < 24 * 80"

text \<open>\<open>out m p x s\<close> is \<open>s\<close> with another screen and more serial output.\<close>

definition out :: "(nat \<Rightarrow> ushort) \<Rightarrow> int \<Rightarrow> int list \<Rightarrow> 'a cist_scheme \<Rightarrow> 'a cist_scheme" where
  "out m p x s = s\<lparr>crt := m, crtpos := p, serial := x\<rparr>"

lemma out_sel [simp]:
  "crt (out m p x s) = m" "crtpos (out m p x s) = p" "serial (out m p x s) = x" "out m p x (out m' p' x' s) = out m p x s"
  "inbuf (out m p x s) = inbuf s" "in_r (out m p x s) = in_r s" "in_w (out m p x s) = in_w s" "in_e (out m p x s) = in_e s"
  "put_kern k (out m p x s) = out m p x (put_kern k s)" "in_e_update f (out m p x s) = out m p x (in_e_update f s)"
  "in_w_update g (out m p x s) = out m p x (in_w_update g s)" "in_r_update h (out m p x s) = out m p x (in_r_update h s)"
  "kern_ok H (out m p x s) = kern_ok H s" "procs (out m p x s) = procs s" "me (out m p x s) = me s"
  "icache (out m p x s) = icache s"
  by (simp_all add: out_def put_kern_def kern_frame me_def)

lemma cga_scroll_pos:
  assumes "0 \<le> p" "p \<le> 24 * 80"
  shows "0 \<le> snd (cga_scroll (m, p)) \<and> snd (cga_scroll (m, p)) < 24 * 80"
  using assms by (auto simp: cga_scroll_def Let_def)

lemma cga_scroll_frame:
  assumes "0 \<le> p" "24 * 80 \<le> i"
  shows "fst (cga_scroll (m, p)) i = m i"
  using assms by (auto simp: cga_scroll_def Let_def)

lemma cga_advance_pos:
  assumes "0 \<le> p" "p < 24 * 80"
  shows "0 \<le> snd (cga_advance c (m, p)) \<and> snd (cga_advance c (m, p)) \<le> 24 * 80"
proof -
  have "p + (80 - p mod 80) = (p div 80 + 1) * 80" by (simp add: algebra_simps)
  moreover have "p div 80 < 24" using assms by auto
  ultimately show ?thesis using assms by (auto simp: cga_advance_def)
qed

lemma cga_advance_frame:
  assumes "0 \<le> p" "p < 24 * 80" "24 * 80 \<le> i"
  shows "fst (cga_advance c (m, p)) i = m i"
  using assms by (auto simp: cga_advance_def)

lemma wp_cgaputc:
  assumes "screen_ok s" and Q: "\<And>m p. 0 \<le> p \<Longrightarrow> p < 24 * 80 \<Longrightarrow> (\<And>i. 24 * 80 \<le> i \<Longrightarrow> m i = crt s i) \<Longrightarrow>
    Q () (out m p (serial s) s)"
  shows "wp (cgaputc c) Q s"
proof -
  obtain m p where a: "cga_advance c (crt s, crtpos s) = (m, p)" by fastforce
  obtain m' p' where b: "cga_scroll (m, p) = (m', p')" by fastforce
  have p: "0 \<le> p" "p \<le> 24 * 80" using cga_advance_pos[of "crtpos s" c "crt s"] assms(1) a by (auto simp: screen_ok_def)
  have p': "0 \<le> p'" "p' < 24 * 80" using cga_scroll_pos[of p m] p b by auto
  have "(m'(nat p' := 0x0720)) i = crt s i" if "24 * 80 \<le> i" for i
    using that p' cga_scroll_frame[of p i m] cga_advance_frame[of "crtpos s" i c "crt s"] assms(1) p a b
    by (auto simp: screen_ok_def)
  then have "Q () (out (m'(nat p' := 0x0720)) p' (serial s) s)" using p' by (intro Q) auto
  then show ?thesis using p by (simp add: cgaputc_def wp_simps a b out_def)
qed

lemma wp_consputc:
  assumes "screen_ok s" and Q: "\<And>m p x. 0 \<le> p \<Longrightarrow> p < 24 * 80 \<Longrightarrow> (\<And>i. 24 * 80 \<le> i \<Longrightarrow> m i = crt s i) \<Longrightarrow>
    Q () (out m p x s)"
  shows "wp (consputc c) Q s"
proof -
  have cg: "wp (cgaputc c) Q (s\<lparr>serial := x\<rparr>)" for x
  proof (rule wp_cgaputc)
    show "screen_ok (s\<lparr>serial := x\<rparr>)" using assms(1) by (simp add: screen_ok_def)
    fix m and p :: int
    assume "0 \<le> p" "p < 24 * 80" "\<And>i. 24 * 80 \<le> i \<Longrightarrow> m i = crt (s\<lparr>serial := x\<rparr>) i"
    then have "Q () (out m p x s)" by (intro Q) auto
    then show "Q () (out m p (serial (s\<lparr>serial := x\<rparr>)) (s\<lparr>serial := x\<rparr>))" by (simp add: out_def)
  qed
  show ?thesis using cg by (auto simp: consputc_def uartputc_def wp_simps)
qed

lemma wp_consputcs:
  assumes "screen_ok s"
  shows "wp (kfor consputc cs) (\<lambda>_ t. screen_ok t \<and> (\<exists>m p x. t = out m p x s \<and> (\<forall>i \<ge> 24 * 80. m i = crt s i))) s"
  using assms
proof (induction cs arbitrary: s)
  case Nil
  have "s = out (crt s) (crtpos s) (serial s) s" by (simp add: out_def)
  then show ?case using Nil by (auto simp: wp_simps)
next
  case (Cons c cs)
  have "wp (consputc c) (\<lambda>_. wp (kfor consputc cs) (\<lambda>_ t. screen_ok t \<and>
    (\<exists>m p x. t = out m p x s \<and> (\<forall>i \<ge> 24 * 80. m i = crt s i)))) s"
  proof (rule wp_consputc[OF Cons.prems])
    fix m x and p :: int
    assume a: "0 \<le> p" "p < 24 * 80" "\<And>i. 24 * 80 \<le> i \<Longrightarrow> m i = crt s i"
    have "screen_ok (out m p x s)" using a by (simp add: screen_ok_def)
    from Cons.IH[OF this] show "wp (kfor consputc cs) (\<lambda>_ t. screen_ok t \<and>
      (\<exists>m p x. t = out m p x s \<and> (\<forall>i \<ge> 24 * 80. m i = crt s i))) (out m p x s)"
      by (rule wp_mono) (use a in auto)
  qed
  then show ?case by (simp add: wp_kbind)
qed

section \<open>The line discipline\<close>

interpretation iring: ring INPUT_BUF
  by unfold_locales (simp_all add: layout)

text \<open>
  The input buffer holds the committed input, which readers see, and the line being edited. The specification
  works on this pair of byte lists.
\<close>

definition committed :: "'a cist_scheme \<Rightarrow> uchar list" where
  "committed s = ring_q INPUT_BUF (inbuf s) (in_r s) (in_w s)"

definition edited :: "'a cist_scheme \<Rightarrow> uchar list" where
  "edited s = ring_q INPUT_BUF (inbuf s) (in_w s) (in_e s)"

definition input_ok :: "'a cist_scheme \<Rightarrow> bool" where
  "input_ok s \<longleftrightarrow> length (inbuf s) = INPUT_BUF \<and> unat (in_w s - in_r s) + unat (in_e s - in_w s) \<le> INPUT_BUF \<and>
    10 \<notin> set (edited s)"

definition spec_char :: "int \<Rightarrow> uchar list \<times> uchar list \<Rightarrow> uchar list \<times> uchar list" where
  "spec_char c = (\<lambda>(com, ed).
    if c \<in> {16, 18, 6, 19, 26} then (com, ed)
    else if c = 21 then (com, [])
    else if c = 8 \<or> c = 127 then (com, butlast ed)
    else if c = 0 \<or> length com + length ed \<ge> INPUT_BUF then (com, ed)
    else
      let b = of_int (if c = 13 then 10 else c); ed' = ed @ [b] in
      if c = 13 \<or> c = 10 \<or> c = 4 \<or> length com + length ed' = INPUT_BUF then (com @ ed', []) else (com, ed'))"

lemma input_frame [simp]:
  "committed (put_kern k s) = committed s" "edited (put_kern k s) = edited s" "input_ok (put_kern k s) = input_ok s"
  "committed (out m p x s) = committed s" "edited (out m p x s) = edited s" "input_ok (out m p x s) = input_ok s"
  "screen_ok (put_kern k s) = screen_ok s" "kern_ok H (in_e_update f s) = kern_ok H s"
  "kern_ok H (in_w_update f s) = kern_ok H s" "kern_ok H (inbuf_update g s) = kern_ok H s" "kern_ok H (in_r_update f s) = kern_ok H s"
  "screen_ok (in_e_update f s) = screen_ok s" "screen_ok (inbuf_update g s) = screen_ok s"
  "screen_ok (in_w_update f s) = screen_ok s" "screen_ok (in_r_update f s) = screen_ok s"
  "screen_ok (out m p x s) \<longleftrightarrow> 0 \<le> p \<and> p < 24 * 80"
  by (simp_all add: committed_def edited_def input_ok_def screen_ok_def kern_frame)

text \<open>What the input code leaves alone.\<close>

definition con_frame :: "'a cist_scheme \<Rightarrow> 'a cist_scheme \<Rightarrow> bool" where
  "con_frame s t \<longleftrightarrow> icache t = icache s \<and> me t = me s \<and> (\<forall>p. killed (procs t p) = killed (procs s p))"

lemma con_frame_simps [simp]:
  "con_frame s s" "con_frame s (out m p x t) = con_frame s t" "con_frame s (put_kern k t) = con_frame s t"
  "con_frame s (in_e_update f t) = con_frame s t" "con_frame s (in_w_update f t) = con_frame s t"
  "con_frame s (inbuf_update g t) = con_frame s t" "con_frame s (in_r_update f t) = con_frame s t"
  by (simp_all add: con_frame_def) (simp_all add: me_def)

lemma con_frame_trans: "con_frame s t \<Longrightarrow> con_frame t u \<Longrightarrow> con_frame s u"
  by (simp add: con_frame_def)

definition con_step :: "uchar list \<times> uchar list \<Rightarrow> 'a cist_scheme \<Rightarrow> 'a cist_scheme \<Rightarrow> bool" where
  "con_step ce s t \<longleftrightarrow> input_ok t \<and> screen_ok t \<and> kern_ok {ConsLock} t \<and> (committed t, edited t) = ce \<and> con_frame s t"

lemma erase_edit:
  assumes "input_ok s" "in_e s \<noteq> in_w s"
  defines "t \<equiv> s\<lparr>in_e := in_e s - 1\<rparr>"
  shows "input_ok t" "committed t = committed s" "edited t = butlast (edited s)"
proof -
  have b: "edited t = butlast (edited s)" "unat (in_e t - in_w t) = unat (in_e s - in_w s) - 1"
    using ring_q_butlast(1,3)[of "in_w s" "in_e s"] assms(2) by (auto simp: edited_def t_def)
  show "edited t = butlast (edited s)" "committed t = committed s" using b by (simp_all add: committed_def t_def)
  have "set (butlast (edited s)) \<subseteq> set (edited s)" by (auto dest: in_set_butlastD)
  then show "input_ok t" using assms(1) b unfolding input_ok_def by (auto simp: t_def)
qed

lemma wp_erase:
  assumes "input_ok s" "screen_ok s" "kern_ok {ConsLock} s" "in_e s \<noteq> in_w s"
    and Q: "\<And>t. con_step (committed s, butlast (edited s)) s t \<Longrightarrow> in_w t = in_w s \<Longrightarrow> in_e t = in_e s - 1 \<Longrightarrow> Q () t"
  shows "wp erase Q s"
proof -
  note e = erase_edit[OF assms(1,4)]
  have "wp (consputc BACKSPACE) Q (s\<lparr>in_e := in_e s - 1\<rparr>)"
    by (rule wp_consputc) (use assms(2,3) e in \<open>auto simp: con_step_def intro!: Q\<close>)
  then show ?thesis by (simp add: erase_def wp_simps)
qed

lemma wp_kill_line:
  assumes "input_ok s" "screen_ok s" "kern_ok {ConsLock} s" "n = unat (in_e s - in_w s)"
  shows "wp (kill_line n) (\<lambda>_. con_step (committed s, []) s) s"
  using assms
proof (induction n arbitrary: s)
  case 0
  then have "in_e s = in_w s" by (simp add: unat_eq_zero)
  then show ?case using 0 by (simp add: wp_simps con_step_def edited_def ring_q_def)
next
  case (Suc n)
  then have ne: "in_w s \<noteq> in_e s" by auto
  have "edited s \<noteq> []" using ne by (simp add: edited_def ring_q_empty)
  then have "in_at (in_e s - 1) s \<in> set (edited s)"
    using ring_q_butlast(2)[OF ne, of INPUT_BUF "inbuf s"] last_in_set[of "edited s"] by (simp add: edited_def in_at_def)
  then have nl: "in_at (in_e s - 1) s \<noteq> 10" using Suc.prems(1) by (auto simp: input_ok_def)
  have "wp erase (\<lambda>_. wp (kill_line n) (\<lambda>_. con_step (committed s, []) s)) s"
  proof (rule wp_erase[OF Suc.prems(1-3)])
    fix t assume t: "con_step (committed s, butlast (edited s)) s t" "in_w t = in_w s" "in_e t = in_e s - 1"
    have "n = unat (in_e t - in_w t)"
      using Suc.prems(4) ring_q_butlast(3)[OF ne] t(2,3) by simp
    then have "wp (kill_line n) (\<lambda>_. con_step (committed t, []) t) t" using t by (intro Suc.IH) (auto simp: con_step_def)
    then show "wp (kill_line n) (\<lambda>_. con_step (committed s, []) s) t"
      by (rule wp_mono) (use t in \<open>auto simp: con_step_def elim: con_frame_trans\<close>)
  qed (use ne in simp)
  then show ?case using ne nl by (simp add: wp_simps)
qed

text \<open>Storing a character at the edit index appends it to the edited line.\<close>

definition put_char :: "uchar \<Rightarrow> 'a cist_scheme \<Rightarrow> 'a cist_scheme" where
  "put_char b s = s\<lparr>inbuf := (inbuf s)[unat (in_e s) mod INPUT_BUF := b], in_e := in_e s + 1\<rparr>"

lemma put_char_frame [simp]:
  "screen_ok (put_char b s) = screen_ok s" "kern_ok H (put_char b s) = kern_ok H s" "con_frame t (put_char b s) = con_frame t s"
  "in_r (put_char b s) = in_r s" "in_w (put_char b s) = in_w s" "in_e (put_char b s) = in_e s + 1"
  "length (inbuf (put_char b s)) = length (inbuf s)" "crt (put_char b s) = crt s"
  by (simp_all add: put_char_def)

lemma room_iff:
  assumes "input_ok s"
  shows "in_e s - in_r s < of_nat INPUT_BUF \<longleftrightarrow> length (committed s) + length (edited s) < INPUT_BUF"
    "unat (in_e s - in_r s) = length (committed s) + length (edited s)"
proof -
  show u: "unat (in_e s - in_r s) = length (committed s) + length (edited s)"
    using ring_q_append(1)[of "in_w s" "in_r s" "in_e s"] assms by (simp add: input_ok_def layout committed_def edited_def)
  have "in_e s - in_r s < of_nat INPUT_BUF \<longleftrightarrow> unat (in_e s - in_r s) < INPUT_BUF"
    by (simp add: word_less_nat_alt layout)
  then show "in_e s - in_r s < of_nat INPUT_BUF \<longleftrightarrow> length (committed s) + length (edited s) < INPUT_BUF"
    using u by simp
qed

lemma put_char_edit:
  fixes b :: uchar
  assumes ok: "input_ok s" and room: "length (committed s) + length (edited s) < INPUT_BUF"
  defines "t \<equiv> put_char b s"
  shows "committed t = committed s" "edited t = edited s @ [b]" "unat (in_e t - in_r t) = length (committed s) + length (edited s) + 1"
    "unat (in_e t - in_w t) = Suc (length (edited s))"
proof -
  have l: "length (inbuf s) = INPUT_BUF" using ok by (simp add: input_ok_def)
  have u: "unat (in_e s - in_r s) < INPUT_BUF" using room_iff(2)[OF ok] room by simp
  have ew: "unat (in_e s - in_w s) < INPUT_BUF" using room by (simp add: edited_def)
  show ed: "edited t = edited s @ [b]" unfolding edited_def t_def put_char_def using iring.push[OF ew l] by simp
  have "length (edited t) = Suc (length (edited s))" by (simp only: ed) simp
  then show ew': "unat (in_e t - in_w t) = Suc (length (edited s))" by (simp add: edited_def)
  have ap: "ring_q INPUT_BUF (inbuf s) (in_r s) (in_e s) = committed s @ edited s"
    using ring_q_append(2)[of "in_w s" "in_r s" "in_e s"] ok by (simp add: input_ok_def layout committed_def edited_def)
  have sm: "unat (in_w t - in_r t) + unat (in_e t - in_w t) < 2 ^ 32"
    using room ew' by (simp add: t_def committed_def layout)
  have "ring_q INPUT_BUF (inbuf t) (in_r t) (in_e t) = committed t @ edited t"
    using ring_q_append(2)[OF sm] by (simp add: committed_def edited_def)
  moreover have "ring_q INPUT_BUF (inbuf t) (in_r t) (in_e t) = (committed s @ edited s) @ [b]"
    using iring.push[OF u l, of b] ap by (simp add: t_def put_char_def)
  ultimately show "committed t = committed s" by (simp add: ed)
  show "unat (in_e t - in_r t) = length (committed s) + length (edited s) + 1"
    using ring_q_append(1)[OF sm] ew' by (simp add: t_def committed_def)
qed

lemma put_char_ok:
  assumes "input_ok s" "length (committed s) + length (edited s) < INPUT_BUF" "b \<noteq> 10"
  shows "input_ok (put_char b s)"
  using put_char_edit[OF assms(1,2), of b] assms by (simp add: input_ok_def committed_def)

lemma commit_line:
  fixes b :: uchar
  assumes ok: "input_ok s" and room: "length (committed s) + length (edited s) < INPUT_BUF"
  defines "t \<equiv> in_w_update (\<lambda>_. in_e s + 1) (put_char b s)"
  shows "input_ok t" "committed t = committed s @ edited s @ [b]" "edited t = []"
proof -
  let ?u = "put_char b s"
  note e = put_char_edit[OF ok room, of b]
  have sm: "unat (in_w ?u - in_r ?u) + unat (in_e ?u - in_w ?u) < 2 ^ 32"
    using room e(4) by (simp add: committed_def layout)
  have "ring_q INPUT_BUF (inbuf ?u) (in_r ?u) (in_e ?u) = committed ?u @ edited ?u"
    using ring_q_append(2)[OF sm] by (simp add: committed_def edited_def)
  moreover have "committed t = ring_q INPUT_BUF (inbuf ?u) (in_r ?u) (in_e ?u)" by (simp add: committed_def t_def)
  ultimately show "committed t = committed s @ edited s @ [b]" using e(1,2) by simp
  show ed: "edited t = []" by (simp add: edited_def t_def ring_q_def)
  show "input_ok t" using ok e(3) room ed by (simp add: input_ok_def t_def)
qed

lemma wp_input_char:
  assumes ok: "input_ok s" and scr: "screen_ok s" and k: "kern_ok {ConsLock} s" and c: "0 \<le> c" "c < 256"
    and ctl: "c \<notin> {16, 18, 6, 19, 26, 21, 8, 127}"
  shows "wp (input_char c) (\<lambda>_. con_step (spec_char c (committed s, edited s)) s) s"
proof (cases "c \<noteq> 0 \<and> length (committed s) + length (edited s) < INPUT_BUF")
  case False
  then have "\<not> (c \<noteq> 0 \<and> in_e s - in_r s < of_nat INPUT_BUF)" using room_iff(1)[OF ok] by simp
  then show ?thesis using False ok scr k ctl by (auto simp: input_char_def wp_simps con_step_def spec_char_def)
next
  case True
  define d where "d = (if c = 13 then 10 else c)"
  define b where "b = (of_int d :: uchar)"
  let ?eol = "d = 10 \<or> d = 4 \<or> length (committed s) + length (edited s) + 1 = INPUT_BUF"
  note e = put_char_edit[OF ok conjunct2[OF True], of b]
  have "uint b = d" using c by (auto simp: b_def d_def uint_word_of_int take_bit_eq_mod)
  then have b10: "b = 10 \<longleftrightarrow> d = 10" by (auto simp: word_uint_eq_iff)
  have full: "in_e s + 1 = in_r s + of_nat INPUT_BUF \<longleftrightarrow> length (committed s) + length (edited s) + 1 = INPUT_BUF"
    using iring.full_iff[of "in_e s + 1" "in_r s"] e(3) by simp
  have spec: "spec_char c (committed s, edited s) =
      (if ?eol then (committed s @ edited s @ [b], []) else (committed s, edited s @ [b]))"
    using True ctl by (auto simp: spec_char_def Let_def d_def b_def)
  have "wp (consputc d) (\<lambda>_. wp (kbind (gets (\<lambda>s. d = 10 \<or> d = 4 \<or> in_e s = in_r s + of_nat INPUT_BUF)) (\<lambda>eol.
      kwhen eol (kseq (modify (\<lambda>s. s\<lparr>in_w := in_e s\<rparr>)) (wakeup ChInput))))
      (\<lambda>_. con_step (spec_char c (committed s, edited s)) s)) (put_char b s)"
  proof (rule wp_consputc)
    show "screen_ok (put_char b s)" using scr by simp
    fix m x and p :: int
    assume p: "0 \<le> p" "p < 24 * 80"
    show "wp (kbind (gets (\<lambda>s. d = 10 \<or> d = 4 \<or> in_e s = in_r s + of_nat INPUT_BUF)) (\<lambda>eol.
        kwhen eol (kseq (modify (\<lambda>s. s\<lparr>in_w := in_e s\<rparr>)) (wakeup ChInput))))
        (\<lambda>_. con_step (spec_char c (committed s, edited s)) s) (out m p x (put_char b s))"
    proof (cases ?eol)
      case True
      have "wp (wakeup ChInput) (\<lambda>_. con_step (spec_char c (committed s, edited s)) s)
          (out m p x (in_w_update (\<lambda>_. in_e s + 1) (put_char b s)))"
        by (rule wp_wakeup_put[where H = "{ConsLock}"])
          (use k p True commit_line[OF ok conjunct2[OF \<open>c \<noteq> 0 \<and> _\<close>], of b] in \<open>auto simp: con_step_def spec\<close>)
      then show ?thesis using True full by (auto simp: wp_simps)
    next
      case False
      then show ?thesis
        using full k p e put_char_ok[OF ok conjunct2[OF True], of b] b10 by (auto simp: wp_simps con_step_def spec)
    qed
  qed
  then show ?thesis
    using True room_iff(1)[OF ok] by (simp add: input_char_def wp_simps put_char_def d_def[symmetric] b_def Let_def)
qed

lemma wp_intr_char:
  assumes "input_ok s" "screen_ok s" "kern_ok {ConsLock} s" "0 \<le> c" "c < 256"
  shows "wp (intr_char c) (\<lambda>_. con_step (spec_char c (committed s, edited s)) s) s"
proof -
  consider "c \<in> {16, 18, 6, 19, 26}" | "c = 21" | "c = 8 \<or> c = 127" "in_e s = in_w s" | "c = 8 \<or> c = 127" "in_e s \<noteq> in_w s"
    | "c \<notin> {16, 18, 6, 19, 26, 21, 8, 127}" by auto
  then show ?thesis
  proof cases
    case 2
    then show ?thesis using wp_kill_line[OF assms(1-3)] by (simp add: intr_char_def wp_simps spec_char_def)
  next
    case 3
    then have "edited s = []" by (simp add: edited_def ring_q_empty)
    then show ?thesis using 3 assms by (auto simp: intr_char_def wp_simps spec_char_def con_step_def)
  next
    case 4
    have "wp erase (\<lambda>_. con_step (committed s, butlast (edited s)) s) s"
      by (rule wp_erase) (use assms 4 in auto)
    then show ?thesis using 4 by (auto simp: intr_char_def wp_simps spec_char_def)
  next
    case 5
    then show ?thesis using wp_input_char[OF assms 5] by (simp add: intr_char_def)
  qed (use assms in \<open>auto simp: intr_char_def wp_simps spec_char_def con_step_def\<close>)
qed

lemma wp_intr_chars:
  assumes "input_ok s" "screen_ok s" "kern_ok {ConsLock} s" "\<forall>c \<in> set cs. 0 \<le> c \<and> c < 256"
  shows "wp (kfor intr_char cs) (\<lambda>_. con_step (fold spec_char cs (committed s, edited s)) s) s"
  using assms
proof (induction cs arbitrary: s)
  case Nil
  then show ?case by (simp add: wp_simps con_step_def)
next
  case (Cons c cs)
  have "wp (intr_char c) (\<lambda>_. wp (kfor intr_char cs) (\<lambda>_. con_step (fold spec_char (c # cs) (committed s, edited s)) s)) s"
  proof (rule wp_mono[OF wp_intr_char[OF Cons.prems(1-3)]])
    fix u and t :: "'a cist_scheme"
    assume t: "con_step (spec_char c (committed s, edited s)) s t"
    have "wp (kfor intr_char cs) (\<lambda>_. con_step (fold spec_char cs (committed t, edited t)) t) t"
      using t Cons.prems(4) by (intro Cons.IH) (auto simp: con_step_def)
    then show "wp (kfor intr_char cs) (\<lambda>_. con_step (fold spec_char (c # cs) (committed s, edited s)) s) t"
      by (rule wp_mono) (use t in \<open>auto simp: con_step_def elim: con_frame_trans\<close>)
  qed (use Cons.prems(4) in auto)
  then show ?case by (simp add: wp_kbind)
qed

lemma wp_intr_loop:
  assumes "input_ok s" "screen_ok s" "kern_ok {} s" "\<forall>c \<in> set cs. 0 \<le> c \<and> c < 256"
  shows "wp (intr_loop cs) (\<lambda>_ t. input_ok t \<and> screen_ok t \<and> kern_ok {} t \<and> con_frame s t \<and>
    (committed t, edited t) = fold spec_char cs (committed s, edited s)) s"
proof -
  let ?Q = "\<lambda>_ t. input_ok t \<and> screen_ok t \<and> kern_ok {} t \<and> con_frame s t \<and>
    (committed t, edited t) = fold spec_char cs (committed s, edited s)"
  have "wp (acquire ConsLock) (\<lambda>_. wp (kfor intr_char cs) (\<lambda>_. wp (release ConsLock) ?Q)) s"
  proof (rule wp_acquire_put[OF assms(3)], simp)
    fix k assume "kern_ok (insert ConsLock {}) (put_kern k s)"
    then have "wp (kfor intr_char cs) (\<lambda>_. con_step (fold spec_char cs (committed s, edited s)) (put_kern k s)) (put_kern k s)"
      using wp_intr_chars[of "put_kern k s" cs] assms by simp
    then show "wp (kfor intr_char cs) (\<lambda>_. wp (release ConsLock) ?Q) (put_kern k s)"
    proof (rule wp_mono)
      fix u t assume t: "con_step (fold spec_char cs (committed s, edited s)) (put_kern k s) t"
      show "wp (release ConsLock) ?Q t"
        by (rule wp_release_put[where H = "{ConsLock}"])
          (use t con_frame_trans[of s "put_kern k s" t] in \<open>auto simp: con_step_def\<close>)
    qed
  qed
  then show ?thesis by (simp add: intr_loop_def wp_fun(4))
qed

section \<open>Reading\<close>

lemma wp_con_killed:
  assumes "me s = Some q" "Q (killed (procs s q)) s"
  shows "wp con_killed Q s"
  using assms by (simp add: con_killed_def the_proc_def wp_simps)

text \<open>What one call of \<open>consoleread\<close> takes from the committed input: up to the end of a line.\<close>

fun take_line :: "nat \<Rightarrow> uchar list \<Rightarrow> (uchar list \<times> uchar list) option" where
  "take_line 0 q = Some ([], q)"
| "take_line (Suc n) [] = None"
| "take_line (Suc n) (c # q) =
    (if c = 10 then Some ([c], q)
     else if c = 4 then None
     else map_option (\<lambda>(l, q). (c # l, q)) (take_line n q))"

lemma pop_line:
  assumes "input_ok s" "in_r s \<noteq> in_w s"
  defines "t \<equiv> s\<lparr>in_r := in_r s + 1\<rparr>"
  shows "input_ok t" "committed s = in_at (in_r s) s # committed t" "edited t = edited s"
proof -
  show c: "committed s = in_at (in_r s) s # committed t" "edited t = edited s"
    using iring.pop[OF assms(2), of "inbuf s"] by (simp_all add: committed_def edited_def t_def in_at_def)
  have "length (committed s) = Suc (length (committed t))" using c(1) by simp
  then show "input_ok t" using assms(1) c(2) by (simp add: input_ok_def committed_def t_def)
qed

lemma wp_consoleread_loop:
  assumes "input_ok s" "take_line n (committed s) = Some (l, q)"
  shows "wp (consoleread_loop m n) (\<lambda>r t. r = ConDone l \<and> (\<exists>i. t = s\<lparr>in_r := i\<rparr>) \<and>
    input_ok t \<and> committed t = q \<and> edited t = edited s) s"
  using assms
proof (induction n arbitrary: s l)
  case 0
  then show ?case by (auto simp: wp_simps intro: exI[of _ "in_r s"])
next
  case (Suc n)
  have ne: "in_r s \<noteq> in_w s"
    using Suc.prems(2) ring_q_empty[of INPUT_BUF "inbuf s" "in_r s" "in_w s"] by (auto simp: committed_def)
  let ?t = "s\<lparr>in_r := in_r s + 1\<rparr>" and ?c = "in_at (in_r s) s"
  note pop = pop_line[OF Suc.prems(1) ne]
  show ?case
  proof (cases "?c = 10")
    case True
    then show ?thesis using ne pop Suc.prems(2) by (auto simp: wp_simps)
  next
    case False
    then obtain l' where l: "?c \<noteq> 4" "take_line n (committed ?t) = Some (l', q)" "l = ?c # l'"
      using Suc.prems(2) by (auto simp: pop(2) split: if_splits)
    have "wp (consoleread_loop m n) (\<lambda>r t. r = ConDone l' \<and> (\<exists>i. t = ?t\<lparr>in_r := i\<rparr>) \<and>
      input_ok t \<and> committed t = q \<and> edited t = edited ?t) ?t" by (rule Suc.IH[OF pop(1) l(2)])
    then have "wp (consoleread_loop m n) (\<lambda>r t. con_cons ?c r = ConDone l \<and> (\<exists>i. t = s\<lparr>in_r := i\<rparr>) \<and>
      input_ok t \<and> committed t = q \<and> edited t = edited s) ?t" by (rule wp_mono) (use l(3) pop(3) in auto)
    then show ?thesis using ne False l(1) by (simp add: wp_simps)
  qed
qed

lemma take_line_plain:
  assumes "10 \<notin> set l" "4 \<notin> set l" "length l < n"
  shows "take_line n (l @ 10 # q) = Some (l @ [10], q)"
  using assms
proof (induction n arbitrary: l)
  case (Suc n)
  then show ?case by (cases l) auto
qed simp

lemma spec_plain:
  assumes "\<forall>c \<in> set cs. 32 \<le> c \<and> c < 127" "length com + length ed + length cs < INPUT_BUF"
  shows "fold spec_char cs (com, ed) = (com, ed @ map of_int cs)"
  using assms
proof (induction cs arbitrary: ed)
  case (Cons c cs)
  then have "spec_char c (com, ed) = (com, ed @ [of_int c])" by (auto simp: spec_char_def Let_def)
  then show ?case using Cons by simp
qed simp

lemma input_inode [simp]:
  "input_ok (inode_upd i f s) = input_ok s" "committed (inode_upd i f s) = committed s" "edited (inode_upd i f s) = edited s"
  "in_r_update g (inode_upd i f s) = inode_upd i f (in_r_update g s)"
  by (simp_all add: inode_upd_def input_ok_def committed_def edited_def)

lemma wp_consoleread:
  assumes k: "kern_ok {} s" and ok: "input_ok s" "take_line (nat n) (committed s) = Some (l, q)" and i: "locked_valid i s"
  shows "wp (consoleread i n) (\<lambda>r t. r = (int (length l), l) \<and> input_ok t \<and> committed t = q \<and> edited t = edited s \<and>
    kern_ok {} t \<and> locked_valid i t) s"
proof -
  let ?Q = "\<lambda>r t. r = (int (length l), l) \<and> input_ok t \<and> committed t = q \<and> edited t = edited s \<and>
    kern_ok {} t \<and> locked_valid i t"
  let ?fin = "\<lambda>r. case r of
      ConKilled bs \<Rightarrow> kseq (release ConsLock) (kseq (ilock i) (ret (- 1, bs)))
    | ConBlocked bs \<Rightarrow> sleep ChInput ConsLock
    | ConDone bs \<Rightarrow> kseq (release ConsLock) (kseq (ilock i) (ret (int (length bs), bs)))"
  have "wp (iunlock i) (\<lambda>_. wp (acquire ConsLock) (\<lambda>_. wp (consoleread_loop (nat n) (nat n)) (\<lambda>r. wp (?fin r) ?Q))) s"
  proof (rule wp_iunlock[OF k])
    fix k1 assume k1: "kern_ok {} (put_kern k1 s)"
    let ?u = "inode_upd i (ibusy_update (\<lambda>_. False)) (put_kern k1 s)"
    show "wp (acquire ConsLock) (\<lambda>_. wp (consoleread_loop (nat n) (nat n)) (\<lambda>r. wp (?fin r) ?Q)) ?u"
    proof (rule wp_acquire_put[of "{}"])
      fix k2 assume k2: "kern_ok (insert ConsLock {}) (put_kern k2 ?u)"
      have "wp (consoleread_loop (nat n) (nat n)) (\<lambda>r t. r = ConDone l \<and> (\<exists>i. t = (put_kern k2 ?u)\<lparr>in_r := i\<rparr>) \<and>
        input_ok t \<and> committed t = q \<and> edited t = edited (put_kern k2 ?u)) (put_kern k2 ?u)"
        by (rule wp_consoleread_loop) (use ok in simp_all)
      then show "wp (consoleread_loop (nat n) (nat n)) (\<lambda>r. wp (?fin r) ?Q) (put_kern k2 ?u)"
      proof (rule wp_mono)
        fix r and t :: "'a cist_scheme"
        assume t: "r = ConDone l \<and> (\<exists>i. t = (put_kern k2 ?u)\<lparr>in_r := i\<rparr>) \<and> input_ok t \<and> committed t = q \<and>
          edited t = edited (put_kern k2 ?u)"
        then obtain j where j: "t = (put_kern k2 ?u)\<lparr>in_r := j\<rparr>" by auto
        have "wp (release ConsLock) (\<lambda>_. wp (ilock i) (\<lambda>_. ?Q (int (length l), l))) t"
        proof (rule wp_release_put[of "{ConsLock}"])
          fix k3 assume k3: "kern_ok ({ConsLock} - {ConsLock}) (put_kern k3 t)"
          show "wp (ilock i) (\<lambda>_. ?Q (int (length l), l)) (put_kern k3 t)"
            by (rule wp_ilock_valid[of "{}"]) (use k3 t i in \<open>auto simp: j locked_valid_def\<close>)
        qed (use k2 j in simp_all)
        then show "wp (?fin r) ?Q t" using t by (simp add: wp_fun)
      qed
    qed (use k1 in simp_all)
  qed (use i in \<open>simp_all add: locked_valid_def\<close>)
  then show ?thesis by (simp add: consoleread_def wp_fun)
qed

section \<open>Properties\<close>

text \<open>A system state with an empty screen and input buffer and with the console's inode locked, for the witnesses.\<close>

definition boot_cist :: cist where
  "boot_cist = inode_upd 0 (\<lambda>ip. ip\<lparr>iref := 1, ibusy := True, ivalid := True\<rparr>) (fist.extend boot_fist \<lparr>locking = True,
    crt = \<lambda>_. 0x0720, crtpos = 0, serial = [], inbuf = replicate INPUT_BUF 0, in_r = 0, in_w = 0, in_e = 0, kshift = 0\<rparr>)"

lemma boot_cist_ok:
  "kern_ok {} boot_cist" "screen_ok boot_cist" "input_ok boot_cist" "committed boot_cist = []" "edited boot_cist = []"
  "locked_valid 0 boot_cist"
  using boot_fist_ok(1) by (simp_all add: boot_cist_def fist.extend_def kern_frame inode_upd_def screen_ok_def
      input_ok_def committed_def edited_def ring_q_def locked_valid_def)

text \<open>
  C16. The line discipline of the console: in every state of the input buffer in which the edited line has no
  newline and the two parts fit the buffer (which the call establishes again), handling typed characters
  returns, and it does to the pair of committed input and edited line what the specification says character by character: the line is killed or its
  last character erased, but never committed input; characters that do not fit are dropped; a newline, an
  end of file and a full buffer commit the line. The 32-bit indices may wrap around.
\<close>

theorem console_line_discipline:
  assumes "kern_ok {} s" "screen_ok s" "input_ok s" "\<forall>c \<in> set cs. 0 \<le> c \<and> c < 256"
  shows "\<exists>t. intr_loop cs s = Inr ((), t) \<and> input_ok t \<and> screen_ok t \<and> kern_ok {} t \<and>
    (committed t, edited t) = fold spec_char cs (committed s, edited s)"
  using wp_intr_loop[OF assms(3,2,1,4)] by (auto simp: wp_def)

theorem console_line_discipline_witness:
  "\<exists>t. intr_loop [97, 98, 21, 99, 100, 127, 101, 13, 102] boot_cist = Inr ((), t) \<and> committed t = [99, 101, 10] \<and>
    edited t = [102]"
  using console_line_discipline[of boot_cist "[97, 98, 21, 99, 100, 127, 101, 13, 102]"] boot_cist_ok
  by (auto simp: spec_char_def Let_def layout)

text \<open>
  C17. A line typed at the console is what the reader gets: when the buffer is empty, after printable
  characters and a carriage return a read of enough bytes returns exactly the characters
  followed by a newline, and leaves the buffer empty and the inode locked, as the caller had it.
\<close>

theorem console_line_roundtrip:
  assumes "kern_ok {} s" "screen_ok s" "input_ok s" "committed s = []" "edited s = []" "locked_valid i s"
    and "\<forall>c \<in> set cs. 32 \<le> c \<and> c < 127" "length cs + 1 < INPUT_BUF" "int (length cs) < n"
  shows "\<exists>t. kseq (intr_loop (cs @ [13])) (consoleread i n) s = Inr ((int (length cs) + 1, map of_int cs @ [10]), t) \<and>
    committed t = [] \<and> edited t = [] \<and> input_ok t \<and> locked_valid i t"
proof -
  let ?l = "map of_int cs :: uchar list"
  have spec: "fold spec_char (cs @ [13]) ([], []) = (?l @ [10], [])"
    using spec_plain[of cs "[]" "[]"] assms(7,8) by (simp add: spec_char_def Let_def)
  have "uint (of_int c :: uchar) = c" if "c \<in> set cs" for c
    using that assms(7) by (auto simp: uint_word_of_int take_bit_eq_mod)
  then have "10 \<notin> set ?l" "4 \<notin> set ?l" using assms(7) by (force simp: word_uint_eq_iff)+
  then have tl: "take_line (nat n) (?l @ [10]) = Some (?l @ [10], [])" using assms(9) by (intro take_line_plain) auto
  have "wp (intr_loop (cs @ [13])) (\<lambda>_. wp (consoleread i n) (\<lambda>r t. r = (int (length (?l @ [10])), ?l @ [10]) \<and>
    committed t = [] \<and> edited t = [] \<and> input_ok t \<and> locked_valid i t)) s"
  proof (rule wp_mono[OF wp_intr_loop[OF assms(3,2,1)]])
    fix u t assume t: "input_ok t \<and> screen_ok t \<and> kern_ok {} t \<and> con_frame s t \<and>
      (committed t, edited t) = fold spec_char (cs @ [13]) (committed s, edited s)"
    then have c: "committed t = ?l @ [10]" "edited t = []" "locked_valid i t"
      using spec assms(4,5,6) by (auto simp: con_frame_def locked_valid_def)
    show "wp (consoleread i n) (\<lambda>r t. r = (int (length (?l @ [10])), ?l @ [10]) \<and>
      committed t = [] \<and> edited t = [] \<and> input_ok t \<and> locked_valid i t) t"
      by (rule wp_mono[OF wp_consoleread[of t n "?l @ [10]" "[]" i]]) (use t c tl in auto)
  qed (use assms(7) in auto)
  then have "wp (kseq (intr_loop (cs @ [13])) (consoleread i n)) (\<lambda>r t. r = (int (length (?l @ [10])), ?l @ [10]) \<and>
    committed t = [] \<and> edited t = [] \<and> input_ok t \<and> locked_valid i t) s" by (simp add: wp_fun)
  then show ?thesis by (auto simp: wp_def)
qed

theorem console_line_roundtrip_witness:
  "\<exists>t. kseq (intr_loop [108, 115, 13]) (consoleread 0 128) boot_cist = Inr ((3, [108, 115, 10]), t) \<and> committed t = []"
  using console_line_roundtrip[of boot_cist 0 "[108, 115]" 128] boot_cist_ok by (auto simp: layout)

text \<open>
  C18. Printing never leaves the screen: from a cursor on the first 24 lines, any sequence of characters,
  backspaces included, returns without the panic of the position check, leaves the
  cursor on the first 24 lines and changes no cell of the display memory past the cell 24 * 80.
\<close>

theorem console_output_bounds:
  assumes "screen_ok s"
  shows "\<exists>t. kfor consputc cs s = Inr ((), t) \<and> screen_ok t \<and> (\<forall>j. 24 * 80 \<le> j \<longrightarrow> crt t j = crt s j)"
  using wp_consputcs[OF assms, of cs] by (auto simp: wp_def)

theorem console_output_bounds_witness:
  "\<exists>t. kfor consputc (replicate 5000 65) boot_cist = Inr ((), t) \<and> screen_ok t"
  using console_output_bounds[OF boot_cist_ok(2), of "replicate 5000 65"] by blast

end
