(* ===== verification/Clock.thy ===== *)
theory Clock
  imports Bytes
begin

text \<open>
  The real-time clock of \<^verbatim>\<open>lapic.c\<close>. The CMOS chip is the argument \<open>rd\<close>: \<open>rd k reg\<close> is what the \<open>k\<close>-th read
  returns when it asks for register \<open>reg\<close>, so the clock may move between reads. \<open>cmostime\<close> reads until two
  consecutive readings agree, which need not happen; \<open>None\<close> is the run that never ends.
\<close>

record rtcdate =
  second :: uint
  minute :: uint
  hour :: uint
  day :: uint
  month :: uint
  year :: uint

type_synonym cmos = "nat \<Rightarrow> uint \<Rightarrow> uint"

definition fill_rtcdate :: "cmos \<Rightarrow> nat \<Rightarrow> rtcdate" where
  "fill_rtcdate rd k = \<lparr>second = rd k 0x00, minute = rd (k + 1) 0x02, hour = rd (k + 2) 0x04,
    day = rd (k + 3) 0x07, month = rd (k + 4) 0x08, year = rd (k + 5) 0x09\<rparr>"

definition uip :: "uint \<Rightarrow> bool" where
  "uip sta \<longleftrightarrow> sta AND 0x80 \<noteq> 0"

partial_function (option) stable_time :: "cmos \<Rightarrow> nat \<Rightarrow> rtcdate option" where
  "stable_time rd k =
    (let t1 = fill_rtcdate rd k in
     if uip (rd (k + 6) 0x0A) then stable_time rd (k + 7)
     else if t1 = fill_rtcdate rd (k + 7) then Some t1
     else stable_time rd (k + 13))"

definition CONV :: "uint \<Rightarrow> uint" where
  "CONV x = drop_bit 4 x * 10 + (x AND 0xF)"

definition conv_date :: "rtcdate \<Rightarrow> rtcdate" where
  "conv_date t = \<lparr>second = CONV (second t), minute = CONV (minute t), hour = CONV (hour t), day = CONV (day t),
    month = CONV (month t), year = CONV (year t)\<rparr>"

definition cmostime :: "cmos \<Rightarrow> rtcdate option" where
  "cmostime rd =
    (let bcd = (rd 0 0x0B AND 4 = 0) in
     map_option (\<lambda>t. let t' = (if bcd then conv_date t else t) in t'\<lparr>year := year t' + 2000\<rparr>) (stable_time rd 1))"

definition enc_rtcdate :: "rtcdate \<Rightarrow> uchar list" where
  "enc_rtcdate t = concat (map bytes32 [second t, minute t, hour t, day t, month t, year t])"

section \<open>Properties\<close>

text \<open>A consistent reading: two equal readings with no update in progress between them.\<close>

definition consistent :: "cmos \<Rightarrow> nat \<Rightarrow> bool" where
  "consistent rd k \<longleftrightarrow> \<not> uip (rd (k + 6) 0x0A) \<and> fill_rtcdate rd k = fill_rtcdate rd (k + 7)"

lemma stable_time_unfold:
  "stable_time rd k =
    (if consistent rd k then Some (fill_rtcdate rd k)
     else stable_time rd (k + (if uip (rd (k + 6) 0x0A) then 7 else 13)))"
  by (subst stable_time.simps) (simp add: consistent_def Let_def)

lemma stable_time_returns:
  assumes "\<And>k r. K \<le> k \<Longrightarrow> rd k r = R r" "\<not> uip (R 0x0A)"
  shows "\<exists>j \<ge> k. consistent rd j \<and> stable_time rd k = Some (fill_rtcdate rd j)"
proof (induction "K - k" arbitrary: k rule: less_induct)
  case less
  show ?case
  proof (cases "consistent rd k")
    case True
    then show ?thesis using stable_time_unfold[of rd k] by auto
  next
    case False
    moreover have "consistent rd k" if "K \<le> k" using that assms by (simp add: consistent_def fill_rtcdate_def)
    ultimately have "k < K" by (cases "K \<le> k") auto
    define k' where "k' = k + (if uip (rd (k + 6) 0x0A) then 7 else 13)"
    have "K - k' < K - k" "k \<le> k'" using \<open>k < K\<close> by (auto simp: k'_def)
    from less(1)[OF this(1)] obtain j where j: "j \<ge> k'" "consistent rd j" "stable_time rd k' = Some (fill_rtcdate rd j)"
      by blast
    have "stable_time rd k = stable_time rd k'" using False stable_time_unfold[of rd k] by (simp add: k'_def)
    then show ?thesis using j \<open>k \<le> k'\<close> by (intro exI[of _ j]) simp
  qed
qed

definition bcd :: "uint \<Rightarrow> uint" where
  "bcd n = (n div 10) * 16 + n mod 10"

lemma CONV_bcd:
  assumes "n < 100"
  shows "CONV (bcd n) = n"
proof -
  let ?k = "unat n"
  have k: "?k < 100" using assms by (simp add: word_less_nat_alt)
  have d: "?k div 10 < 10" "?k mod 10 < 10" using k by auto
  have b: "unat (bcd n) = ?k div 10 * 16 + ?k mod 10"
    using d by (simp add: bcd_def unat_word_ariths unat_div unat_mod)
  have "drop_bit 4 (bcd n) = bcd n div 16" by (simp add: drop_bit_eq_div)
  then have "unat (drop_bit 4 (bcd n)) = ?k div 10" using b d by (simp add: unat_div)
  moreover have "bcd n AND 0xF = take_bit 4 (bcd n)" by (simp add: take_bit_eq_mask mask_eq_exp_minus_1)
  then have "unat (bcd n AND 0xF) = ?k mod 10" using b d by (simp add: take_bit_eq_mod unat_mod)
  ultimately have "unat (CONV (bcd n)) = ?k" using k by (simp add: CONV_def unat_word_ariths)
  then show ?thesis by (simp add: word_unat_eq_iff)
qed



text \<open>A chip that holds a date in BCD.\<close>

definition bcd_chip :: "rtcdate \<Rightarrow> cmos" where
  "bcd_chip D k r = (if r = 0x00 then bcd (second D) else if r = 0x02 then bcd (minute D) else if r = 0x04 then bcd (hour D)
    else if r = 0x07 then bcd (day D) else if r = 0x08 then bcd (month D) else if r = 0x09 then bcd (year D) else 0)"

text \<open>
  C21. Reading the clock recovers the date that the chip encodes in BCD, field by field, with the century added
  to the year.
\<close>

theorem cmostime_bcd:
  assumes "second D < 100" "minute D < 100" "hour D < 100" "day D < 100" "month D < 100" "year D < 100"
  shows "cmostime (bcd_chip D) = Some (D\<lparr>year := year D + 2000\<rparr>)"
proof -
  have f: "fill_rtcdate (bcd_chip D) k = \<lparr>second = bcd (second D), minute = bcd (minute D), hour = bcd (hour D),
      day = bcd (day D), month = bcd (month D), year = bcd (year D)\<rparr>" for k
    by (simp add: fill_rtcdate_def bcd_chip_def)
  have "consistent (bcd_chip D) 1" unfolding consistent_def f by (simp add: uip_def bcd_chip_def)
  then have "stable_time (bcd_chip D) 1 = Some (fill_rtcdate (bcd_chip D) 1)" by (subst stable_time_unfold) simp
  moreover have "bcd_chip D 0 0x0B AND 4 = 0" by (simp add: bcd_chip_def)
  ultimately show ?thesis using assms by (simp add: cmostime_def f conv_date_def CONV_bcd)
qed

theorem cmostime_bcd_witness:
  "cmostime (bcd_chip \<lparr>second = 59, minute = 30, hour = 23, day = 31, month = 12, year = 20\<rparr>) =
    Some \<lparr>second = 59, minute = 30, hour = 23, day = 31, month = 12, year = 2020\<rparr>"
  using cmostime_bcd[of "\<lparr>second = 59, minute = 30, hour = 23, day = 31, month = 12, year = 20\<rparr>"] by simp

end
