(* ===== verification/Trap.thy ===== *)
theory Trap
  imports Sysfile Console Clock
begin

text \<open>
  \<^verbatim>\<open>sysproc.c\<close>, the dispatch of \<^verbatim>\<open>syscall.c\<close>, and \<^verbatim>\<open>trap.c\<close>. What the hardware and the linker provide is the
  record \<open>env\<close>. A system call that does not return to its caller (\<open>exit\<close>) has the result \<open>None\<close>.
\<close>

record env =
  kend :: uint
  kdata :: uint
  cmos :: cmos
  kebp :: "nat \<Rightarrow> uint"
  scancodes :: "uchar list"
  uartchars :: "int list"

section \<open>Process system calls\<close>

definition sys_kill :: "('a pst_scheme, int) kmon" where
  "sys_kill = kbind (argint 0) (\<lambda>po. case po of None \<Rightarrow> ret (- 1) | Some n \<Rightarrow> kill n)"

definition sys_getpid :: "('a pst_scheme, int) kmon" where
  "sys_getpid = kbind cur (\<lambda>r. ret (sint (pid r)))"

definition sys_sbrk :: "uint \<Rightarrow> ('a pst_scheme, int) kmon" where
  "sys_sbrk ke =
    kbind (argint 0) (\<lambda>no. case no of None \<Rightarrow> ret (- 1) | Some n \<Rightarrow>
    kbind cur (\<lambda>r.
    kbind (growproc ke (sint n)) (\<lambda>z.
    if z < 0 then ret (- 1) else ret (sint (sz r)))))"

text \<open>A round of the loop of \<open>sys_sleep\<close>; the process sleeps without a lock to give up.\<close>

definition sys_sleep_round :: "uint \<Rightarrow> uint \<Rightarrow> ('a pst_scheme, int) kmon" where
  "sys_sleep_round ticks0 n =
    kbind (gets ticks) (\<lambda>now.
    if now - ticks0 < n then
      kbind cur (\<lambda>r.
      if killed r then ret (- 1)
      else
        kbind (gets (\<lambda>s. ncli (cpus s (mycpu s)))) (\<lambda>k.
        if k \<noteq> 0 then panic ''sched locks'' else stop (Sleep ChTicks None)))
    else ret 0)"

definition sys_sleep :: "('a pst_scheme, int) kmon" where
  "sys_sleep =
    kbind (argint 0) (\<lambda>no. case no of None \<Rightarrow> ret (- 1) | Some n \<Rightarrow>
    kbind (gets ticks) (\<lambda>ticks0. sys_sleep_round ticks0 n))"

definition sys_uptime :: "('a pst_scheme, int) kmon" where
  "sys_uptime = gets (\<lambda>s. sint (ticks s))"

definition sys_halt :: "('a pst_scheme, int) kmon" where
  "sys_halt = kseq (cprintf ''Shutting down ...'') (ret 0)"

definition sys_date :: "cmos \<Rightarrow> ('a pst_scheme, int) kmon" where
  "sys_date rd =
    kbind (argptr 0 24) (\<lambda>vo. case vo of None \<Rightarrow> ret (- 1) | Some va \<Rightarrow>
    case cmostime rd of
      None \<Rightarrow> stop Diverge
    | Some t \<Rightarrow> kseq (user_store va (enc_rtcdate t)) (ret 0))"

definition sys_getuid :: "('a pst_scheme, int) kmon" where
  "sys_getuid = kbind cur (\<lambda>r. ret (sint (uid r)))"

definition sys_getgid :: "('a pst_scheme, int) kmon" where
  "sys_getgid = kbind cur (\<lambda>r. ret (sint (gid r)))"

definition sys_getppid :: "('a pst_scheme, int) kmon" where
  "sys_getppid = kbind the_proc (\<lambda>p. kbind (parent_pid p) (\<lambda>n. ret (sint n)))"

definition id_arg :: "nat \<Rightarrow> ('a pst_scheme, uint option) kmon" where
  "id_arg k =
    kbind (argint k) (\<lambda>no. case no of None \<Rightarrow> ret None | Some n \<Rightarrow>
    ret (if sint n < 0 \<or> sint n > 32767 then None else Some n))"

definition sys_setuid :: "('a pst_scheme, int) kmon" where
  "sys_setuid =
    kbind (id_arg 0) (\<lambda>no. case no of None \<Rightarrow> ret (- 1) | Some n \<Rightarrow>
    kbind the_proc (\<lambda>p. kseq (set_proc p (\<lambda>r. r\<lparr>uid := n\<rparr>)) (ret 0)))"

definition sys_setgid :: "('a pst_scheme, int) kmon" where
  "sys_setgid =
    kbind (id_arg 0) (\<lambda>no. case no of None \<Rightarrow> ret (- 1) | Some n \<Rightarrow>
    kbind the_proc (\<lambda>p. kseq (set_proc p (\<lambda>r. r\<lparr>gid := n\<rparr>)) (ret 0)))"

text \<open>The fields of \<^verbatim>\<open>struct uproc\<close>; the strings are stored with their NUL, the rest of their arrays stays.\<close>

definition UPROC :: uint where [layout]: "UPROC = 96"

definition store_uproc :: "uint \<Rightarrow> uproc \<Rightarrow> ('a pst_scheme, unit) kmon" where
  "store_uproc va u =
    kfor (\<lambda>(off, bs). user_store (va + off) bs)
      [(0, bytes32 (u_pid u)), (4, bytes32 (u_uid u)), (8, bytes32 (u_gid u)), (12, bytes32 (u_ppid u)),
       (92, bytes32 (u_priority u)), (16, bytes32 (u_elapsed_ticks u)), (20, bytes32 (u_CPU_total_ticks u)),
       (24, u_state u @ [0]), (56, bytes32 (u_size u)), (60, u_name u @ [0])]"

definition sys_getprocs :: "('a pst_scheme, int) kmon" where
  "sys_getprocs =
    kbind (argint 0) (\<lambda>no. case no of None \<Rightarrow> ret (- 1) | Some n \<Rightarrow>
    kbind (argptr 1 (UPROC * n)) (\<lambda>vo. case vo of None \<Rightarrow> ret (- 1) | Some va \<Rightarrow>
    kbind (getprocs n) (\<lambda>us.
    kseq (kfor (\<lambda>i. store_uproc (va + UPROC * of_nat i) (us ! i)) [0..<length us]) (
    ret (int (length us))))))"

definition sys_setpriority :: "('a pst_scheme, int) kmon" where
  "sys_setpriority =
    kbind (argint 0) (\<lambda>no. case no of None \<Rightarrow> ret (- 1) | Some n \<Rightarrow>
    kbind (argint 1) (\<lambda>io. case io of None \<Rightarrow> ret (- 1) | Some i \<Rightarrow>
    if sint n < 0 \<or> sint n > 32767 then ret (- 1)
    else if sint i < 0 \<or> sint i > int MAXPRIO then ret (- 1)
    else setpriority n i))"

section \<open>Dispatch\<close>

definition returns :: "('s, int) kmon \<Rightarrow> ('s, int option) kmon" where
  "returns m = kbind m (\<lambda>v. ret (Some v))"

definition sys_exit :: "uint \<Rightarrow> ('a fist_scheme, int option) kmon" where
  "sys_exit ke = kseq (exit_enter ke) (ret None)"

definition syscalls :: "env \<Rightarrow> ('a cist_scheme, int option) kmon list" where
  "syscalls E =
    [returns (fork (kend E) (kdata E)), sys_exit (kend E), returns (wait (kend E)), returns (sys_pipe (kend E)),
     returns (sys_read cons_devsw), returns sys_kill, returns (sys_exec (kend E) (kdata E) cons_devsw),
     returns sys_fstat, returns (sys_chdir cons_devsw), returns sys_dup, returns sys_getpid,
     returns (sys_sbrk (kend E)), returns sys_sleep, returns sys_uptime, returns (sys_open (kend E) cons_devsw),
     returns (sys_write cons_devsw), returns (sys_mknod cons_devsw), returns (sys_unlink cons_devsw),
     returns (sys_link cons_devsw), returns (sys_mkdir cons_devsw), returns (sys_close (kend E)), returns sys_halt,
     returns (sys_date (cmos E)), returns sys_getuid, returns sys_getgid, returns sys_getppid, returns sys_setuid,
     returns sys_setgid, returns sys_getprocs, returns sys_setpriority, returns (sys_chown cons_devsw)]"

definition set_eax :: "uint \<Rightarrow> ('a pst_scheme, unit) kmon" where
  "set_eax v = kbind the_proc (\<lambda>p. set_proc p (\<lambda>r. r\<lparr>tf := (tf r)\<lparr>tf_eax := v\<rparr>\<rparr>))"

text \<open>\<open>syscall\<close> tells whether the call came back.\<close>

definition syscall :: "env \<Rightarrow> ('a cist_scheme, bool) kmon" where
  "syscall E =
    kbind cur (\<lambda>r.
    let num = sint (tf_eax (tf r)) in
    if 0 < num \<and> num < 32 then
      kbind (syscalls E ! nat (num - 1)) (\<lambda>vo.
      case vo of None \<Rightarrow> ret False | Some v \<Rightarrow> kseq (set_eax (of_int v)) (ret True))
    else
      kseq (kprintf (''%d %s: unknown sys call %d'' @ [NEWL])
        [FInt (pid r), FStr (Some (unstr (pname r))), FInt (tf_eax (tf r))]) (
      kseq (set_eax (- 1)) (
      ret True)))"

section \<open>Traps\<close>

definition T_SYSCALL :: uint where [layout]: "T_SYSCALL = 64"
definition T_TIMER :: uint where [layout]: "T_TIMER = 32"
definition T_KBD :: uint where [layout]: "T_KBD = 33"
definition T_COM1 :: uint where [layout]: "T_COM1 = 36"
definition T_IRQ7 :: uint where [layout]: "T_IRQ7 = 39"
definition T_IDE :: uint where [layout]: "T_IDE = 46"
definition T_SPURIOUS :: uint where [layout]: "T_SPURIOUS = 63"
definition SCHED_INTERVAL :: uint where [layout]: "SCHED_INTERVAL = 10"

datatype trapres = Returns | Exits | Yields

definition atom_inc_ticks :: "('a pst_scheme, unit) kmon" where
  "atom_inc_ticks = modify (\<lambda>s. s\<lparr>ticks := ticks s + 1\<rparr>)"

definition user_mode :: "trapframe \<Rightarrow> bool" where
  "user_mode f \<longleftrightarrow> tf_cs f AND 3 = 3"

definition exit_if_killed :: "uint \<Rightarrow> trapframe \<Rightarrow> ('a fist_scheme, trapres) kmon \<Rightarrow> ('a fist_scheme, trapres) kmon" where
  "exit_if_killed ke f k =
    kbind (gets (\<lambda>s. case me s of None \<Rightarrow> False | Some p \<Rightarrow> killed (procs s p))) (\<lambda>dead.
    if dead \<and> user_mode f then kseq (exit_enter ke) (ret Exits) else k)"

definition trap_default :: "trapframe \<Rightarrow> ('a pst_scheme, unit) kmon" where
  "trap_default f =
    kbind (gets me) (\<lambda>po.
    case po of
      None \<Rightarrow> kseq (cprintf ''unexpected trap %d from cpu %d eip %x (cr2=0x%x)'') (panic ''trap'')
    | Some p \<Rightarrow>
        if tf_cs f AND 3 = 0 then
          kseq (cprintf ''unexpected trap %d from cpu %d eip %x (cr2=0x%x)'') (panic ''trap'')
        else
          kseq (cprintf ''pid %d %s: trap %d err %d on cpu %d eip 0x%x addr 0x%x--kill proc'') (
          set_proc p (\<lambda>r. r\<lparr>killed := True\<rparr>)))"

definition trap_irq :: "env \<Rightarrow> trapframe \<Rightarrow> ('a cist_scheme, unit) kmon" where
  "trap_irq E f =
    (let n = tf_trapno f in
     if n = T_TIMER then
       kbind (gets mycpu) (\<lambda>c. kwhen (c = 0) (kseq atom_inc_ticks (wakeup ChTicks)))
     else if n = T_IDE then ideintr
     else if n = T_IDE + 1 then ret ()
     else if n = T_KBD then kbdintr (kebp E) (scancodes E)
     else if n = T_COM1 then consoleintr (kebp E) (uartchars E)
     else if n = T_IRQ7 \<or> n = T_SPURIOUS then cprintf ''cpu%d: spurious interrupt at %x:%x''
     else trap_default f)"

definition trap :: "env \<Rightarrow> trapframe \<Rightarrow> ('a cist_scheme, trapres) kmon" where
  "trap E f =
    (if tf_trapno f = T_SYSCALL then
      kbind cur (\<lambda>r.
      if killed r then kseq (exit_enter (kend E)) (ret Exits)
      else
        kbind the_proc (\<lambda>p.
        kseq (set_proc p (\<lambda>r. r\<lparr>tf := f\<rparr>)) (
        kbind (syscall E) (\<lambda>back.
        if \<not> back then ret Exits
        else
          kbind cur (\<lambda>r.
          if killed r then kseq (exit_enter (kend E)) (ret Exits) else ret Returns)))))
     else
      kseq (trap_irq E f) (
      exit_if_killed (kend E) f (
        kbind (gets (\<lambda>s. (case me s of None \<Rightarrow> False | Some p \<Rightarrow> state (procs s p) = RUNNING) \<and>
          tf_trapno f = T_TIMER \<and> ticks s mod SCHED_INTERVAL = 0)) (\<lambda>y.
        if y then kseq yield_enter (ret Yields) else ret Returns))))"

text \<open>What is left of \<open>trap\<close> after \<open>yield\<close> comes back.\<close>

definition trap_resumed :: "env \<Rightarrow> trapframe \<Rightarrow> ('a fist_scheme, trapres) kmon" where
  "trap_resumed E f = exit_if_killed (kend E) f (ret Returns)"

end
