(* ===== verification/Spec2Isabelle.thy ===== *)
theory Spec2Isabelle
  imports Shell Grep Umalloc Args Trap
begin

text \<open>
  A verification library for the xv6 fork under \<^verbatim>\<open>src/xv6-B06\<close>: a small Unix kernel for 32-bit x86 with
  processes, virtual memory, a logged file system, pipes and a console, extended with state lists and a
  multilevel feedback scheduler, user and group identifiers, file modes and ownership, and its shell.

  \<^bold>\<open>The kernel monad.\<close> An operation of the kernel is a function of type \<open>('s, 'a) kmon = 's \<Rightarrow> stop + 'a \<times> 's\<close> (theory
  Prelude): it returns a value and a new state, or it stops. The reasons to stop are the source's: \<open>Panic\<close> with the message of
  the call of \<^verbatim>\<open>panic\<close>, \<open>Sleep\<close> on a channel with the lock handed to \<^verbatim>\<open>sleep\<close> (the process gives up the processor and the call
  is resumed or started again by its caller's loop), \<open>Spin\<close> on a lock the model finds taken, \<open>Undef\<close> for what C
  leaves undefined (a null pointer), and \<open>Diverge\<close> when a loop exceeds the bound given to it. \<open>wp m Q s\<close> says that \<open>m\<close> returns from \<open>s\<close> with
  \<open>Q\<close>: every statement proved with it is one of total correctness, and excludes all of these stops.

  \<^bold>\<open>States.\<close> The state of each component extends the one below it as a record: \<open>mach\<close> (locks and processors,
  Spinlock), \<open>kmemst\<close> (memory and the free list, Kalloc), \<open>pst\<close> (process table and state lists, Plist and Sched), \<open>bst\<close> (buffer
  cache and disk, Bio), \<open>lst\<close> (the log, Log), \<open>ist\<close> (superblock and inode cache, Fs), \<open>pist\<close> (pipes, Pipe), \<open>fist\<close> (the open file
  table, File), \<open>cist\<close> (console, Console). An operation is polymorphic in the extension, so a lower component is
  used unchanged in the states above it. Theory Kern gives the rules by which the upper components call
  \<^verbatim>\<open>acquire\<close>, \<^verbatim>\<open>release\<close>, \<^verbatim>\<open>wakeup\<close> and \<^verbatim>\<open>sleep\<close>: \<open>kern_ok H s\<close> says that the processor holds exactly the locks \<open>H\<close> and the process
  table is consistent, and \<open>put_kern\<close> replaces what those calls may change.

  \<^bold>\<open>Integers\<close> are words of the width the source has; addresses, sizes and counters wrap around as in C. Memory is a function
  from 32-bit addresses to bytes; page tables, the free list of pages and user memory are bytes in it.

  \<^bold>\<open>The parts.\<close>
  \<^item> Spinlock: \<^verbatim>\<open>spinlock.c\<close>, with interrupts and nesting depth; the lock discipline. Kalloc: \<^verbatim>\<open>kalloc.c\<close>; the pages
    handed out and the free ones always partition memory (locale \<open>page_allocator\<close>).
  \<^item> Kstring: \<^verbatim>\<open>string.c\<close>. Bytes: little-endian encodings. Ring: circular buffers with wrapping
    counters (locales \<open>ring\<close>, \<open>byte_queue\<close>), used for pipes and the console.
  \<^item> Plist and Sched: \<^verbatim>\<open>proc.c\<close>, the lists of processes by state, and \<^verbatim>\<open>yield\<close>, \<^verbatim>\<open>sleep\<close>, \<^verbatim>\<open>wakeup\<close>, \<^verbatim>\<open>kill\<close>, \<^verbatim>\<open>setpriority\<close>, promotion
    and the scheduler's choice. A process in the kernel runs until it switches, so these are cut at the
    context switch: what the process does before it, and what the scheduler does after.
    Proc: the rest of \<^verbatim>\<open>proc.c\<close>, creation, exit, wait, listings.
  \<^item> Bio: \<^verbatim>\<open>bio.c\<close> and \<^verbatim>\<open>ide.c\<close>; the cache as a map from block numbers to contents in least-recently-used order.
    Log: \<^verbatim>\<open>log.c\<close>; the commit protocol against a crash at any disk write. Fs: \<^verbatim>\<open>fs.c\<close>. File: \<^verbatim>\<open>file.c\<close>.
    Pipe: \<^verbatim>\<open>pipe.c\<close>; histories of a pipe as an inductive relation over states. Sysfile: \<^verbatim>\<open>sysfile.c\<close>.
  \<^item> Vm: \<^verbatim>\<open>vm.c\<close>, with the processor's page walk \<open>xlate\<close>. Pagetab: the invariant of all page directories, mapping
    and copying of address spaces. Exec: \<^verbatim>\<open>exec.c\<close>. Syscall: argument access of \<^verbatim>\<open>syscall.c\<close>.
  \<^item> Kprintf and Console: \<^verbatim>\<open>console.c\<close> and \<^verbatim>\<open>kbd.c\<close>. Clock: \<^verbatim>\<open>cmostime\<close> of \<^verbatim>\<open>lapic.c\<close>. Trap: \<^verbatim>\<open>sysproc.c\<close>, the table of system
    calls and \<^verbatim>\<open>trap.c\<close>; everything above comes together there.
  \<^item> Shell: \<^verbatim>\<open>sh.c\<close>, scanner, parser and execution as a script of system calls.
\<close>

end
